(* ===== verification/Lumina_Prelude.thy ===== *)
theory Lumina_Prelude
  imports Main "HOL-Library.Word" "HOL-Library.List_Lexorder"
begin

text \<open>
  Shared vocabulary of the development: the machine types of the C++ sources as words,
  the status codes of \<^verbatim>\<open>include/lumina/common/types.h\<close>, and the byte codecs
  (little and big endian) that the WAL, the snapshot file and the entry metadata use.
  The collections \<open>codec_simps\<close> and \<open>codec_inverse\<close> gather the length and the round-trip
  equations, so that the component proofs only name the collection.
\<close>

unbundle bit_operations_syntax

named_theorems codec_simps \<open>lengths of encoded fields\<close>
named_theorems codec_inverse \<open>decoding what was encoded, and back\<close>

type_synonym byte = "8 word"
type_synonym bytes = "byte list"
type_synonym u16 = "16 word"
type_synonym u32 = "32 word"
type_synonym u64 = "64 word"

section \<open>Status codes\<close>

text \<open>
  \<^verbatim>\<open>Status\<close> is a code and a diagnostic message. No code of the engine reads the message
  back, so a \<^verbatim>\<open>Status\<close> is modelled by its code. A fallible pure function returns
  \<open>Inl\<close> of a code or \<open>Inr\<close> of its out-parameter; an operation that changes state returns
  the code beside the new state.
\<close>

datatype status_code =
  kOk | kNotFound | kIOError | kCorruption | kInvalidArgument | kAlreadyExists

type_synonym 'a result = "status_code + 'a"

definition status_ok :: "status_code \<Rightarrow> bool" where
  "status_ok s \<longleftrightarrow> s = kOk"

section \<open>Unsigned 64-bit offsets\<close>

text \<open>
  File offsets and sizes are \<^verbatim>\<open>uint64_t\<close>. They are kept as natural numbers and every sum
  the code forms is reduced by \<open>u64_wrap\<close>.
\<close>

definition u64_wrap :: "nat \<Rightarrow> nat" where
  "u64_wrap n = n mod 2 ^ 64"

lemma u64_wrap_id [simp]: "n < 2 ^ 64 \<Longrightarrow> u64_wrap n = n"
  by (simp add: u64_wrap_def)

lemma u64_wrap_less: "u64_wrap n < 2 ^ 64"
  by (simp add: u64_wrap_def)

section \<open>Little-endian fields\<close>

definition put_u8 :: "byte \<Rightarrow> bytes" where
  "put_u8 v = [v]"

definition put_u16 :: "u16 \<Rightarrow> bytes" where
  "put_u16 v = [ucast (v AND 0xFF), ucast (drop_bit 8 v AND 0xFF)]"

definition put_u32 :: "u32 \<Rightarrow> bytes" where
  "put_u32 v = map (\<lambda>i. ucast (drop_bit (8 * i) v AND 0xFF)) [0, 1, 2, 3]"

definition put_u64 :: "u64 \<Rightarrow> bytes" where
  "put_u64 v = map (\<lambda>i. ucast (drop_bit (8 * i) v AND 0xFF)) [0, 1, 2, 3, 4, 5, 6, 7]"

definition get_u16_le :: "bytes \<Rightarrow> u16" where
  "get_u16_le b = ucast (b ! 0) OR push_bit 8 (ucast (b ! 1))"

definition get_u32_le :: "bytes \<Rightarrow> u32" where
  "get_u32_le b = foldl (\<lambda>v i. v OR push_bit (8 * i) (ucast (b ! i))) 0 [0, 1, 2, 3]"

definition get_u64_le :: "bytes \<Rightarrow> u64" where
  "get_u64_le b = foldl (\<lambda>v i. v OR push_bit (8 * i) (ucast (b ! i))) 0 [0, 1, 2, 3, 4, 5, 6, 7]"

section \<open>Big-endian fields\<close>

definition put_u16_be :: "u16 \<Rightarrow> bytes" where
  "put_u16_be v = [ucast (drop_bit 8 v AND 0xFF), ucast (v AND 0xFF)]"

definition put_u32_be :: "u32 \<Rightarrow> bytes" where
  "put_u32_be v =
     [ucast (drop_bit 24 v AND 0xFF), ucast (drop_bit 16 v AND 0xFF),
      ucast (drop_bit 8 v AND 0xFF), ucast (v AND 0xFF)]"

definition get_u16_be :: "bytes \<Rightarrow> u16" where
  "get_u16_be p = push_bit 8 (ucast (p ! 0)) OR ucast (p ! 1)"

definition get_u32_be :: "bytes \<Rightarrow> u32" where
  "get_u32_be p =
     push_bit 24 (ucast (p ! 0)) OR push_bit 16 (ucast (p ! 1)) OR
     push_bit 8 (ucast (p ! 2)) OR ucast (p ! 3)"

section \<open>Codec laws\<close>

lemma length_put [codec_simps, simp]:
  "length (put_u8 a) = 1" "length (put_u16 b) = 2" "length (put_u32 c) = 4"
  "length (put_u64 d) = 8" "length (put_u16_be b) = 2" "length (put_u32_be c) = 4"
  by (simp_all add: put_u8_def put_u16_def put_u32_def put_u64_def put_u16_be_def put_u32_be_def)

lemma ucast_and_255 [simp]: "(ucast (v AND 255) :: byte) = ucast (v :: 'a::len word)"
proof -
  have "v AND 255 = take_bit 8 v"
    by (simp add: take_bit_eq_mask mask_eq_exp_minus_1)
  then show ?thesis
    by (simp add: unsigned_ucast_eq unsigned_take_bit_eq)
       (rule bit_word_eqI, auto simp: bit_simps)
qed

lemma byte_bit_less: "bit (b :: byte) n \<Longrightarrow> n < 8"
  by (auto dest: bit_imp_le_length)

lemma and_255_take_bit: "v AND 255 = take_bit 8 (v :: 'a::len word)"
  by (simp add: take_bit_eq_mask mask_eq_exp_minus_1)

lemma word_xor_cancel: "a XOR p = b XOR p \<longleftrightarrow> a = (b :: 'a::len word)"
  by (auto simp: bit_eq_iff bit_simps)

lemma word_xor_twice [simp]: "(a XOR p) XOR p = (a :: 'a::len word)"
  by (simp add: xor.assoc)

lemmas put_defs = put_u8_def put_u16_def put_u32_def put_u64_def put_u16_be_def put_u32_be_def
lemmas get_defs = get_u16_le_def get_u32_le_def get_u64_le_def get_u16_be_def get_u32_be_def

text \<open>
  One byte more: the bytes below position \<open>m\<close> and the byte at \<open>m\<close> give the bits below
  \<open>m + 8\<close>. Each reader is a chain of such steps.
\<close>

lemma byte_join:
  "take_bit m v OR push_bit m (take_bit 8 (drop_bit m v)) = take_bit (m + 8) (v :: 'a::len word)"
  by (rule bit_word_eqI) (auto simp: bit_simps)

lemma byte_first: "ucast (ucast v :: byte) = take_bit 8 (v :: 'a::len word)"
  by (rule bit_word_eqI) (auto simp: bit_simps)

lemmas byte_join_numeral = byte_join [of "numeral m" for m]

lemma take_bit_full:
  "take_bit 16 (a :: u16) = a" "take_bit 32 (b :: u32) = b" "take_bit 64 (c :: u64) = c"
  by (rule bit_word_eqI, auto simp: bit_simps)+

lemma get_put_u16 [codec_inverse, simp]: "get_u16_le (put_u16 v) = v"
  by (simp add: get_defs put_defs byte_first byte_join_numeral take_bit_full)

lemma get_put_u32 [codec_inverse, simp]: "get_u32_le (put_u32 v) = v"
  by (simp add: get_defs put_defs byte_first byte_join_numeral take_bit_full)

lemma get_put_u64 [codec_inverse, simp]: "get_u64_le (put_u64 v) = v"
  by (simp add: get_defs put_defs byte_first byte_join_numeral take_bit_full)

lemma put_be_rev: "put_u16_be v = rev (put_u16 v)" "put_u32_be w = rev (put_u32 w)"
  by (simp_all add: put_defs)

lemma get_be_rev:
  "length p = 2 \<Longrightarrow> get_u16_be p = get_u16_le (rev p)"
  "length q = 4 \<Longrightarrow> get_u32_be q = get_u32_le (rev q)"
  by (simp_all add: get_defs rev_nth ac_simps)

lemma get_put_u16_be [codec_inverse, simp]: "get_u16_be (put_u16_be v) = v"
  by (simp add: get_be_rev put_be_rev)

lemma get_put_u32_be [codec_inverse, simp]: "get_u32_be (put_u32_be v) = v"
  by (simp add: get_be_rev put_be_rev)

text \<open>
  The converse needs no bit reasoning: an injection of the \<open>n\<close>-byte words into the byte
  strings of length \<open>n\<close> is onto, because both sets have the same number of elements.
\<close>

lemma put_get_by_card:
  fixes put :: "'a::len word \<Rightarrow> bytes" and get :: "bytes \<Rightarrow> 'a word"
  assumes inv: "\<And>v. get (put v) = v" and len: "\<And>v. length (put v) = n"
    and width: "LENGTH('a) = 8 * n" and bs: "length bs = n"
  shows "put (get bs) = bs"
proof -
  have "inj put"
    using inv by (metis injI)
  then have "card (range put) = 2 ^ (8 * n)"
    using width by (simp add: card_image card_word)
  moreover have "card {xs :: bytes. length xs = n} = 2 ^ (8 * n)"
    using card_lists_length_eq [of "UNIV :: byte set" n] by (simp add: card_word power_mult)
  moreover have "finite {xs :: bytes. length xs = n}"
    using finite_lists_length_eq [of "UNIV :: byte set" n] by simp
  moreover have "range put \<subseteq> {xs. length xs = n}"
    using len by auto
  ultimately have "range put = {xs. length xs = n}"
    by (metis card_subset_eq)
  then obtain v where "bs = put v"
    using bs by auto
  then show ?thesis by (simp add: inv)
qed

lemma put_get_u16 [codec_inverse]: "length bs = 2 \<Longrightarrow> put_u16 (get_u16_le bs) = bs"
  by (rule put_get_by_card) simp_all

lemma put_get_u32 [codec_inverse]: "length bs = 4 \<Longrightarrow> put_u32 (get_u32_le bs) = bs"
  by (rule put_get_by_card) simp_all

lemma put_get_u64 [codec_inverse]: "length bs = 8 \<Longrightarrow> put_u64 (get_u64_le bs) = bs"
  by (rule put_get_by_card) simp_all

lemma put_get_u16_be [codec_inverse]: "length bs = 2 \<Longrightarrow> put_u16_be (get_u16_be bs) = bs"
  by (rule put_get_by_card) simp_all

lemma put_get_u32_be [codec_inverse]: "length bs = 4 \<Longrightarrow> put_u32_be (get_u32_be bs) = bs"
  by (rule put_get_by_card) simp_all

lemma get_append [simp]:
  "length xs = 2 \<Longrightarrow> get_u16_le (xs @ ys) = get_u16_le xs"
  "length xs = 4 \<Longrightarrow> get_u32_le (xs @ ys) = get_u32_le xs"
  "length xs = 8 \<Longrightarrow> get_u64_le (xs @ ys) = get_u64_le xs"
  "length xs = 2 \<Longrightarrow> get_u16_be (xs @ ys) = get_u16_be xs"
  "length xs = 4 \<Longrightarrow> get_u32_be (xs @ ys) = get_u32_be xs"
  by (simp_all add: get_defs nth_append)

lemma unat_of_nat_u16 [simp]: "n < 65536 \<Longrightarrow> unat (of_nat n :: u16) = n"
  by (simp add: unsigned_of_nat take_bit_nat_eq_self)

lemma unat_of_nat_u32 [simp]: "n < 4294967296 \<Longrightarrow> unat (of_nat n :: u32) = n"
  by (simp add: unsigned_of_nat take_bit_nat_eq_self)

lemma unat_of_nat_u64 [simp]: "n < 18446744073709551616 \<Longrightarrow> unat (of_nat n :: u64) = n"
  by (simp add: unsigned_of_nat take_bit_nat_eq_self)

end
