(* ===== verification/Common_Types.thy ===== *)
theory Common_Types
  imports Lumina_Prelude
begin

text \<open>
  \<^verbatim>\<open>include/lumina/common/types.h\<close>: statuses with their messages and the string view \<^verbatim>\<open>Slice\<close>.
  The other theories use the code of a status only. A slice compares like \<^verbatim>\<open>std::string_view\<close>,
  byte by byte and unsigned; it is made an instance of \<open>linorder\<close>, so that the library's
  ordered structures apply to it.
\<close>

section \<open>Statuses\<close>

record status =
  st_code :: status_code
  st_msg :: bytes

definition status_OK :: status where
  "status_OK = \<lparr>st_code = kOk, st_msg = []\<rparr>"

definition status_NotFound :: "bytes \<Rightarrow> status" where
  "status_NotFound msg = \<lparr>st_code = kNotFound, st_msg = msg\<rparr>"

definition status_IOError :: "bytes \<Rightarrow> status" where
  "status_IOError msg = \<lparr>st_code = kIOError, st_msg = msg\<rparr>"

definition status_Corruption :: "bytes \<Rightarrow> status" where
  "status_Corruption msg = \<lparr>st_code = kCorruption, st_msg = msg\<rparr>"

definition status_InvalidArgument :: "bytes \<Rightarrow> status" where
  "status_InvalidArgument msg = \<lparr>st_code = kInvalidArgument, st_msg = msg\<rparr>"

definition status_to_string :: "status \<Rightarrow> bytes" where
  "status_to_string s =
     (case st_code s of
        kOk \<Rightarrow> map of_char ''OK''
      | kNotFound \<Rightarrow> map of_char ''NotFound: '' @ st_msg s
      | kIOError \<Rightarrow> map of_char ''IOError: '' @ st_msg s
      | kCorruption \<Rightarrow> map of_char ''Corruption: '' @ st_msg s
      | kInvalidArgument \<Rightarrow> map of_char ''InvalidArgument: '' @ st_msg s
      | kAlreadyExists \<Rightarrow> map of_char ''AlreadyExists: '' @ st_msg s)"

text \<open>
  the text of a status determines it: two statuses print alike exactly if they have the same
  code and, unless they are both OK, the same message.
\<close>

theorem status_to_string_eq_iff:
  "status_to_string s = status_to_string t \<longleftrightarrow> st_code s = st_code t \<and> (st_code s = kOk \<or> st_msg s = st_msg t)"
  by (cases "st_code s"; cases "st_code t") (auto simp: status_to_string_def)

section \<open>Slices\<close>

datatype slice = Slice (slice_view: bytes)

definition slice_data_size :: "slice \<Rightarrow> nat" where
  "slice_data_size s = length (slice_view s)"

definition slice_empty :: "slice \<Rightarrow> bool" where
  "slice_empty s \<longleftrightarrow> slice_view s = []"

text \<open>A slice of a C string ends at its first zero byte.\<close>

definition slice_of_c_str :: "bytes \<Rightarrow> slice" where
  "slice_of_c_str buf = Slice (takeWhile (\<lambda>c. c \<noteq> 0) buf)"

definition slice_eq :: "slice \<Rightarrow> slice \<Rightarrow> bool" where
  "slice_eq a b \<longleftrightarrow> slice_view a = slice_view b"

fun view_less :: "bytes \<Rightarrow> bytes \<Rightarrow> bool" where
  "view_less a [] \<longleftrightarrow> False"
| "view_less [] (y # b) \<longleftrightarrow> True"
| "view_less (x # a) (y # b) \<longleftrightarrow> x < y \<or> x = y \<and> view_less a b"

lemma view_less_irrefl: "\<not> view_less a a"
  by (induction a) auto

lemma view_less_trans: "view_less a b \<Longrightarrow> view_less b c \<Longrightarrow> view_less a c"
proof (induction a b arbitrary: c rule: view_less.induct)
  case (2 y b)
  then show ?case by (cases c) auto
next
  case (3 x a y b)
  then show ?case by (cases c) auto
qed simp

lemma view_less_linear: "view_less a b \<or> a = b \<or> view_less b a"
proof (induction a b rule: view_less.induct)
  case (1 a)
  then show ?case by (cases a) auto
qed auto

instantiation slice :: linorder
begin

definition less_slice :: "slice \<Rightarrow> slice \<Rightarrow> bool" where
  "less_slice a b \<longleftrightarrow> view_less (slice_view a) (slice_view b)"

definition less_eq_slice :: "slice \<Rightarrow> slice \<Rightarrow> bool" where
  "less_eq_slice a b \<longleftrightarrow> a = b \<or> view_less (slice_view a) (slice_view b)"

instance
proof
  fix a b c :: slice
  show "a < b \<longleftrightarrow> a \<le> b \<and> \<not> b \<le> a"
    using view_less_irrefl view_less_trans by (auto simp: less_slice_def less_eq_slice_def)
  show "a \<le> a" by (simp add: less_eq_slice_def)
  show "a \<le> b \<Longrightarrow> b \<le> c \<Longrightarrow> a \<le> c"
    using view_less_trans by (auto simp: less_eq_slice_def)
  show "a \<le> b \<Longrightarrow> b \<le> a \<Longrightarrow> a = b"
    using view_less_irrefl view_less_trans by (auto simp: less_eq_slice_def)
  show "a \<le> b \<or> b \<le> a"
    using view_less_linear [of "slice_view a" "slice_view b"] by (cases a; cases b) (auto simp: less_eq_slice_def)
qed

end

lemma slice_eq_iff: "slice_eq a b \<longleftrightarrow> a = b"
  by (cases a; cases b) (simp add: slice_eq_def)

end
