(* ===== verification/Crc32.thy ===== *)
theory Crc32
  imports Lumina_Prelude
begin

text \<open>
  The table-driven CRC32 of \<^verbatim>\<open>include/lumina/common/crc32.h\<close>. The table look-up is shown
  equal to eight steps of the bit-serial shift register, the two-buffer variant equal to the
  CRC of the concatenation, and, because the register step is linear and invertible, any
  change confined to at most four consecutive bytes is shown to change the checksum.
\<close>

section \<open>The code\<close>

definition kCrcPoly :: u32 where
  "kCrcPoly = 0xEDB88320"

definition crc_bit :: "u32 \<Rightarrow> u32" where
  "crc_bit c = drop_bit 1 c XOR (kCrcPoly AND NOT ((c AND 1) - 1))"

definition make_crc_entry :: "u32 \<Rightarrow> u32" where
  "make_crc_entry i = (crc_bit ^^ 8) i"

definition crc_table :: "u32 list" where
  "crc_table = map (\<lambda>i. make_crc_entry (of_nat i)) [0..<256]"

definition crc_step :: "u32 \<Rightarrow> byte \<Rightarrow> u32" where
  "crc_step crc b = drop_bit 8 crc XOR crc_table ! unat ((crc XOR ucast b) AND 0xFF)"

definition crc32 :: "bytes \<Rightarrow> u32 \<Rightarrow> u32" where
  "crc32 data init = foldl crc_step init data XOR 0xFFFFFFFF"

abbreviation crc32_std :: "bytes \<Rightarrow> u32" where
  "crc32_std data \<equiv> crc32 data 0xFFFFFFFF"

definition crc32_combine :: "bytes \<Rightarrow> bytes \<Rightarrow> u32" where
  "crc32_combine a b = (let mid = crc32_std a XOR 0xFFFFFFFF in crc32 b mid)"

section \<open>The register step\<close>

lemma crc_bit_if: "crc_bit c = drop_bit 1 c XOR (if odd c then kCrcPoly else 0)"
proof -
  have "c AND 1 = of_bool (odd c)"
    by (simp add: and_one_eq mod_2_eq_odd)
  then show ?thesis by (simp add: crc_bit_def)
qed

lemma crc_bit_xor: "crc_bit (a XOR b) = crc_bit a XOR crc_bit b"
  by (auto simp: crc_bit_if drop_bit_xor even_xor_iff ac_simps)

lemma crc_bits_xor: "(crc_bit ^^ n) (a XOR b) = (crc_bit ^^ n) a XOR (crc_bit ^^ n) b"
  by (induction n) (simp_all add: crc_bit_xor)

text \<open>A word whose low bits are zero is only shifted.\<close>

lemma crc_bits_shift: "\<forall>i<n. \<not> bit c i \<Longrightarrow> (crc_bit ^^ n) c = drop_bit n c"
proof (induction n)
  case 0
  then show ?case by simp
next
  case (Suc n)
  then have "(crc_bit ^^ n) c = drop_bit n c" "\<not> bit c n" by auto
  then show ?case
    by (simp add: crc_bit_if [of "drop_bit n c"] even_drop_bit_iff_not_bit)
qed

text \<open>The top bit of the polynomial is set, so the bit shifted out can be read back.\<close>

lemma crc_bit_top: "bit (crc_bit c) 31 = odd c"
  by (auto simp: crc_bit_if bit_simps kCrcPoly_def dest: bit_imp_le_length)

lemma crc_bit_inj: "crc_bit a = crc_bit b \<Longrightarrow> a = b"
proof -
  assume eq: "crc_bit a = crc_bit b"
  then have parity: "odd a = odd b" using crc_bit_top [of a] crc_bit_top [of b] by simp
  with eq have half: "drop_bit 1 a = drop_bit 1 b"
    by (simp add: crc_bit_if word_xor_cancel)
  have "bit a n = bit b n" for n
  proof (cases n)
    case 0
    then show ?thesis using parity by (simp add: bit_0)
  next
    case (Suc k)
    have "bit (drop_bit 1 a) k = bit (drop_bit 1 b) k" using half by simp
    then show ?thesis by (simp add: Suc bit_drop_bit_eq)
  qed
  then show "a = b" by (simp add: bit_eq_iff)
qed

lemma crc_bits_inj: "(crc_bit ^^ n) a = (crc_bit ^^ n) b \<Longrightarrow> a = b"
  by (induction n) (auto dest: crc_bit_inj)

section \<open>The table is eight register steps\<close>

lemma crc_table_nth: "crc_table ! unat (i AND 0xFF) = make_crc_entry (i AND 0xFF)"
proof -
  have "unat (take_bit 8 i) < 2 ^ 8"
    by (simp only: unsigned_take_bit_eq take_bit_nat_less_exp)
  then have "unat (i AND 0xFF) < 256"
    by (simp only: and_255_take_bit) simp
  then show ?thesis by (simp add: crc_table_def)
qed

lemma crc_step_code [code]:
  "crc_step crc b = drop_bit 8 crc XOR make_crc_entry ((crc XOR ucast b) AND 0xFF)"
  by (simp add: crc_step_def crc_table_nth)

text \<open>The bit-serial register, fed one byte at a time: the reference the table optimises.\<close>

definition crc_step_ref :: "u32 \<Rightarrow> byte \<Rightarrow> u32" where
  "crc_step_ref crc b = (crc_bit ^^ 8) (crc XOR ucast b)"

lemma crc_step_eq_ref: "crc_step crc b = crc_step_ref crc b"
proof -
  let ?x = "crc XOR ucast b" and ?hi = "crc AND NOT 0xFF"
  have split: "?x = (?x AND 0xFF) XOR ?hi" and high: "\<forall>i<8. \<not> bit ?hi i"
    and drop: "drop_bit 8 ?hi = drop_bit 8 crc"
  proof -
    have mask: "(0xFF :: u32) = mask 8" by (simp add: mask_eq_exp_minus_1)
    show "?x = (?x AND 0xFF) XOR ?hi"
      unfolding mask by (rule bit_word_eqI) (auto simp: bit_simps dest: byte_bit_less)
    show "\<forall>i<8. \<not> bit ?hi i"
      unfolding mask by (auto simp: bit_simps)
    show "drop_bit 8 ?hi = drop_bit 8 crc"
      unfolding mask by (rule bit_word_eqI) (auto simp: bit_simps dest: bit_imp_le_length)
  qed
  have "(crc_bit ^^ 8) ?x = make_crc_entry (?x AND 0xFF) XOR drop_bit 8 crc"
    by (subst split) (simp only: crc_bits_xor make_crc_entry_def crc_bits_shift [OF high] drop)
  then show ?thesis
    by (simp add: crc_step_code crc_step_ref_def xor.commute)
qed

text \<open>
  the table-driven loop of \<open>crc32\<close> computes the checksum of the bit-serial shift
  register, for every buffer and every initial value.
\<close>

theorem crc32_table_eq_register:
  "crc32 data init = foldl crc_step_ref init data XOR 0xFFFFFFFF"
proof -
  have "crc_step = crc_step_ref" by (intro ext crc_step_eq_ref)
  then show ?thesis by (simp add: crc32_def)
qed

section \<open>Running state\<close>

text \<open>
  \<open>crc32_combine\<close> of two buffers is the checksum of their concatenation, so a frame
  can be checked without copying its header and payload into one buffer.
\<close>

theorem crc32_combine_append: "crc32_combine a b = crc32_std (a @ b)"
  by (simp add: crc32_combine_def crc32_def)

section \<open>Error detection\<close>

text \<open>
  Up to four bytes fit into the register at once: feeding them is one exclusive-or with the
  packed bytes and then eight register steps per byte.
\<close>

fun crc_pack :: "bytes \<Rightarrow> u32" where
  "crc_pack [] = 0"
| "crc_pack (b # bs) = ucast b XOR push_bit 8 (crc_pack bs)"

lemma crc_pack_bits: "bit (crc_pack bs) i \<Longrightarrow> i < 8 * length bs"
proof (induction bs arbitrary: i)
  case Nil
  then show ?case by simp
next
  case (Cons b bs)
  then show ?case
    by (cases "i < 8") (auto simp: bit_simps dest: byte_bit_less, force)
qed

lemma crc_pack_unfold_shift:
  assumes "length bs \<le> 3"
  shows "(crc_bit ^^ 8) (push_bit 8 (crc_pack bs)) = crc_pack bs"
proof -
  have "(crc_bit ^^ 8) (push_bit 8 (crc_pack bs)) = drop_bit 8 (push_bit 8 (crc_pack bs))"
    by (rule crc_bits_shift) (simp add: bit_simps)
  also have "\<dots> = crc_pack bs"
    using assms by (intro bit_word_eqI) (auto simp: bit_simps dest: crc_pack_bits)
  finally show ?thesis .
qed

lemma crc_steps_pack:
  "length bs \<le> 4 \<Longrightarrow> foldl crc_step c bs = (crc_bit ^^ (8 * length bs)) (c XOR crc_pack bs)"
proof (induction bs arbitrary: c)
  case Nil
  then show ?case by simp
next
  case (Cons b bs)
  let ?n = "8 * length bs"
  have "foldl crc_step c (b # bs) = (crc_bit ^^ ?n) ((crc_bit ^^ 8) (c XOR ucast b) XOR crc_pack bs)"
    using Cons by (simp add: crc_step_eq_ref [of c b] crc_step_ref_def)
  also have "\<dots> = (crc_bit ^^ ?n) ((crc_bit ^^ 8) (c XOR crc_pack (b # bs)))"
    using Cons.prems crc_pack_unfold_shift [of bs]
    by (simp add: crc_bits_xor xor.assoc [symmetric] flip: crc_pack.simps(2))
       (simp add: crc_bits_xor xor.assoc)
  also have "\<dots> = (crc_bit ^^ (8 * length (b # bs))) (c XOR crc_pack (b # bs))"
    by (simp only: funpow_add [symmetric] comp_apply length_Cons)
       (simp add: funpow_add [THEN fun_cong, symmetric, unfolded comp_apply] add.commute)
  finally show ?case .
qed

lemma crc_pack_inj:
  "length bs = length cs \<Longrightarrow> length bs \<le> 4 \<Longrightarrow> crc_pack bs = crc_pack cs \<Longrightarrow> bs = cs"
proof (induction bs cs rule: list_induct2)
  case Nil
  then show ?case by simp
next
  case (Cons b bs c cs)
  have bits: "bit (ucast b XOR push_bit 8 (crc_pack bs) :: u32) i =
      bit (ucast c XOR push_bit 8 (crc_pack cs) :: u32) i" for i
    using Cons.prems by simp
  have "bit b i = bit c i" for i
    using bits [of i] by (cases "i < 8") (auto simp: bit_simps dest: byte_bit_less)
  then have head: "b = c" by (simp add: bit_eq_iff)
  have "bit (crc_pack bs) i = bit (crc_pack cs) i" for i
  proof (cases "i < 24")
    case True
    then show ?thesis using bits [of "i + 8"] by (auto simp: bit_simps dest: byte_bit_less)
  next
    case False
    then show ?thesis
      using Cons.prems Cons.hyps by (auto dest!: crc_pack_bits)
  qed
  then have "crc_pack bs = crc_pack cs" by (simp add: bit_eq_iff)
  with head Cons show ?case by simp
qed

lemma foldl_crc_step_inj: "foldl crc_step a bs = foldl crc_step b bs \<Longrightarrow> a = b"
proof (induction bs arbitrary: a b)
  case Nil
  then show ?case by simp
next
  case (Cons x bs)
  from Cons.prems have "crc_step a x = crc_step b x"
    by (auto dest: Cons.IH)
  then have "a XOR ucast x = b XOR ucast x"
    unfolding crc_step_eq_ref crc_step_ref_def by (rule crc_bits_inj)
  then show ?case by (simp add: word_xor_cancel)
qed

lemma crc32_burst_neq:
  assumes "length w = length w'" and "length w \<le> 4" and "w \<noteq> w'"
  shows "crc32 (pre @ w @ post) init \<noteq> crc32 (pre @ w' @ post) init"
proof
  let ?c = "foldl crc_step init pre"
  assume "crc32 (pre @ w @ post) init = crc32 (pre @ w' @ post) init"
  then have "foldl crc_step ?c w = foldl crc_step ?c w'"
    by (simp add: crc32_def word_xor_cancel foldl_crc_step_inj)
  then have "crc_pack w = crc_pack w'"
    using assms by (simp add: crc_steps_pack) (metis crc_bits_inj word_xor_cancel xor.commute)
  with assms show False by (blast dest: crc_pack_inj)
qed

text \<open>
  burst detection. Two buffers that differ only inside one window of at most four
  consecutive bytes (32 bits) never have the same CRC32, whatever surrounds the window.
\<close>

theorem crc32_detects_burst:
  assumes "length w = length w'" and "length w \<le> 4" and "w \<noteq> w'"
  shows "crc32 (pre @ w @ post) init \<noteq> crc32 (pre @ w' @ post) init"
  using assms by (rule crc32_burst_neq)

theorem crc32_detects_burst_witness:
  "crc32 ([1, 2] @ [3, 4] @ [5]) 0xFFFFFFFF \<noteq> crc32 ([1, 2] @ [9, 4] @ [5]) 0xFFFFFFFF"
  by (rule crc32_detects_burst) simp_all

end
