(* ===== verification/Wal_Frame.thy ===== *)
theory Wal_Frame
  imports Crc32
begin

text \<open>
  The frame format of the write-ahead log: the helpers of \<^verbatim>\<open>namespace detail\<close> in
  \<^verbatim>\<open>src/storage/log_manager.cpp\<close>, for the current big-endian format (suffix \<open>_v1\<close>) and
  the legacy little-endian one (suffix \<open>_v0\<close>). \<open>encode_frame\<close> names the bytes an append
  writes; the lemmas say how the readers take such a frame apart again, and that a frame
  with a damaged body fails its checksum.
\<close>

section \<open>Constants and operation codes\<close>

definition kFrameHeaderSize :: nat where "kFrameHeaderSize = 1 + 4 + 4"
definition kFileHeaderSize :: nat where "kFileHeaderSize = 8"
definition kMaxPayloadBytes :: u32 where "kMaxPayloadBytes = 256 * 1024 * 1024"
definition kWalMagic :: bytes where "kWalMagic = [0x4C, 0x4D, 0x53, 0x54]"
definition kWalFormatVersion :: u16 where "kWalFormatVersion = 1"

lemma wal_sizes [simp]: "kFrameHeaderSize = 9" "kFileHeaderSize = 8"
  by (simp_all add: kFrameHeaderSize_def kFileHeaderSize_def)

datatype op_type = OpPut | OpDelete | OpVectorPut | OpVectorPutV2

fun op_raw :: "op_type \<Rightarrow> byte" where
  "op_raw OpPut = 1"
| "op_raw OpDelete = 2"
| "op_raw OpVectorPut = 3"
| "op_raw OpVectorPutV2 = 4"

definition is_valid_op :: "byte \<Rightarrow> bool" where
  "is_valid_op op \<longleftrightarrow> op = op_raw OpPut \<or> op = op_raw OpDelete \<or>
     op = op_raw OpVectorPut \<or> op = op_raw OpVectorPutV2"

text \<open>\<open>static_cast<OpType>\<close> of a byte that passed \<open>is_valid_op\<close>.\<close>

definition op_of_raw :: "byte \<Rightarrow> op_type" where
  "op_of_raw b = (if b = 1 then OpPut else if b = 2 then OpDelete
     else if b = 3 then OpVectorPut else OpVectorPutV2)"

record wal_entry =
  we_op :: op_type
  we_key :: bytes
  we_value :: bytes
  we_offset :: nat

section \<open>Checksums\<close>

definition crc_frame_v0 :: "byte \<Rightarrow> u32 \<Rightarrow> bytes \<Rightarrow> u32" where
  "crc_frame_v0 op plen payload = crc32_std ([op] @ put_u32 plen @ payload)"

definition crc_frame_v1 :: "byte \<Rightarrow> u32 \<Rightarrow> bytes \<Rightarrow> u32" where
  "crc_frame_v1 op plen payload = crc32_std ([op] @ put_u32_be plen @ payload)"

definition magic_is_v2 :: "bytes \<Rightarrow> bool" where
  "magic_is_v2 p \<longleftrightarrow> p ! 0 = kWalMagic ! 0 \<and> p ! 1 = kWalMagic ! 1 \<and>
     p ! 2 = kWalMagic ! 2 \<and> p ! 3 = kWalMagic ! 3"

section \<open>Key and value\<close>

definition decode_key_value_v1 :: "bytes \<Rightarrow> (bytes \<times> bytes) option" where
  "decode_key_value_v1 p =
     (if length p < 2 then None
      else let klen = unat (get_u16_be p)
           in if 2 + klen > length p then None
              else Some (take klen (drop 2 p), drop (2 + klen) p))"

definition decode_key_value_v0 :: "bytes \<Rightarrow> (bytes \<times> bytes) option" where
  "decode_key_value_v0 p =
     (if length p < 2 then None
      else let klen = unat (get_u16_le p)
           in if 2 + klen > length p then None
              else Some (take klen (drop 2 p), drop (2 + klen) p))"

text \<open>
  The legacy builder computes the size of the buffer in 32 bits, then copies key and value
  whole. \<open>payload_v0_overruns\<close> says that the copy runs past the end of the buffer; the model
  keeps the bytes that fall inside it.
\<close>

definition payload_v0_size :: "bytes \<Rightarrow> bytes \<Rightarrow> u32" where
  "payload_v0_size key value = of_nat (2 + length key + length value)"

definition build_payload_v0 :: "bytes \<Rightarrow> bytes \<Rightarrow> bytes result" where
  "build_payload_v0 key value =
     (let n = payload_v0_size key value
      in if u64_wrap (2 + length key + length value) < length key \<or> n > kMaxPayloadBytes
         then Inl kInvalidArgument
         else if length key > 0xFFFF then Inl kInvalidArgument
         else Inr (take (unat n) (put_u16 (of_nat (length key)) @ key @ value)))"

definition payload_v0_overruns :: "bytes \<Rightarrow> bytes \<Rightarrow> bool" where
  "payload_v0_overruns key value \<longleftrightarrow>
     (\<exists>p. build_payload_v0 key value = Inr p \<and> length p < 2 + length key + length value)"

definition build_payload_v1 :: "bytes \<Rightarrow> bytes \<Rightarrow> bytes result" where
  "build_payload_v1 key value =
     (if u64_wrap (2 + length key + length value) < length key then Inl kInvalidArgument
      else if length key > 0xFFFF then Inl kInvalidArgument
      else let total = u64_wrap (2 + length key + length value)
           in if total > unat kMaxPayloadBytes then Inl kInvalidArgument
              else Inr (put_u16_be (of_nat (length key)) @ key @ value))"

section \<open>Frames\<close>

text \<open>The nine bytes of a frame header, as the append fills them in.\<close>

definition frame_header :: "bool \<Rightarrow> byte \<Rightarrow> u32 \<Rightarrow> u32 \<Rightarrow> bytes" where
  "frame_header legacy op crc plen =
     (if legacy then [op] @ put_u32 crc @ put_u32 plen
      else [op] @ put_u32_be crc @ put_u32_be plen)"

definition frame_crc :: "bool \<Rightarrow> byte \<Rightarrow> u32 \<Rightarrow> bytes \<Rightarrow> u32" where
  "frame_crc legacy op plen payload =
     (if legacy then crc_frame_v0 op plen payload else crc_frame_v1 op plen payload)"

definition build_payload :: "bool \<Rightarrow> bytes \<Rightarrow> bytes \<Rightarrow> bytes result" where
  "build_payload legacy key value =
     (if legacy then build_payload_v0 key value else build_payload_v1 key value)"

definition decode_key_value :: "bool \<Rightarrow> bytes \<Rightarrow> (bytes \<times> bytes) option" where
  "decode_key_value legacy p = (if legacy then decode_key_value_v0 p else decode_key_value_v1 p)"

text \<open>The fields read back from nine header bytes: operation, checksum, length.\<close>

definition hdr_op :: "bytes \<Rightarrow> byte" where
  "hdr_op fhdr = fhdr ! 0"

definition hdr_crc :: "bool \<Rightarrow> bytes \<Rightarrow> u32" where
  "hdr_crc legacy fhdr = (if legacy then get_u32_le (drop 1 fhdr) else get_u32_be (drop 1 fhdr))"

definition hdr_len :: "bool \<Rightarrow> bytes \<Rightarrow> u32" where
  "hdr_len legacy fhdr = (if legacy then get_u32_le (drop 5 fhdr) else get_u32_be (drop 5 fhdr))"

section \<open>The bytes of one record\<close>

type_synonym record_kv = "op_type \<times> bytes \<times> bytes"

definition fits :: "bytes \<Rightarrow> bytes \<Rightarrow> bool" where
  "fits key value \<longleftrightarrow> length key \<le> 0xFFFF \<and> 2 + length key + length value \<le> 256 * 1024 * 1024"

definition payload_bytes :: "bool \<Rightarrow> bytes \<Rightarrow> bytes \<Rightarrow> bytes" where
  "payload_bytes legacy key value =
     (if legacy then put_u16 (of_nat (length key)) else put_u16_be (of_nat (length key))) @ key @ value"

definition encode_frame :: "bool \<Rightarrow> record_kv \<Rightarrow> bytes" where
  "encode_frame legacy r =
     (case r of (op, key, value) \<Rightarrow>
        let p = payload_bytes legacy key value; plen = of_nat (length p)
        in frame_header legacy (op_raw op) (frame_crc legacy (op_raw op) plen p) plen @ p)"

lemma length_payload_bytes: "length (payload_bytes legacy key value) = 2 + length key + length value"
  by (simp add: payload_bytes_def)

text \<open>The length field of a record, kept folded so that its value is one fact.\<close>

definition plen_of :: "bytes \<Rightarrow> bytes \<Rightarrow> u32" where
  "plen_of key value = of_nat (2 + length key + length value)"

lemma plen_payload [simp]: "of_nat (length (payload_bytes legacy key value)) = plen_of key value"
  by (simp only: plen_of_def length_payload_bytes)

lemma unat_plen_of: "2 + length key + length value < 2 ^ 32 \<Longrightarrow>
    unat (plen_of key value) = 2 + length key + length value"
  unfolding plen_of_def by (rule unat_of_nat_u32) simp

lemma plen_of_fits:
  assumes "fits key value"
  shows "unat (plen_of key value) = 2 + length key + length value"
    and "\<not> kMaxPayloadBytes < plen_of key value"
proof -
  show len: "unat (plen_of key value) = 2 + length key + length value"
    using assms by (intro unat_plen_of) (simp add: fits_def)
  show "\<not> kMaxPayloadBytes < plen_of key value"
    unfolding word_less_nat_alt len using assms by (simp add: fits_def kMaxPayloadBytes_def)
qed

lemma length_frame_header [simp]: "length (frame_header legacy op crc plen) = 9"
  by (simp add: frame_header_def)

lemma length_encode_frame [simp]:
  "length (encode_frame legacy (op, key, value)) = 11 + length key + length value"
  by (simp add: encode_frame_def Let_def length_payload_bytes)

lemma hdr_frame_header [simp]:
  "hdr_op (frame_header legacy op crc plen) = op"
  "hdr_crc legacy (frame_header legacy op crc plen) = crc"
  "hdr_len legacy (frame_header legacy op crc plen) = plen"
  by (simp_all add: frame_header_def hdr_op_def hdr_crc_def hdr_len_def drop_Cons' numeral_eq_Suc)

lemma is_valid_op_raw [simp]: "is_valid_op (op_raw op)"
  by (cases op) (simp_all add: is_valid_op_def)

lemma op_of_raw_raw [simp]: "op_of_raw (op_raw op) = op"
  by (cases op) (simp_all add: op_of_raw_def)

lemma payload_v0_size_eq: "payload_v0_size key value = plen_of key value"
  by (simp add: payload_v0_size_def plen_of_def)

lemma build_payload_fits:
  assumes "fits key value"
  shows "build_payload legacy key value = Inr (payload_bytes legacy key value)"
proof -
  note len = plen_of_fits [OF assms]
  have wrap: "u64_wrap (2 + length key + length value) = 2 + length key + length value"
    using assms by (simp add: fits_def)
  show ?thesis
    using assms len
    by (simp add: build_payload_def build_payload_v0_def build_payload_v1_def Let_def wrap
        payload_v0_size_eq payload_bytes_def fits_def kMaxPayloadBytes_def)
qed

lemma decode_key_value_payload [simp]:
  "length key \<le> 0xFFFF \<Longrightarrow> decode_key_value legacy (payload_bytes legacy key value) = Some (key, value)"
  by (simp add: decode_key_value_def decode_key_value_v0_def decode_key_value_v1_def payload_bytes_def
      Let_def)

end
