(* ===== verification/Posix_Io.thy ===== *)
theory Posix_Io
  imports Lumina_Prelude
begin

text \<open>
  The operating system as the storage code sees it. System calls are not part of the
  sources: what each call does is a field of the environment \<open>sysenv\<close>, an argument of every
  operation that performs I/O. A transfer loop (\<open>write_all\<close>, \<open>pread_all\<close>, the loops of the
  snapshot and manifest writers) is the code's loop, run over the outcomes the environment
  gives to its successive calls: a transfer of some bytes, an interruption (\<open>EINTR\<close>), or
  another error. The list of outcomes is finite; the call after the last one transfers
  everything, which is what "not interrupted for ever" means.

  \<open>sys_lseek_set\<close> and \<open>sys_lseek\<close> are the seeks to the start and to the end of a file, \<open>sys_open\<close> is the
  call \<open>open\<close>, and \<open>sys_stream\<close> says whether an \<open>ifstream\<close> can be opened on a file that exists.

  \<open>benign\<close> is the hypothesis "no call fails": transfers may still be short and interrupted.
\<close>

section \<open>Environment\<close>

datatype io_out = Xfer nat | Eintr | IoFail

record sysenv =
  sys_write :: "nat \<Rightarrow> nat \<Rightarrow> io_out list"
  sys_pread :: "nat \<Rightarrow> nat \<Rightarrow> io_out list"
  sys_lseek_set :: bool
  sys_lseek :: bool
  sys_ftruncate :: "nat \<Rightarrow> bool"
  sys_fsync :: bool
  sys_open :: bool
  sys_stream :: bool
  sys_mkdir :: bool
  sys_rename :: bool
  sys_time :: nat

definition benign_outs :: "io_out list \<Rightarrow> bool" where
  "benign_outs outs \<longleftrightarrow> IoFail \<notin> set outs \<and> Xfer 0 \<notin> set outs"

definition benign :: "sysenv \<Rightarrow> bool" where
  "benign E \<longleftrightarrow>
     (\<forall>off len. benign_outs (sys_write E off len)) \<and>
     (\<forall>off len. benign_outs (sys_pread E off len)) \<and>
     sys_lseek_set E \<and> sys_lseek E \<and> (\<forall>n. sys_ftruncate E n) \<and> sys_fsync E \<and> sys_open E \<and> sys_stream E \<and>
     sys_mkdir E \<and> sys_rename E"

definition calm_env :: sysenv where
  "calm_env = \<lparr>sys_write = (\<lambda>_ _. []), sys_pread = (\<lambda>_ _. []), sys_lseek_set = True, sys_lseek = True,
     sys_ftruncate = (\<lambda>_. True), sys_fsync = True, sys_open = True, sys_stream = True, sys_mkdir = True,
     sys_rename = True, sys_time = 0\<rparr>"

text \<open>An environment in which every call is interrupted once and then moves one byte.\<close>

definition choppy_env :: sysenv where
  "choppy_env = calm_env\<lparr>sys_write := (\<lambda>_ _. [Eintr, Xfer 1]), sys_pread := (\<lambda>_ _. [Eintr, Xfer 1])\<rparr>"

lemma benign_calm [simp]: "benign calm_env"
  by (simp add: benign_def calm_env_def benign_outs_def)

lemma benign_choppy: "benign choppy_env"
  by (simp add: benign_def choppy_env_def calm_env_def benign_outs_def)

section \<open>Open files\<close>

text \<open>The file behind a descriptor: its contents and the file position.\<close>

record ofile =
  f_data :: bytes
  f_pos :: nat

definition write_at :: "bytes \<Rightarrow> nat \<Rightarrow> bytes \<Rightarrow> bytes" where
  "write_at data pos w =
     take pos data @ replicate (pos - length data) 0 @ w @ drop (pos + length w) data"

section \<open>Transfer loops\<close>

text \<open>The bytes a write loop got out, and whether it got all of them out.\<close>

fun write_loop :: "io_out list \<Rightarrow> bytes \<Rightarrow> bool \<times> bytes" where
  "write_loop [] p = (True, p)"
| "write_loop (out # outs) p =
     (if p = [] then (True, [])
      else case out of
        Eintr \<Rightarrow> write_loop outs p
      | IoFail \<Rightarrow> (False, [])
      | Xfer n \<Rightarrow>
          if n = 0 then (False, [])
          else let m = min n (length p); (ok, w) = write_loop outs (drop m p)
               in (ok, take m p @ w))"

definition write_all :: "sysenv \<Rightarrow> bytes \<Rightarrow> ofile \<Rightarrow> bool \<times> ofile" where
  "write_all E buf f =
     (let (ok, w) = write_loop (sys_write E (f_pos f) (length buf)) buf
      in (ok, f\<lparr>f_data := write_at (f_data f) (f_pos f) w, f_pos := f_pos f + length w\<rparr>))"

fun pread_loop :: "io_out list \<Rightarrow> bytes \<Rightarrow> nat \<Rightarrow> nat \<Rightarrow> bytes option" where
  "pread_loop [] data off len =
     (if len \<le> length data - off then Some (take len (drop off data)) else None)"
| "pread_loop (out # outs) data off len =
     (if len = 0 then Some []
      else case out of
        Eintr \<Rightarrow> pread_loop outs data off len
      | IoFail \<Rightarrow> None
      | Xfer n \<Rightarrow>
          let m = min n (min len (length data - off))
          in if m = 0 then None
             else map_option ((@) (take m (drop off data))) (pread_loop outs data (off + m) (len - m)))"

definition pread_all :: "sysenv \<Rightarrow> bytes \<Rightarrow> nat \<Rightarrow> nat \<Rightarrow> bytes option" where
  "pread_all E data off len = pread_loop (sys_pread E off len) data off len"

section \<open>What the loops guarantee\<close>

lemma write_loop_prefix: "write_loop outs p = (ok, w) \<Longrightarrow> \<exists>rest. p = w @ rest \<and> (ok \<longrightarrow> rest = [])"
proof (induction outs arbitrary: p ok w)
  case Nil
  then show ?case by simp
next
  case (Cons out outs)
  show ?case
  proof (cases "p = [] \<or> (\<forall>n. out \<noteq> Xfer n) \<or> out = Xfer 0")
    case True
    then show ?thesis using Cons by (auto split: if_splits io_out.splits)
  next
    case False
    then obtain n where out: "out = Xfer n" and n: "n \<noteq> 0" and p: "p \<noteq> []" by auto
    let ?m = "min n (length p)"
    obtain w' where rec: "write_loop outs (drop ?m p) = (ok, w')" and w: "w = take ?m p @ w'"
      using Cons.prems out n p by (auto simp: Let_def split: prod.splits)
    from Cons.IH [OF rec] obtain rest where "drop ?m p = w' @ rest" "ok \<longrightarrow> rest = []" by auto
    then have "p = w @ rest \<and> (ok \<longrightarrow> rest = [])"
      using append_take_drop_id [of ?m p] unfolding w by simp
    then show ?thesis ..
  qed
qed

lemma write_loop_benign: "benign_outs outs \<Longrightarrow> write_loop outs p = (True, p)"
  by (induction outs arbitrary: p)
     (auto simp: benign_outs_def Let_def split: io_out.splits)

lemma write_all_benign:
  "benign E \<Longrightarrow> write_all E buf f =
     (True, f\<lparr>f_data := write_at (f_data f) (f_pos f) buf, f_pos := f_pos f + length buf\<rparr>)"
  by (simp add: write_all_def benign_def write_loop_benign)

lemma pread_loop_Some:
  "pread_loop outs data off len = Some bs \<Longrightarrow> len \<le> length data - off \<and> bs = take len (drop off data)"
proof (induction outs arbitrary: off len bs)
  case Nil
  then show ?case by (simp split: if_splits)
next
  case (Cons out outs)
  show ?case
  proof (cases "len = 0 \<or> (\<forall>n. out \<noteq> Xfer n)")
    case True
    then show ?thesis using Cons by (auto split: if_splits io_out.splits)
  next
    case False
    then obtain n where out: "out = Xfer n" and len: "len \<noteq> 0" by auto
    let ?m = "min n (min len (length data - off))"
    obtain b where b: "pread_loop outs data (off + ?m) (len - ?m) = Some b"
      and bs: "bs = take ?m (drop off data) @ b"
      using Cons.prems out len by (auto simp: Let_def split: if_splits)
    have rest: "len - ?m \<le> length data - (off + ?m)" "b = take (len - ?m) (drop ?m (drop off data))"
      using Cons.IH [OF b] by (auto simp: add.commute)
    have "bs = take (?m + (len - ?m)) (drop off data)"
      unfolding bs rest(2) by (simp only: take_add)
    with rest(1) len show ?thesis by auto
  qed
qed

lemma pread_loop_benign:
  "benign_outs outs \<Longrightarrow> len \<le> length data - off \<Longrightarrow>
    pread_loop outs data off len = Some (take len (drop off data))"
proof (induction outs arbitrary: off len)
  case Nil
  then show ?case by simp
next
  case (Cons out outs)
  show ?case
  proof (cases "len = 0 \<or> (\<forall>n. out \<noteq> Xfer n)")
    case True
    then show ?thesis using Cons by (auto simp: benign_outs_def split: io_out.splits)
  next
    case False
    then obtain n where out: "out = Xfer n" and len: "len \<noteq> 0" by auto
    let ?m = "min n (min len (length data - off))"
    have m: "?m \<noteq> 0" using Cons.prems out len by (auto simp: benign_outs_def)
    have "pread_loop outs data (off + ?m) (len - ?m) = Some (take (len - ?m) (drop (off + ?m) data))"
      using Cons by (intro Cons.IH) (auto simp: benign_outs_def)
    then have "pread_loop (out # outs) data off len =
        Some (take ?m (drop off data) @ take (len - ?m) (drop ?m (drop off data)))"
      using out len m by (simp add: Let_def add.commute)
    then show ?thesis by (simp only: take_add [symmetric]) simp
  qed
qed

lemma pread_all_benign:
  "benign E \<Longrightarrow> len \<le> length data - off \<Longrightarrow>
    pread_all E data off len = Some (take len (drop off data))"
  by (simp add: pread_all_def benign_def pread_loop_benign)

lemma pread_all_Some:
  "pread_all E data off len = Some bs \<Longrightarrow> len \<le> length data - off \<and> bs = take len (drop off data)"
  unfolding pread_all_def by (rule pread_loop_Some)

end
