(* ===== verification/Log_Manager.thy ===== *)
theory Log_Manager
  imports Wal_Frame Posix_Io
begin

text \<open>
  \<^verbatim>\<open>class LogManager\<close> of \<^verbatim>\<open>src/storage/log_manager.cpp\<close>: opening and repairing the log,
  appending, iterating and reading back. The state \<open>log\<close> is \<^verbatim>\<open>LogManager::Impl\<close> together
  with the open file it holds. Sizes come from \<open>lseek\<close>, so they stay below \<open>2 ^ 63\<close>; the
  sums formed from them are written without wrap-around, except where the operand is an
  arbitrary 64-bit number (\<open>read_value_at\<close>) or where the code itself tests for it.
\<close>

section \<open>State\<close>

record log =
  l_fd :: bool
  l_file :: ofile
  l_eof :: nat
  l_legacy :: bool
  l_data_start :: nat

definition new_log :: log where
  "new_log = \<lparr>l_fd = False, l_file = \<lparr>f_data = [], f_pos = 0\<rparr>, l_eof = 0,
     l_legacy = False, l_data_start = 0\<rparr>"

section \<open>Opening and repairing\<close>

definition refresh_eof :: "sysenv \<Rightarrow> log \<Rightarrow> log" where
  "refresh_eof E lg =
     (if \<not> l_fd lg then lg
      else if sys_lseek E
      then let n = length (f_data (l_file lg))
           in lg\<lparr>l_file := (l_file lg)\<lparr>f_pos := n\<rparr>, l_eof := n\<rparr>
      else lg)"

definition file_header :: bytes where
  "file_header = kWalMagic @ put_u16_be kWalFormatVersion @ [0, 0]"

definition write_file_header :: "sysenv \<Rightarrow> log \<Rightarrow> status_code \<times> log" where
  "write_file_header E lg =
     (if \<not> sys_lseek_set E then (kIOError, lg)
      else let (ok, f) = write_all E file_header ((l_file lg)\<lparr>f_pos := 0\<rparr>)
           in if \<not> ok then (kIOError, lg\<lparr>l_file := f\<rparr>)
              else if \<not> sys_lseek E then (kIOError, lg\<lparr>l_file := f\<rparr>)
              else (kOk, lg\<lparr>l_file := f\<lparr>f_pos := length (f_data f)\<rparr>,
                            l_data_start := kFileHeaderSize, l_eof := kFileHeaderSize\<rparr>))"

text \<open>
  The repair loop either walks off the end of the file, or decides to cut the file at the
  last good frame, or reports corruption.
\<close>

datatype repair_result = RepairClean | RepairTruncate nat | RepairCorrupt

function repair_loop :: "sysenv \<Rightarrow> bytes \<Rightarrow> bool \<Rightarrow> nat \<Rightarrow> nat \<Rightarrow> nat \<Rightarrow> repair_result" where
  "repair_loop E data legacy eof cursor last_good =
     (if \<not> cursor < eof then RepairClean
      else if eof - cursor < kFrameHeaderSize then RepairTruncate last_good
      else case pread_all E data cursor kFrameHeaderSize of
        None \<Rightarrow> RepairTruncate last_good
      | Some fhdr \<Rightarrow>
         let op = hdr_op fhdr; crc_on_disk = hdr_crc legacy fhdr; payload_len = hdr_len legacy fhdr;
             plen = unat payload_len
         in if \<not> is_valid_op op then
              (if \<not> legacy then RepairCorrupt else RepairTruncate last_good)
            else if plen < 2 then
              (if \<not> legacy then RepairCorrupt else RepairTruncate last_good)
            else if payload_len > kMaxPayloadBytes then RepairCorrupt
            else if u64_wrap (cursor + kFrameHeaderSize + plen) < cursor then RepairCorrupt
            else if cursor + kFrameHeaderSize + plen > eof then RepairTruncate last_good
            else case pread_all E data (cursor + kFrameHeaderSize) plen of
              None \<Rightarrow> RepairTruncate last_good
            | Some payload \<Rightarrow>
                if frame_crc legacy op payload_len payload \<noteq> crc_on_disk then
                  (if cursor + kFrameHeaderSize + plen < eof then RepairCorrupt
                   else RepairTruncate last_good)
                else repair_loop E data legacy eof (cursor + kFrameHeaderSize + plen)
                       (cursor + kFrameHeaderSize + plen))"
  by pat_completeness auto
termination
  by (relation "measure (\<lambda>(E, data, legacy, eof, cursor, last_good). eof - cursor)")
     (auto simp: kFrameHeaderSize_def)

declare repair_loop.simps [simp del]

definition repair_truncate_tail :: "sysenv \<Rightarrow> log \<Rightarrow> status_code \<times> log" where
  "repair_truncate_tail E lg =
     (case repair_loop E (f_data (l_file lg)) (l_legacy lg) (l_eof lg) (l_data_start lg)
             (l_data_start lg) of
        RepairClean \<Rightarrow> (kOk, lg)
      | RepairCorrupt \<Rightarrow> (kCorruption, lg)
      | RepairTruncate n \<Rightarrow>
          if \<not> sys_ftruncate E n then (kIOError, lg)
          else (kOk, refresh_eof E (lg\<lparr>l_file := (l_file lg)\<lparr>f_data := take n (f_data (l_file lg))\<rparr>\<rparr>)))"

definition open_and_repair :: "sysenv \<Rightarrow> log \<Rightarrow> status_code \<times> log" where
  "open_and_repair E lg =
     (if \<not> sys_lseek E then (kIOError, lg)
      else
        let n = length (f_data (l_file lg));
            lg = lg\<lparr>l_file := (l_file lg)\<lparr>f_pos := n\<rparr>, l_eof := n\<rparr>
        in if n = 0 then (kOk, lg\<lparr>l_legacy := False, l_data_start := 0\<rparr>)
           else if n < kFileHeaderSize
           then repair_truncate_tail E (lg\<lparr>l_legacy := True, l_data_start := 0\<rparr>)
           else case pread_all E (f_data (l_file lg)) 0 8 of
             None \<Rightarrow> (kIOError, lg)
           | Some hdr \<Rightarrow>
               if magic_is_v2 hdr then
                 (if get_u16_be (drop 4 hdr) \<noteq> kWalFormatVersion then (kCorruption, lg)
                  else repair_truncate_tail E
                         (lg\<lparr>l_legacy := False, l_data_start := kFileHeaderSize\<rparr>))
               else repair_truncate_tail E (lg\<lparr>l_legacy := True, l_data_start := 0\<rparr>))"

text \<open>\<open>disk\<close> is what the file at the log's path holds (empty when \<open>O_CREAT\<close> creates it).\<close>

definition log_open :: "sysenv \<Rightarrow> bytes \<Rightarrow> log \<Rightarrow> status_code \<times> log" where
  "log_open E disk lg =
     (if l_fd lg then (kOk, lg)
      else if \<not> sys_open E then (kIOError, lg)
      else open_and_repair E (lg\<lparr>l_fd := True, l_file := \<lparr>f_data = disk, f_pos = 0\<rparr>\<rparr>))"

section \<open>Appending\<close>

definition log_append ::
  "sysenv \<Rightarrow> op_type \<Rightarrow> bytes \<Rightarrow> bytes \<Rightarrow> log \<Rightarrow> nat result \<times> log" where
  "log_append E op key value lg =
     (if \<not> l_fd lg then (Inl kIOError, lg)
      else if length key > 0xFFFF then (Inl kInvalidArgument, lg)
      else
        let (h, lg) = (if \<not> l_legacy lg \<and> l_eof lg = 0 then write_file_header E lg else (kOk, lg))
        in if \<not> status_ok h then (Inl h, lg)
           else case build_payload (l_legacy lg) key value of
             Inl e \<Rightarrow> (Inl e, lg)
           | Inr payload \<Rightarrow>
              if \<not> is_valid_op (op_raw op) then (Inl kInvalidArgument, lg)
              else
                let plen = of_nat (length payload);
                    crc = frame_crc (l_legacy lg) (op_raw op) plen payload;
                    fhdr = frame_header (l_legacy lg) (op_raw op) crc plen;
                    off = l_eof lg;
                    (ok1, f1) = write_all E fhdr (l_file lg)
                in if \<not> ok1 then (Inl kIOError, lg\<lparr>l_file := f1\<rparr>)
                   else
                     let (ok2, f2) = (if payload \<noteq> [] then write_all E payload f1 else (True, f1))
                     in if \<not> ok2 then (Inl kIOError, lg\<lparr>l_file := f2\<rparr>)
                        else (Inr off, lg\<lparr>l_file := f2, l_eof := off + length fhdr + length payload\<rparr>))"

definition log_sync :: "sysenv \<Rightarrow> log \<Rightarrow> status_code" where
  "log_sync E lg = (if \<not> l_fd lg then kIOError else if \<not> sys_fsync E then kIOError else kOk)"

section \<open>Reading\<close>

text \<open>The callback threads a state and says whether to go on.\<close>

function iterate_loop ::
  "sysenv \<Rightarrow> log \<Rightarrow> (wal_entry \<Rightarrow> 's \<Rightarrow> bool \<times> 's) \<Rightarrow> nat \<Rightarrow> 's \<Rightarrow> status_code \<times> 's" where
  "iterate_loop E lg cb c s =
     (if \<not> c + kFrameHeaderSize \<le> l_eof lg then (kOk, s)
      else case pread_all E (f_data (l_file lg)) c kFrameHeaderSize of
        None \<Rightarrow> (kIOError, s)
      | Some fhdr \<Rightarrow>
         let op = hdr_op fhdr; payload_len = hdr_len (l_legacy lg) fhdr; plen = unat payload_len
         in if \<not> is_valid_op op \<or> plen < 2 \<or> payload_len > kMaxPayloadBytes then (kCorruption, s)
            else if c + kFrameHeaderSize + plen > l_eof lg then (kCorruption, s)
            else case pread_all E (f_data (l_file lg)) (c + kFrameHeaderSize) plen of
              None \<Rightarrow> (kIOError, s)
            | Some payload \<Rightarrow>
                if frame_crc (l_legacy lg) op payload_len payload \<noteq> hdr_crc (l_legacy lg) fhdr
                then (kCorruption, s)
                else case decode_key_value (l_legacy lg) payload of
                  None \<Rightarrow> (kCorruption, s)
                | Some (key, value) \<Rightarrow>
                    let (continue, s) = cb \<lparr>we_op = op_of_raw op, we_key = key, we_value = value,
                                            we_offset = c\<rparr> s
                    in if \<not> continue then (kOk, s)
                       else iterate_loop E lg cb (c + kFrameHeaderSize + plen) s)"
  by pat_completeness auto
termination
  by (relation "measure (\<lambda>(E, lg, cb, c, s). Suc (l_eof lg) - c)")
     (auto simp: kFrameHeaderSize_def)

declare iterate_loop.simps [simp del]

definition iterate_from ::
  "sysenv \<Rightarrow> log \<Rightarrow> nat \<Rightarrow> (wal_entry \<Rightarrow> 's \<Rightarrow> bool \<times> 's) \<Rightarrow> 's \<Rightarrow> status_code \<times> 's" where
  "iterate_from E lg from_offset cb s =
     (if \<not> l_fd lg then (kIOError, s)
      else if from_offset < l_data_start lg \<or> from_offset > l_eof lg then (kInvalidArgument, s)
      else iterate_loop E lg cb from_offset s)"

definition iterate :: "sysenv \<Rightarrow> log \<Rightarrow> (wal_entry \<Rightarrow> 's \<Rightarrow> bool \<times> 's) \<Rightarrow> 's \<Rightarrow> status_code \<times> 's" where
  "iterate E lg cb s = iterate_from E lg (l_data_start lg) cb s"

definition read_value_at :: "sysenv \<Rightarrow> log \<Rightarrow> nat \<Rightarrow> (bytes \<times> bytes) result" where
  "read_value_at E lg offset =
     (if \<not> l_fd lg then Inl kIOError
      else if offset < l_data_start lg \<or> u64_wrap (offset + kFrameHeaderSize) > l_eof lg
      then Inl kNotFound
      else case pread_all E (f_data (l_file lg)) offset kFrameHeaderSize of
        None \<Rightarrow> Inl kIOError
      | Some fhdr \<Rightarrow>
         let op = hdr_op fhdr; payload_len = hdr_len (l_legacy lg) fhdr; plen = unat payload_len
         in if \<not> is_valid_op op then Inl kCorruption
            else if plen < 2 \<or> payload_len > kMaxPayloadBytes \<or>
                    u64_wrap (offset + kFrameHeaderSize + plen) > l_eof lg
            then Inl kCorruption
            else case pread_all E (f_data (l_file lg)) (offset + kFrameHeaderSize) plen of
              None \<Rightarrow> Inl kIOError
            | Some payload \<Rightarrow>
                if frame_crc (l_legacy lg) op payload_len payload \<noteq> hdr_crc (l_legacy lg) fhdr
                then Inl kCorruption
                else case decode_key_value (l_legacy lg) payload of
                  None \<Rightarrow> Inl kCorruption
                | Some kv \<Rightarrow> Inr kv)"

definition log_size :: "log \<Rightarrow> nat" where
  "log_size lg = l_eof lg"

section \<open>One frame in the file\<close>

text \<open>
  The three readers agree on a frame that lies in the file between some bytes \<open>pre\<close> and
  \<open>post\<close>: the same two reads, the same checks.
\<close>

definition frame_hdr_of :: "bool \<Rightarrow> record_kv \<Rightarrow> bytes" where
  "frame_hdr_of legacy r =
     (case r of (op, key, value) \<Rightarrow>
        frame_header legacy (op_raw op)
          (frame_crc legacy (op_raw op) (plen_of key value) (payload_bytes legacy key value))
          (plen_of key value))"

lemma encode_frame_split:
  "encode_frame legacy (op, key, value) = frame_hdr_of legacy (op, key, value) @ payload_bytes legacy key value"
  by (simp add: encode_frame_def frame_hdr_of_def Let_def)

lemma length_frame_hdr_of [simp]: "length (frame_hdr_of legacy r) = 9"
  by (cases r) (simp add: frame_hdr_of_def)

lemma hdr_frame_hdr_of [simp]:
  "hdr_op (frame_hdr_of legacy (op, key, value)) = op_raw op"
  "hdr_len legacy (frame_hdr_of legacy (op, key, value)) = plen_of key value"
  "hdr_crc legacy (frame_hdr_of legacy (op, key, value)) =
     frame_crc legacy (op_raw op) (plen_of key value) (payload_bytes legacy key value)"
  by (simp_all add: frame_hdr_of_def)

lemma pread_at:
  assumes "benign E" and "off = length pre" and "n = length xs"
  shows "pread_all E (pre @ xs @ post) off n = Some xs"
  using assms by (subst pread_all_benign) auto

lemma pread_frame:
  assumes "benign E" and "fits key value"
    and "data = pre @ encode_frame legacy (op, key, value) @ post"
  shows "off = length pre \<Longrightarrow> n = 9 \<Longrightarrow>
           pread_all E data off n = Some (frame_hdr_of legacy (op, key, value))"
    and "off = length pre + 9 \<Longrightarrow> n = 2 + length key + length value \<Longrightarrow>
           pread_all E data off n = Some (payload_bytes legacy key value)"
proof -
  let ?h = "frame_hdr_of legacy (op, key, value)" and ?p = "payload_bytes legacy key value"
  have data: "data = pre @ ?h @ (?p @ post)" "data = (pre @ ?h) @ ?p @ post"
    by (simp_all add: assms(3) encode_frame_split)
  show "pread_all E data off n = Some ?h" if "off = length pre" "n = 9"
    unfolding data(1) by (rule pread_at) (simp_all add: assms(1) that)
  show "pread_all E data off n = Some ?p" if "off = length pre + 9" "n = 2 + length key + length value"
    unfolding data(2) by (rule pread_at) (simp_all add: assms(1) that length_payload_bytes)
qed

lemma repair_step:
  assumes "benign E" and "fits key value"
    and "data = pre @ encode_frame legacy (op, key, value) @ post" and "length data < 2 ^ 64"
  shows "repair_loop E data legacy (length data) (length pre) good =
         repair_loop E data legacy (length data)
           (length pre + length (encode_frame legacy (op, key, value)))
           (length pre + length (encode_frame legacy (op, key, value)))"
proof -
  have len: "length pre + 9 + (2 + length key + length value) \<le> length data"
    by (simp add: assms(3))
  show ?thesis
    using len assms(4) plen_of_fits [OF assms(2)]
    by (subst repair_loop.simps) (auto simp: pread_frame [OF assms(1-3)] Let_def ac_simps)
qed

lemma iterate_step:
  assumes "benign E" and "fits key value" and "length (f_data (l_file lg)) = l_eof lg"
    and "f_data (l_file lg) = pre @ encode_frame (l_legacy lg) (op, key, value) @ post"
  shows "iterate_loop E lg cb (length pre) s =
    (let (continue, s') = cb \<lparr>we_op = op, we_key = key, we_value = value, we_offset = length pre\<rparr> s
     in if \<not> continue then (kOk, s')
        else iterate_loop E lg cb
               (length pre + length (encode_frame (l_legacy lg) (op, key, value))) s')"
proof -
  have len: "length pre + 9 + (2 + length key + length value) \<le> l_eof lg"
    by (simp add: assms(3) [symmetric] assms(4))
  show ?thesis
    using len plen_of_fits [OF assms(2)] assms(2)
    by (subst iterate_loop.simps)
       (simp add: pread_frame [OF assms(1,2,4)] Let_def fits_def ac_simps split: prod.splits)
qed

lemma read_value_at_frame:
  assumes "benign E" and "fits key value" and "l_fd lg" and "length (f_data (l_file lg)) = l_eof lg"
    and "l_eof lg < 2 ^ 64" and "l_data_start lg \<le> length pre"
    and "f_data (l_file lg) = pre @ encode_frame (l_legacy lg) (op, key, value) @ post"
  shows "read_value_at E lg (length pre) = Inr (key, value)"
proof -
  have len: "length pre + 9 + (2 + length key + length value) \<le> l_eof lg"
    by (simp add: assms(4) [symmetric] assms(7))
  show ?thesis
    using len plen_of_fits [OF assms(2)] assms(2,3,5,6)
    by (simp add: read_value_at_def pread_frame [OF assms(1,2,7)] Let_def fits_def)
qed

end
