(* ===== verification/Log_Correct.thy ===== *)
theory Log_Correct
  imports Log_Manager
begin

text \<open>
  Correctness of the log manager against its abstraction, the list of records appended so
  far. \<open>wf_log lg es\<close> says that the open log \<open>lg\<close> holds exactly the records \<open>es\<close>. Appending
  extends the list, reading and iterating return its elements, and opening a file whose last
  frame was torn by a crash gives back the list without the torn record.
\<close>

section \<open>Sequences of frames\<close>

definition log_bytes :: "bool \<Rightarrow> record_kv list \<Rightarrow> bytes" where
  "log_bytes legacy es = concat (map (encode_frame legacy) es)"

definition fits_rec :: "record_kv \<Rightarrow> bool" where
  "fits_rec r \<longleftrightarrow> (case r of (op, key, value) \<Rightarrow> fits key value)"

lemma log_bytes_simps [simp]:
  "log_bytes legacy [] = []"
  "log_bytes legacy (r # es) = encode_frame legacy r @ log_bytes legacy es"
  "log_bytes legacy (es @ fs) = log_bytes legacy es @ log_bytes legacy fs"
  by (simp_all add: log_bytes_def)

lemma length_encode_frame_ge: "11 \<le> length (encode_frame legacy r)"
  by (cases r) simp

lemma log_bytes_empty [simp]: "log_bytes legacy es = [] \<longleftrightarrow> es = []"
proof (cases es)
  case (Cons r fs)
  then show ?thesis using length_encode_frame_ge [of legacy r] by (cases "encode_frame legacy r") auto
qed simp

lemma empty_log_bytes [simp]: "[] = log_bytes legacy es \<longleftrightarrow> es = []"
  using log_bytes_empty [of legacy es] by (metis)

text \<open>What the callback of an iteration sees, record by record.\<close>

fun visit :: "bool \<Rightarrow> nat \<Rightarrow> record_kv list \<Rightarrow> (wal_entry \<Rightarrow> 's \<Rightarrow> bool \<times> 's) \<Rightarrow> 's \<Rightarrow> 's" where
  "visit legacy off [] cb s = s"
| "visit legacy off ((op, key, value) # es) cb s =
     (let (continue, s') = cb \<lparr>we_op = op, we_key = key, we_value = value, we_offset = off\<rparr> s
      in if \<not> continue then s'
         else visit legacy (off + length (encode_frame legacy (op, key, value))) es cb s')"

lemma repair_frames:
  assumes "benign E" and "length data < 2 ^ 64"
  shows "\<forall>r \<in> set es. fits_rec r \<Longrightarrow> data = pre @ log_bytes legacy es @ tail \<Longrightarrow>
    repair_loop E data legacy (length data) (length pre) (length pre) =
    repair_loop E data legacy (length data) (length (pre @ log_bytes legacy es))
      (length (pre @ log_bytes legacy es))"
proof (induction es arbitrary: pre)
  case Nil
  then show ?case by simp
next
  case (Cons r es)
  obtain op key val where r: "r = (op, key, val)" by (cases r)
  have fit: "fits key val" using Cons.prems(1) by (simp add: fits_rec_def r)
  have "data = pre @ encode_frame legacy (op, key, val) @ (log_bytes legacy es @ tail)"
    using Cons.prems(2) r by simp
  from repair_step [OF assms(1) fit this assms(2)] show ?case
    using Cons.IH [of "pre @ encode_frame legacy r"] Cons.prems by (simp add: r add.assoc)
qed

lemma iterate_frames:
  assumes "benign E" and "length (f_data (l_file lg)) = l_eof lg"
  shows "\<forall>r \<in> set es. fits_rec r \<Longrightarrow> f_data (l_file lg) = pre @ log_bytes (l_legacy lg) es \<Longrightarrow>
    iterate_loop E lg cb (length pre) s = (kOk, visit (l_legacy lg) (length pre) es cb s)"
proof (induction es arbitrary: pre s)
  case Nil
  then show ?case
    using assms(2) by (subst iterate_loop.simps) simp
next
  case (Cons r es)
  obtain op key val where r: "r = (op, key, val)" by (cases r)
  have fit: "fits key val" using Cons.prems(1) by (simp add: fits_rec_def r)
  have wal: "f_data (l_file lg) = pre @ encode_frame (l_legacy lg) (op, key, val) @ log_bytes (l_legacy lg) es"
    using Cons.prems(2) r by simp
  have IH: "iterate_loop E lg cb (length pre + length (encode_frame (l_legacy lg) (op, key, val))) s' =
      (kOk, visit (l_legacy lg) (length pre + length (encode_frame (l_legacy lg) (op, key, val))) es cb s')" for s'
    using Cons.IH [of "pre @ encode_frame (l_legacy lg) r" s'] Cons.prems by (simp add: r)
  show ?case
    unfolding iterate_step [OF assms(1) fit assms(2) wal] IH
    by (simp add: r Let_def split: prod.splits)
qed

section \<open>Well-formed logs\<close>

definition log_head :: "log \<Rightarrow> bytes" where
  "log_head lg = (if l_legacy lg \<or> l_eof lg = 0 then [] else file_header)"

definition wf_log :: "log \<Rightarrow> record_kv list \<Rightarrow> bool" where
  "wf_log lg es \<longleftrightarrow> l_fd lg \<and>
     f_data (l_file lg) = log_head lg @ log_bytes (l_legacy lg) es \<and>
     length (f_data (l_file lg)) = l_eof lg \<and> f_pos (l_file lg) = l_eof lg \<and>
     l_data_start lg = length (log_head lg) \<and> (\<forall>r \<in> set es. fits_rec r)"

lemma length_file_header [simp]: "length file_header = 8"
  by (simp add: file_header_def kWalMagic_def)

lemma file_header_nonempty [simp]: "file_header \<noteq> []"
  using length_file_header by (metis list.size(3) zero_neq_numeral)

lemma write_at_end [simp]: "pos = length data \<Longrightarrow> write_at data pos w = data @ w"
  by (simp add: write_at_def)

lemma write_at_end_sym [simp]: "length data = pos \<Longrightarrow> write_at data pos w = data @ w"
  by (simp add: write_at_def)

text \<open>The state in which the next record is written: a fresh log gets its header first.\<close>

definition ensure_header :: "sysenv \<Rightarrow> log \<Rightarrow> status_code \<times> log" where
  "ensure_header E lg =
     (if \<not> l_legacy lg \<and> l_eof lg = 0 then write_file_header E lg else (kOk, lg))"

lemma write_file_header_fresh:
  assumes "benign E" and "f_data (l_file lg) = []"
  shows "write_file_header E lg =
    (kOk, lg\<lparr>l_file := (l_file lg)\<lparr>f_data := file_header, f_pos := 8\<rparr>, l_data_start := 8, l_eof := 8\<rparr>)"
proof -
  have "sys_lseek E" "sys_lseek_set E" using assms(1) by (simp_all add: benign_def)
  with assms show ?thesis
    by (simp add: write_file_header_def write_all_benign write_at_def)
qed

lemma ensure_header_wf:
  assumes "benign E" and "wf_log lg es"
  obtains lg' where "ensure_header E lg = (kOk, lg')" and "wf_log lg' es"
    and "l_legacy lg' = l_legacy lg" and "l_legacy lg' \<or> l_eof lg' \<noteq> 0"
    and "l_eof lg' = max (l_eof lg) (if l_legacy lg then 0 else 8)"
proof (cases "\<not> l_legacy lg \<and> l_eof lg = 0")
  case False
  then have head: "l_legacy lg \<or> 8 \<le> l_eof lg"
    using assms(2) by (auto simp: wf_log_def log_head_def split: if_splits)
  show ?thesis
  proof (rule that [of lg])
    show "ensure_header E lg = (kOk, lg)" using False by (auto simp: ensure_header_def)
    show "l_eof lg = max (l_eof lg) (if l_legacy lg then 0 else 8)" using head by auto
  qed (use assms(2) head in auto)
next
  case True
  let ?lg = "lg\<lparr>l_file := (l_file lg)\<lparr>f_data := file_header, f_pos := 8\<rparr>, l_data_start := 8, l_eof := 8\<rparr>"
  have empty: "f_data (l_file lg) = []" using True assms(2) by (auto simp: wf_log_def log_head_def)
  moreover have "es = []" using empty assms(2) by (auto simp: wf_log_def)
  ultimately have "wf_log ?lg es" using True assms(2) by (simp add: wf_log_def log_head_def)
  then show ?thesis
    using True write_file_header_fresh [OF assms(1) empty]
    by (intro that [of ?lg]) (simp_all add: ensure_header_def)
qed

lemma log_append_unfold:
  assumes "l_fd lg" and "length key \<le> 0xFFFF" and "ensure_header E lg = (kOk, lg')"
    and "build_payload (l_legacy lg') key value = Inr payload"
  shows "log_append E op key value lg =
    (let plen = of_nat (length payload);
         fhdr = frame_header (l_legacy lg') (op_raw op)
                  (frame_crc (l_legacy lg') (op_raw op) plen payload) plen;
         off = l_eof lg'; (ok1, f1) = write_all E fhdr (l_file lg')
     in if \<not> ok1 then (Inl kIOError, lg'\<lparr>l_file := f1\<rparr>)
        else let (ok2, f2) = (if payload \<noteq> [] then write_all E payload f1 else (True, f1))
             in if \<not> ok2 then (Inl kIOError, lg'\<lparr>l_file := f2\<rparr>)
                else (Inr off, lg'\<lparr>l_file := f2, l_eof := off + length fhdr + length payload\<rparr>))"
  using assms by (simp add: log_append_def ensure_header_def status_ok_def Let_def split: if_splits)

lemma append_wf:
  assumes "benign E" and "wf_log lg es" and "fits key value"
  obtains lg' where "log_append E op key value lg = (Inr (max (l_eof lg) (if l_legacy lg then 0 else 8)), lg')"
    and "wf_log lg' (es @ [(op, key, value)])" and "l_legacy lg' = l_legacy lg"
    and "l_eof lg' = max (l_eof lg) (if l_legacy lg then 0 else 8) + 11 + length key + length value"
proof -
  from ensure_header_wf [OF assms(1,2)] obtain lg1 where h: "ensure_header E lg = (kOk, lg1)"
    and wf: "wf_log lg1 es" and leg: "l_legacy lg1 = l_legacy lg" and nz: "l_legacy lg1 \<or> l_eof lg1 \<noteq> 0"
    and off: "l_eof lg1 = max (l_eof lg) (if l_legacy lg then 0 else 8)" .
  have fd: "l_fd lg" "length key \<le> 0xFFFF" using assms by (auto simp: wf_log_def fits_def)
  let ?fr = "encode_frame (l_legacy lg1) (op, key, value)"
  let ?lg = "lg1\<lparr>l_file := (l_file lg1)\<lparr>f_data := f_data (l_file lg1) @ ?fr, f_pos := f_pos (l_file lg1) + length ?fr\<rparr>,
                 l_eof := l_eof lg1 + length ?fr\<rparr>"
  have pos: "length (f_data (l_file lg1)) = f_pos (l_file lg1)" "payload_bytes (l_legacy lg1) key value \<noteq> []"
    using wf by (auto simp: wf_log_def payload_bytes_def put_defs)
  have app: "log_append E op key value lg = (Inr (l_eof lg1), ?lg)"
    unfolding log_append_unfold [OF fd h build_payload_fits [OF assms(3)], of op] plen_payload
    by (simp add: write_all_benign [OF assms(1)] pos Let_def encode_frame_split frame_hdr_of_def
        length_payload_bytes add.commute add.left_commute)
  have "wf_log ?lg (es @ [(op, key, value)])"
    using wf nz assms(3) by (auto simp: wf_log_def log_head_def fits_rec_def)
  with app off leg show ?thesis by (intro that [of ?lg]) (simp_all add: add.assoc)
qed

section \<open>Reading back\<close>

definition record_offset :: "log \<Rightarrow> record_kv list \<Rightarrow> nat \<Rightarrow> nat" where
  "record_offset lg es i = length (log_head lg) + length (log_bytes (l_legacy lg) (take i es))"

lemma log_bytes_split:
  assumes "i < length es"
  shows "log_bytes legacy es =
    log_bytes legacy (take i es) @ encode_frame legacy (es ! i) @ log_bytes legacy (drop (Suc i) es)"
  by (subst id_take_nth_drop [OF assms]) simp

lemma read_record:
  assumes "benign E" and "wf_log lg es" and "l_eof lg < 2 ^ 64" and "i < length es"
    and "es ! i = (op, key, value)"
  shows "read_value_at E lg (record_offset lg es i) = Inr (key, value)"
proof -
  let ?pre = "log_head lg @ log_bytes (l_legacy lg) (take i es)"
  have "fits_rec (es ! i)" using assms(2,4) by (simp add: wf_log_def)
  then have fit: "fits key value" by (simp add: assms(5) fits_rec_def)
  have "read_value_at E lg (length ?pre) = Inr (key, value)"
  proof (rule read_value_at_frame [OF assms(1) fit])
    show "f_data (l_file lg) = ?pre @ encode_frame (l_legacy lg) (op, key, value) @
        log_bytes (l_legacy lg) (drop (Suc i) es)"
      using assms(2,5) log_bytes_split [OF assms(4)] by (simp add: wf_log_def)
  qed (use assms(2,3) in \<open>auto simp: wf_log_def\<close>)
  then show ?thesis by (simp add: record_offset_def)
qed

lemma iterate_wf:
  assumes "benign E" and "wf_log lg es"
  shows "iterate E lg cb s = (kOk, visit (l_legacy lg) (l_data_start lg) es cb s)"
  using iterate_frames [OF assms(1), of lg es "log_head lg" cb s] assms(2)
  by (auto simp: iterate_def iterate_from_def wf_log_def)

text \<open>Starting at the boundary after the first \<open>i\<close> records visits the others.\<close>

lemma iterate_from_wf:
  assumes "benign E" and "wf_log lg (es @ fs)"
  shows "iterate_from E lg (length (log_head lg @ log_bytes (l_legacy lg) es)) cb s =
    (kOk, visit (l_legacy lg) (length (log_head lg @ log_bytes (l_legacy lg) es)) fs cb s)"
  using iterate_frames [OF assms(1), of lg fs "log_head lg @ log_bytes (l_legacy lg) es" cb s] assms(2)
  by (auto simp: iterate_from_def wf_log_def)

section \<open>Torn tails\<close>

text \<open>A proper prefix of a frame at the end of the file is cut off, never reported.\<close>

lemma repair_torn_tail:
  assumes "benign E" and "fits key value" and "n < length (encode_frame legacy (op, key, value))"
    and "data = pre @ take n (encode_frame legacy (op, key, value))" and "length data < 2 ^ 63"
  shows "repair_loop E data legacy (length data) (length pre) (length pre) =
    (if n = 0 then RepairClean else RepairTruncate (length pre))"
proof (cases "n < 9")
  case True
  with assms(3,4) show ?thesis
    by (subst repair_loop.simps) (auto simp: length_encode_frame_ge)
next
  case False
  let ?h = "frame_hdr_of legacy (op, key, value)"
  have data: "data = pre @ ?h @ take (n - 9) (payload_bytes legacy key value)"
    using False assms(4) by (simp add: encode_frame_split)
  have hdr: "pread_all E data (length pre) 9 = Some ?h"
    unfolding data by (rule pread_at) (simp_all add: assms(1))
  have n: "n < 11 + (length key + length value)" "length data = length pre + n"
    using assms(3,4) by auto
  have wrap: "u64_wrap (11 + (length pre + (length key + length value))) =
      11 + (length pre + (length key + length value))"
    using assms(2,5) n(2) by (intro u64_wrap_id) (simp add: fits_def)
  show ?thesis
    using False n plen_of_fits [OF assms(2)] by (subst repair_loop.simps) (simp add: hdr Let_def wrap)
qed

section \<open>Opening\<close>

lemma log_open_fresh:
  "benign E \<Longrightarrow> log_open E disk new_log =
    open_and_repair E (new_log\<lparr>l_fd := True, l_file := \<lparr>f_data = disk, f_pos = 0\<rparr>\<rparr>)"
  by (simp add: log_open_def new_log_def benign_def)

text \<open>The state in which the repair starts, for each of the two file formats.\<close>

definition opened :: "bool \<Rightarrow> bytes \<Rightarrow> log" where
  "opened legacy disk = \<lparr>l_fd = True, l_file = \<lparr>f_data = disk, f_pos = length disk\<rparr>,
     l_eof = length disk, l_legacy = legacy, l_data_start = (if legacy then 0 else 8)\<rparr>"

lemma file_header_accepted:
  "magic_is_v2 file_header" "get_u16_be (drop 4 file_header) = kWalFormatVersion"
  by (simp_all add: file_header_def kWalMagic_def magic_is_v2_def)

lemma log_open_v2:
  assumes "benign E" and "disk = file_header @ rest"
  shows "log_open E disk new_log = repair_truncate_tail E (opened False disk)"
proof -
  have "pread_all E disk 0 8 = Some file_header"
    using pread_at [OF assms(1), of 0 "[]" 8 file_header rest] by (simp add: assms(2))
  moreover have "sys_lseek E" using assms(1) by (simp add: benign_def)
  ultimately show ?thesis
    unfolding log_open_fresh [OF assms(1)]
    by (simp add: assms(2) open_and_repair_def new_log_def Let_def file_header_accepted opened_def)
qed

lemma repair_truncate_tail_benign:
  assumes "benign E"
  shows "repair_truncate_tail E lg =
    (case repair_loop E (f_data (l_file lg)) (l_legacy lg) (l_eof lg) (l_data_start lg) (l_data_start lg) of
       RepairClean \<Rightarrow> (kOk, lg)
     | RepairCorrupt \<Rightarrow> (kCorruption, lg)
     | RepairTruncate n \<Rightarrow> (kOk, refresh_eof E (lg\<lparr>l_file := (l_file lg)\<lparr>f_data := take n (f_data (l_file lg))\<rparr>\<rparr>)))"
  using assms by (simp add: repair_truncate_tail_def benign_def split: repair_result.splits)

lemma refresh_eof_opened:
  assumes "benign E" and "n \<le> length disk"
  shows "refresh_eof E ((opened legacy disk)\<lparr>l_file := (l_file (opened legacy disk))\<lparr>f_data := take n disk\<rparr>\<rparr>) =
    opened legacy (take n disk)"
  using assms by (simp add: refresh_eof_def opened_def benign_def Let_def)

text \<open>
  The heart of crash recovery: opening a file that holds the records \<open>es\<close> and then the first
  \<open>n\<close> bytes of one more frame leaves exactly \<open>es\<close>.
\<close>

lemma repair_opened_torn:
  assumes "benign E" and "\<forall>r \<in> set (es @ [r]). fits_rec r" and "n < length (encode_frame legacy r)"
    and "head = (if legacy then [] else file_header)"
    and "disk = head @ log_bytes legacy es @ take n (encode_frame legacy r)" and "length disk < 2 ^ 63"
  shows "repair_truncate_tail E (opened legacy disk) =
    (kOk, opened legacy (head @ log_bytes legacy es))"
proof -
  obtain op key val where r: "r = (op, key, val)" by (cases r)
  let ?pre = "head @ log_bytes legacy es"
  have "fits key val" using assms(2) by (simp add: r fits_rec_def)
  then have torn: "repair_loop E disk legacy (length disk) (length ?pre) (length ?pre) =
      (if n = 0 then RepairClean else RepairTruncate (length ?pre))"
    by (rule repair_torn_tail [OF assms(1)]) (use assms(3,5,6) r in simp_all)
  have walk: "repair_loop E disk legacy (length disk) (length head) (length head) =
      (if n = 0 then RepairClean else RepairTruncate (length ?pre))"
    by (subst repair_frames [OF assms(1) _ _ assms(5)]) (use torn assms(2,6) in simp_all)
  have start: "l_data_start (opened legacy disk) = length head"
    by (simp add: opened_def assms(4))
  show ?thesis
  proof (cases "n = 0")
    case True
    then show ?thesis
      using walk start assms(5) by (simp add: repair_truncate_tail_benign [OF assms(1)] opened_def)
  next
    case False
    have cut: "take (length ?pre) disk = ?pre" by (simp add: assms(5))
    have "repair_truncate_tail E (opened legacy disk) = (kOk, opened legacy (take (length ?pre) disk))"
      using walk start False refresh_eof_opened [OF assms(1), of "length ?pre" disk legacy] assms(5)
      by (simp add: repair_truncate_tail_benign [OF assms(1)] opened_def)
    then show ?thesis by (simp only: cut)
  qed
qed

lemma wf_opened:
  "\<forall>r \<in> set es. fits_rec r \<Longrightarrow>
    wf_log (opened legacy ((if legacy then [] else file_header) @ log_bytes legacy es)) es"
  by (simp add: wf_log_def opened_def log_head_def)

end
