(* ===== verification/Log_Recovery.thy ===== *)
theory Log_Recovery
  imports Log_Correct
begin

text \<open>
  What a crash, a failed system call or damaged bytes do to the log, and what the next open
  makes of it: torn records disappear, complete records stay, damage inside a record is
  never read back as data. Three theorems record behaviour that loses or blocks data: a
  write error followed by a successful append, a read error while opening, and a damaged
  length field.
\<close>

section \<open>Opening either format\<close>

lemma log_open_legacy:
  assumes "benign E" and "disk \<noteq> []" and "disk ! 0 \<noteq> 0x4C"
  shows "log_open E disk new_log = repair_truncate_tail E (opened True disk)"
proof -
  have seek: "sys_lseek E" using assms(1) by (simp add: benign_def)
  show ?thesis
  proof (cases "length disk < 8")
    case True
    with seek assms show ?thesis
      unfolding log_open_fresh [OF assms(1)]
      by (simp add: open_and_repair_def new_log_def Let_def opened_def)
  next
    case False
    then have "pread_all E disk 0 8 = Some (take 8 disk)"
      by (subst pread_all_benign [OF assms(1)]) auto
    moreover have "\<not> magic_is_v2 (take 8 disk)"
      using assms(3) by (simp add: magic_is_v2_def kWalMagic_def)
    ultimately show ?thesis
      unfolding log_open_fresh [OF assms(1)]
      using seek False assms(2) by (simp add: open_and_repair_def new_log_def Let_def opened_def)
  qed
qed

lemma log_open_empty:
  assumes "benign E"
  shows "log_open E [] new_log = (kOk, new_log\<lparr>l_fd := True\<rparr>)"
  unfolding log_open_fresh [OF assms] using assms
  by (simp add: open_and_repair_def new_log_def Let_def benign_def)

lemma encode_frame_first: "encode_frame legacy (op, key, value) ! 0 = op_raw op"
  by (simp add: encode_frame_split frame_hdr_of_def frame_header_def nth_append)

lemma op_raw_not_magic: "op_raw op \<noteq> 0x4C"
  by (cases op) simp_all

lemma legacy_first_byte:
  assumes "log_bytes True es @ take n (encode_frame True r) \<noteq> []"
  shows "(log_bytes True es @ take n (encode_frame True r)) ! 0 \<noteq> 0x4C"
proof (cases es)
  case Nil
  then show ?thesis
    using assms op_raw_not_magic by (cases r) (auto simp: encode_frame_first)
next
  case (Cons e es')
  have "encode_frame True e \<noteq> []"
    using length_encode_frame_ge [of True e] by auto
  then show ?thesis
    using op_raw_not_magic by (cases e) (simp add: Cons nth_append encode_frame_first)
qed

lemma log_open_torn:
  assumes "benign E" and "\<forall>r \<in> set (es @ [r]). fits_rec r" and "n < length (encode_frame legacy r)"
    and "disk = (if legacy then [] else file_header) @ log_bytes legacy es @ take n (encode_frame legacy r)"
    and "length disk < 2 ^ 63"
  shows "\<exists>lg. log_open E disk new_log = (kOk, lg) \<and> wf_log lg es"
proof (cases "legacy \<and> disk = []")
  case True
  then have "es = []" using assms(4) by auto
  with True show ?thesis
    using log_open_empty [OF assms(1)] by (auto simp: wf_log_def new_log_def log_head_def)
next
  case False
  have "log_open E disk new_log = repair_truncate_tail E (opened legacy disk)"
  proof (cases legacy)
    case True
    with False show ?thesis
      using assms(4) legacy_first_byte [of es n r] by (simp add: log_open_legacy [OF assms(1)])
  next
    case False
    then show ?thesis using log_open_v2 [OF assms(1)] assms(4) by simp
  qed
  then show ?thesis
    using repair_opened_torn [OF assms(1-3) refl assms(4,5)] wf_opened [of es legacy] assms(2)
    by auto
qed

lemma log_open_torn_header:
  assumes "benign E" and "0 < n" and "n < 8"
  shows "log_open E (take n file_header) new_log = (kOk, opened True [])"
proof -
  have "repair_loop E (take n file_header) True n 0 0 = RepairTruncate 0"
    using assms(2,3) by (subst repair_loop.simps) simp
  moreover have "sys_lseek E" "\<forall>k. sys_ftruncate E k" using assms(1) by (auto simp: benign_def)
  ultimately show ?thesis
    unfolding log_open_fresh [OF assms(1)] using assms(2,3)
    by (simp add: open_and_repair_def new_log_def Let_def repair_truncate_tail_def refresh_eof_def opened_def)
qed

text \<open>
  C18: crash recovery. Whatever prefix of the last frame reached the disk, opening the file
  succeeds and the log holds exactly the complete records: all earlier ones, and the last one
  if and only if all its bytes are there. This covers both file formats and any pattern of
  short or interrupted reads.
\<close>

theorem log_crash_recovery:
  assumes "benign E" and "\<forall>r \<in> set (es @ [r]). fits_rec r" and "n \<le> length (encode_frame legacy r)"
    and "disk = (if legacy then [] else file_header) @ log_bytes legacy es @ take n (encode_frame legacy r)"
    and "length disk < 2 ^ 63"
  shows "\<exists>lg. log_open E disk new_log = (kOk, lg) \<and>
    wf_log lg (if n = length (encode_frame legacy r) then es @ [r] else es)"
proof (cases "n = length (encode_frame legacy r)")
  case True
  have "0 < length (encode_frame legacy r)" using length_encode_frame_ge [of legacy r] by linarith
  then show ?thesis
    using log_open_torn [OF assms(1), of "es @ [r]" r 0 legacy disk] assms(2,4,5) True by auto
next
  case False
  with assms show ?thesis
    using log_open_torn [OF assms(1,2) _ assms(4,5)] by auto
qed

theorem log_crash_recovery_witness:
  "\<exists>lg. log_open choppy_env
      (file_header @ log_bytes False [(OpPut, [97], [1])] @ take 10 (encode_frame False (OpPut, [98], [2])))
      new_log = (kOk, lg) \<and> wf_log lg [(OpPut, [97], [1])]"
  using log_crash_recovery [OF benign_choppy, of "[(OpPut, [97], [1])]" "(OpPut, [98], [2])" 10 False, OF _ _ refl]
  by (simp add: fits_rec_def fits_def)

section \<open>Interrupted appends\<close>

lemma write_all_any:
  assumes "f_pos f = length (f_data f)"
  obtains ok m where "write_all E buf f =
      (ok, f\<lparr>f_data := f_data f @ take m buf, f_pos := length (f_data f @ take m buf)\<rparr>)"
    and "m \<le> length buf" and "ok \<longrightarrow> m = length buf"
proof -
  obtain ok w where w: "write_loop (sys_write E (f_pos f) (length buf)) buf = (ok, w)" by fastforce
  from write_loop_prefix [OF w] obtain rest where rest: "buf = w @ rest" "ok \<longrightarrow> rest = []" by blast
  then have "take (length w) buf = w" "length w \<le> length buf" "ok \<longrightarrow> length w = length buf" by auto
  with w assms that [of ok "length w"] show ?thesis by (simp add: write_all_def)
qed

text \<open>
  With arbitrary faults, an append to a log that already has its header adds a prefix of the
  new frame, the whole frame if it reports success.
\<close>

lemma append_any_prefix:
  assumes "wf_log lg es" and "l_legacy lg \<or> l_eof lg \<noteq> 0" and "fits key value"
    and "log_append E op key value lg = (res, lg')"
  obtains n where "f_data (l_file lg') = f_data (l_file lg) @ take n (encode_frame (l_legacy lg) (op, key, value))"
    and "n \<le> length (encode_frame (l_legacy lg) (op, key, value))"
    and "\<forall>off. res = Inr off \<longrightarrow> n = length (encode_frame (l_legacy lg) (op, key, value))"
proof -
  let ?h = "frame_hdr_of (l_legacy lg) (op, key, value)" and ?p = "payload_bytes (l_legacy lg) key value"
  have fd: "l_fd lg" "length key \<le> 0xFFFF" and hdr: "ensure_header E lg = (kOk, lg)"
    and pos: "f_pos (l_file lg) = length (f_data (l_file lg))" and p: "?p \<noteq> []"
    using assms(1-3) by (auto simp: wf_log_def fits_def ensure_header_def payload_bytes_def put_defs)
  from write_all_any [OF pos, of E ?h] obtain ok1 m1 where w1: "write_all E ?h (l_file lg) =
      (ok1, (l_file lg)\<lparr>f_data := f_data (l_file lg) @ take m1 ?h, f_pos := length (f_data (l_file lg) @ take m1 ?h)\<rparr>)"
    and m1: "m1 \<le> length ?h" "ok1 \<longrightarrow> m1 = length ?h" .
  let ?f1 = "(l_file lg)\<lparr>f_data := f_data (l_file lg) @ take m1 ?h, f_pos := length (f_data (l_file lg) @ take m1 ?h)\<rparr>"
  obtain ok2 m2 where w2: "write_all E ?p ?f1 =
      (ok2, ?f1\<lparr>f_data := f_data ?f1 @ take m2 ?p, f_pos := length (f_data ?f1 @ take m2 ?p)\<rparr>)"
    and m2: "m2 \<le> length ?p" "ok2 \<longrightarrow> m2 = length ?p"
    by (rule write_all_any [of ?f1 E ?p]) simp_all
  have app: "log_append E op key value lg =
    (if \<not> ok1 then (Inl kIOError, lg\<lparr>l_file := ?f1\<rparr>)
     else if \<not> ok2 then (Inl kIOError, lg\<lparr>l_file := ?f1\<lparr>f_data := f_data ?f1 @ take m2 ?p, f_pos := length (f_data ?f1 @ take m2 ?p)\<rparr>\<rparr>)
     else (Inr (l_eof lg), lg\<lparr>l_file := ?f1\<lparr>f_data := f_data ?f1 @ take m2 ?p, f_pos := length (f_data ?f1 @ take m2 ?p)\<rparr>,
            l_eof := l_eof lg + 9 + length ?p\<rparr>))"
    using w1 w2 p
    unfolding log_append_unfold [OF fd hdr build_payload_fits [OF assms(3)], of op] plen_payload
    by (simp add: frame_hdr_of_def Let_def)
  show ?thesis
  proof (rule that [of "if ok1 then 9 + m2 else m1"])
    show "f_data (l_file lg') = f_data (l_file lg) @
        take (if ok1 then 9 + m2 else m1) (encode_frame (l_legacy lg) (op, key, value))"
      using assms(4) app m1 by (auto simp: encode_frame_split split: if_splits)
    show "(if ok1 then 9 + m2 else m1) \<le> length (encode_frame (l_legacy lg) (op, key, value))"
      using m1 m2 by (simp add: length_payload_bytes)
    show "\<forall>off. res = Inr off \<longrightarrow>
        (if ok1 then 9 + m2 else m1) = length (encode_frame (l_legacy lg) (op, key, value))"
      using assms(4) app m2 by (auto simp: length_payload_bytes split: if_splits)
  qed
qed

lemma wf_log_disk:
  assumes "wf_log lg es" and "l_legacy lg \<or> l_eof lg \<noteq> 0"
  shows "f_data (l_file lg) = (if l_legacy lg then [] else file_header) @ log_bytes (l_legacy lg) es"
  using assms by (auto simp: wf_log_def log_head_def)

lemma append_crash_headed:
  assumes "wf_log lg es" and "l_legacy lg \<or> l_eof lg \<noteq> 0" and "fits key value"
    and "l_eof lg + 11 + length key + length value < 2 ^ 63"
    and "log_append E op key value lg = (res, lg')" and "benign E'"
  shows "\<exists>lg''. log_open E' (f_data (l_file lg')) new_log = (kOk, lg'') \<and>
    (wf_log lg'' (es @ [(op, key, value)]) \<or> (wf_log lg'' es \<and> (\<exists>e. res = Inl e)))"
proof -
  let ?fr = "encode_frame (l_legacy lg) (op, key, value)"
  from append_any_prefix [OF assms(1-3,5)] obtain n where
    data: "f_data (l_file lg') = f_data (l_file lg) @ take n ?fr" and n: "n \<le> length ?fr"
    and full: "\<forall>off. res = Inr off \<longrightarrow> n = length ?fr" .
  have disk: "f_data (l_file lg') =
      (if l_legacy lg then [] else file_header) @ log_bytes (l_legacy lg) es @ take n ?fr"
    using data wf_log_disk [OF assms(1,2)] by simp
  have size: "length (f_data (l_file lg')) < 2 ^ 63"
    using data assms(1,4) by (auto simp: wf_log_def min_def)
  have fit: "\<forall>r \<in> set (es @ [(op, key, value)]). fits_rec r"
    using assms(1,3) by (auto simp: wf_log_def fits_rec_def)
  show ?thesis
  proof (cases "n = length ?fr")
    case True
    from log_open_torn [OF assms(6), of "es @ [(op, key, value)]" "(op, key, value)" 0 "l_legacy lg"
        "f_data (l_file lg')"] obtain lg'' where
      "log_open E' (f_data (l_file lg')) new_log = (kOk, lg'')" "wf_log lg'' (es @ [(op, key, value)])"
      using disk True fit size by auto
    then show ?thesis by blast
  next
    case False
    from log_open_torn [OF assms(6) fit _ disk size] obtain lg'' where
      "log_open E' (f_data (l_file lg')) new_log = (kOk, lg'')" "wf_log lg'' es"
      using False n by auto
    moreover have "\<exists>e. res = Inl e" using False full by (cases res) auto
    ultimately show ?thesis by blast
  qed
qed

text \<open>The header of a new log: a prefix of it is written, all of it if the call succeeds.\<close>

lemma write_header_any:
  assumes "wf_log lg es" and "\<not> l_legacy lg" and "l_eof lg = 0" and "write_file_header E lg = (s, lg1)"
  obtains k where "f_data (l_file lg1) = take k file_header" and "k \<le> 8"
    and "s = kOk \<Longrightarrow> wf_log lg1 [] \<and> \<not> l_legacy lg1 \<and> l_eof lg1 = 8" and "s \<noteq> kOk \<Longrightarrow> s = kIOError"
proof -
  have lg: "l_fd lg" "f_data (l_file lg) = []" "f_pos (l_file lg) = 0"
    using assms(1-3) by (auto simp: wf_log_def)
  obtain ok m where w: "write_all E file_header ((l_file lg)\<lparr>f_pos := 0\<rparr>) =
      (ok, (l_file lg)\<lparr>f_data := take m file_header, f_pos := length (take m file_header)\<rparr>)"
    and m: "m \<le> 8" "ok \<longrightarrow> m = 8"
    by (rule write_all_any [of "(l_file lg)\<lparr>f_pos := 0\<rparr>" E file_header]) (use lg in auto)
  show ?thesis
  proof (cases "sys_lseek_set E")
    case False
    then have "s = kIOError" "lg1 = lg" using assms(4) by (auto simp: write_file_header_def)
    then show ?thesis using lg(2) by (intro that [of 0]) simp_all
  next
    case True
    then have r: "s = (if ok \<and> sys_lseek E then kOk else kIOError)" "f_data (l_file lg1) = take m file_header"
        "ok \<and> sys_lseek E \<Longrightarrow> lg1 = lg\<lparr>l_file := (l_file lg)\<lparr>f_data := file_header, f_pos := 8\<rparr>, l_data_start := 8, l_eof := 8\<rparr>"
      using assms(4) w m by (auto simp: write_file_header_def split: if_splits)
    show ?thesis
      using r m assms(2) lg(1) by (intro that [of m]) (auto simp: wf_log_def log_head_def split: if_splits)
  qed
qed

lemma log_append_after_header:
  assumes "wf_log lg es" and "\<not> l_legacy lg" and "l_eof lg = 0" and "length key \<le> 0xFFFF"
    and "write_file_header E lg = (s, lg1)"
  shows "s \<noteq> kOk \<Longrightarrow> log_append E op key value lg = (Inl s, lg1)"
    and "s = kOk \<Longrightarrow> wf_log lg1 [] \<Longrightarrow> l_eof lg1 = 8 \<Longrightarrow> log_append E op key value lg = log_append E op key value lg1"
  using assms by (auto simp: log_append_def wf_log_def status_ok_def)

lemma log_open_header_cut:
  assumes "benign E" and "k \<le> 8"
  shows "\<exists>lg. log_open E (take k file_header) new_log = (kOk, lg) \<and> wf_log lg []"
proof -
  consider "k = 0" | "0 < k" "k < 8" | "k = 8" using assms(2) by linarith
  then show ?thesis
  proof cases
    case 1
    then show ?thesis
      using log_open_empty [OF assms(1)] by (auto simp: wf_log_def new_log_def log_head_def)
  next
    case 2
    then show ?thesis using log_open_torn_header [OF assms(1)] wf_opened [of "[]" True] by simp
  next
    case 3
    have "fits_rec (OpPut, [], [])" by (simp add: fits_rec_def fits_def)
    then show ?thesis using 3 log_open_torn [OF assms(1), of "[]" "(OpPut, [], [])" 0 False file_header] by simp
  qed
qed

text \<open>
  C19: an append is atomic across a crash. From any well-formed log, the new one without a file
  header included, whatever the system calls of the append do (short, interrupted or failed
  writes and seeks, also those of the file header), reopening the file gives a log that holds
  either the old records or the old records and the new one; and the new one is there if the
  append had reported success.
\<close>

theorem append_crash_atomic:
  assumes "wf_log lg es" and "fits key value" and "l_eof lg + 11 + length key + length value < 2 ^ 63"
    and "log_append E op key value lg = (res, lg')" and "benign E'"
  shows "\<exists>lg''. log_open E' (f_data (l_file lg')) new_log = (kOk, lg'') \<and>
    (wf_log lg'' (es @ [(op, key, value)]) \<or> (wf_log lg'' es \<and> (\<exists>e. res = Inl e)))"
proof (cases "l_legacy lg \<or> l_eof lg \<noteq> 0")
  case True
  then show ?thesis using append_crash_headed assms by blast
next
  case False
  then have new: "\<not> l_legacy lg" "l_eof lg = 0" by simp_all
  have es: "es = []" using assms(1) new by (auto simp: wf_log_def)
  have key: "length key \<le> 0xFFFF" using assms(2) by (simp add: fits_def)
  obtain s lg1 where h: "write_file_header E lg = (s, lg1)" by fastforce
  note app = log_append_after_header [OF assms(1) new key h]
  obtain k where k: "f_data (l_file lg1) = take k file_header" "k \<le> 8"
      "s = kOk \<Longrightarrow> wf_log lg1 [] \<and> \<not> l_legacy lg1 \<and> l_eof lg1 = 8"
    by (rule write_header_any [OF assms(1) new h]) blast
  show ?thesis
  proof (cases "s = kOk")
    case True
    have small: "l_eof lg1 + 11 + length key + length value < 2 ^ 63" using k(3) [OF True] assms(2) by (simp add: fits_def)
    have "log_append E op key value lg1 = (res, lg')" using app(2) [OF True] k(3) [OF True] assms(4) by simp
    from append_crash_headed [OF _ _ assms(2) small this assms(5), of "[]"] show ?thesis using k(3) [OF True] es by simp
  next
    case False
    then have "res = Inl s" "lg' = lg1" using app(1) assms(4) by simp_all
    then show ?thesis using log_open_header_cut [OF assms(5) k(2)] k(1) es by auto
  qed
qed

definition full_disk_env :: sysenv where
  "full_disk_env = calm_env\<lparr>sys_write := (\<lambda>off len. if len = 4 then [Xfer 1, IoFail] else [])\<rparr>"

theorem append_crash_atomic_witness:
  "\<exists>lg''. log_open calm_env
       (f_data (l_file (snd (log_append full_disk_env OpPut [97] [1] (new_log\<lparr>l_fd := True\<rparr>))))) new_log
     = (kOk, lg'') \<and> (wf_log lg'' [(OpPut, [97], [1])] \<or> wf_log lg'' [])"
proof -
  let ?lg = "new_log\<lparr>l_fd := True\<rparr>"
  have "wf_log ?lg []" by (simp add: wf_log_def new_log_def log_head_def)
  then show ?thesis
    using append_crash_atomic [of ?lg "[]" "[97]" "[1]" full_disk_env OpPut
        "fst (log_append full_disk_env OpPut [97] [1] ?lg)" "snd (log_append full_disk_env OpPut [97] [1] ?lg)" calm_env]
    by (auto simp: fits_def new_log_def)
qed

section \<open>Appending and reading back\<close>

text \<open>
  C20: a record that fits is appended and can be read back at the offset the append returned;
  the log then holds the old records and the new one, in this order and in the same format; and
  every older record is still read at the offset where it was.
\<close>

theorem append_then_read:
  assumes "benign E" and "benign E'" and "wf_log lg es" and "fits key value"
    and "l_eof lg + 19 + length key + length value < 2 ^ 64"
  shows "\<exists>off lg'. log_append E op key value lg = (Inr off, lg') \<and>
    wf_log lg' (es @ [(op, key, value)]) \<and> l_legacy lg' = l_legacy lg \<and>
    read_value_at E' lg' off = Inr (key, value) \<and>
    (\<forall>i < length es. read_value_at E' lg (record_offset lg es i) = Inr (snd (es ! i)) \<and>
       read_value_at E' lg' (record_offset lg es i) = Inr (snd (es ! i)))"
proof -
  from append_wf [OF assms(1,3,4), of op] obtain lg' where
    app: "log_append E op key value lg = (Inr (max (l_eof lg) (if l_legacy lg then 0 else 8)), lg')"
    and wf: "wf_log lg' (es @ [(op, key, value)])" and leg: "l_legacy lg' = l_legacy lg"
    and eof: "l_eof lg' = max (l_eof lg) (if l_legacy lg then 0 else 8) + 11 + length key + length value" .
  have "read_value_at E' lg' (record_offset lg' (es @ [(op, key, value)]) (length es)) = Inr (key, value)"
    by (rule read_record [OF assms(2) wf]) (use eof assms(5) in auto)
  moreover have "record_offset lg' (es @ [(op, key, value)]) (length es) =
      max (l_eof lg) (if l_legacy lg then 0 else 8)"
    using wf eof by (auto simp: record_offset_def wf_log_def)
  moreover have "read_value_at E' lg (record_offset lg es i) = Inr (snd (es ! i)) \<and>
      read_value_at E' lg' (record_offset lg es i) = Inr (snd (es ! i))" if i: "i < length es" for i
  proof -
    obtain op' k v where r: "es ! i = (op', k, v)" by (cases "es ! i")
    have "0 < length (log_bytes (l_legacy lg) es)" using i by auto
    then have "l_eof lg \<noteq> 0" using assms(3) unfolding wf_log_def by (metis add_is_0 length_append not_gr_zero)
    moreover have "l_eof lg' \<noteq> 0" using eof by simp
    ultimately have "record_offset lg' (es @ [(op, key, value)]) i = record_offset lg es i"
      using i leg by (simp add: record_offset_def log_head_def)
    moreover have "l_eof lg < 2 ^ 64" "l_eof lg' < 2 ^ 64" using eof assms(5) by auto
    ultimately show ?thesis
      using read_record [OF assms(2,3) _ i r] read_record [OF assms(2) wf, of i op' k v] i r by (simp add: nth_append)
  qed
  ultimately show ?thesis using app wf leg by auto
qed

theorem append_then_read_witness:
  "\<exists>off lg'. log_append choppy_env OpPut [97] [1, 2] (opened False file_header) = (Inr off, lg') \<and>
     wf_log lg' [(OpPut, [97], [1, 2])] \<and> read_value_at calm_env lg' off = Inr ([97], [1, 2])"
  using append_then_read [OF benign_choppy benign_calm wf_opened [of "[]" False], of "[97]" "[1, 2]" OpPut]
  by (auto simp: fits_def opened_def)

lemma build_payload_misfit:
  assumes "\<not> fits key value" and "length key \<le> 0xFFFF"
    and "2 + length key + length value < (if legacy then 2 ^ 32 else 2 ^ 64)"
  shows "build_payload legacy key value = Inl kInvalidArgument"
proof -
  have "unat (plen_of key value) = 2 + length key + length value" if legacy
    using assms(3) that by (intro unat_plen_of) simp
  moreover have "u64_wrap (2 + length key + length value) = 2 + length key + length value"
    using assms(3) by (intro u64_wrap_id) (simp split: if_splits)
  ultimately show ?thesis
    using assms(1,2) by (auto simp: build_payload_def build_payload_v0_def build_payload_v1_def
        Let_def payload_v0_size_eq fits_def kMaxPayloadBytes_def word_less_nat_alt)
qed

text \<open>
  an append whose key or payload is over the limits is refused with \<open>kInvalidArgument\<close>
  and leaves the records of the log as they were.
\<close>

theorem append_refuses_oversize:
  assumes "benign E" and "wf_log lg es" and "\<not> fits key value"
    and "2 + length key + length value < (if l_legacy lg then 2 ^ 32 else 2 ^ 64)"
  shows "\<exists>lg'. log_append E op key value lg = (Inl kInvalidArgument, lg') \<and> wf_log lg' es"
proof (cases "length key \<le> 0xFFFF")
  case False
  then show ?thesis using assms(2) by (auto simp: log_append_def wf_log_def)
next
  case True
  from ensure_header_wf [OF assms(1,2)] obtain lg1 where h: "ensure_header E lg = (kOk, lg1)"
    and wf: "wf_log lg1 es" and leg: "l_legacy lg1 = l_legacy lg" .
  have "build_payload (l_legacy lg1) key value = Inl kInvalidArgument"
    using build_payload_misfit [OF assms(3) True] assms(4) leg by simp
  then have "log_append E op key value lg = (Inl kInvalidArgument, lg1)"
    using h True assms(2) by (simp add: log_append_def ensure_header_def wf_log_def status_ok_def split: if_splits)
  with wf show ?thesis by auto
qed

theorem append_refuses_oversize_witness:
  "\<exists>lg'. log_append calm_env OpPut [] (replicate 268435455 0) (opened False file_header) =
     (Inl kInvalidArgument, lg') \<and> wf_log lg' []"
  by (rule append_refuses_oversize [OF benign_calm])
     (use wf_opened [of "[]" False] in \<open>simp_all add: fits_def opened_def\<close>)

text \<open>
  iterating over a log calls the callback on exactly its records, in order, each with the
  offset at which it can be read back, and ends with \<open>kOk\<close> (or where the callback stops it).
  Starting at the watermark after the first records visits exactly the others.
\<close>

theorem iterate_visits_records:
  assumes "benign E" and "wf_log lg (es @ fs)"
  shows "iterate E lg cb s = (kOk, visit (l_legacy lg) (l_data_start lg) (es @ fs) cb s) \<and>
    iterate_from E lg (record_offset lg (es @ fs) (length es)) cb s =
      (kOk, visit (l_legacy lg) (record_offset lg (es @ fs) (length es)) fs cb s)"
  using iterate_wf [OF assms, of cb s] iterate_from_wf [OF assms, of cb s]
  by (simp add: record_offset_def)

theorem iterate_visits_records_witness:
  "iterate calm_env (opened False (file_header @ log_bytes False [(OpPut, [97], [1]), (OpDelete, [97], [])]))
     (\<lambda>e s. (True, s @ [(we_op e, we_offset e)])) [] = (kOk, [(OpPut, 8), (OpDelete, 21)])"
proof -
  have "wf_log (opened False (file_header @ log_bytes False [(OpPut, [97], [1]), (OpDelete, [97], [])]))
      ([(OpPut, [97], [1]), (OpDelete, [97], [])] @ [])"
    using wf_opened [of "[(OpPut, [97], [1]), (OpDelete, [97], [])]" False]
    by (simp add: fits_rec_def fits_def)
  from iterate_visits_records [OF benign_calm this,
      of "\<lambda>e s. (True, s @ [(we_op e, we_offset e)])" "[]"] show ?thesis
    by (simp add: opened_def)
qed

section \<open>Damaged bytes\<close>

lemma write_at_middle: "length w' = length w \<Longrightarrow> write_at (x @ w @ y) (length x) w' = x @ w' @ y"
  by (simp add: write_at_def)

lemma frame_crc_burst:
  assumes "length w' = length w" and "length w \<le> 4" and "w' \<noteq> w"
  shows "frame_crc legacy op plen (a @ w' @ b) \<noteq> frame_crc legacy op plen (a @ w @ b)"
  using crc32_burst_neq [OF assms(1) _ assms(3), where pre = "[op] @ put_u32 plen @ a" and post = b and init = "0xFFFFFFFF"]
    crc32_burst_neq [OF assms(1) _ assms(3), where pre = "[op] @ put_u32_be plen @ a" and post = b and init = "0xFFFFFFFF"] assms(1,2)
  by (auto simp: frame_crc_def crc_frame_v0_def crc_frame_v1_def)

text \<open>A frame whose checksum does not match its payload is refused by the reader.\<close>

lemma read_value_at_bad_crc:
  assumes "benign E" and "fits key value" and "l_fd lg" and "length (f_data (l_file lg)) = l_eof lg"
    and "l_eof lg < 2 ^ 64" and "l_data_start lg \<le> length pre"
    and "f_data (l_file lg) = pre @ frame_hdr_of (l_legacy lg) (op, key, value) @ p @ post"
    and "length p = 2 + length key + length value"
    and "frame_crc (l_legacy lg) (op_raw op) (plen_of key value) p \<noteq>
         frame_crc (l_legacy lg) (op_raw op) (plen_of key value) (payload_bytes (l_legacy lg) key value)"
  shows "read_value_at E lg (length pre) = Inl kCorruption"
proof -
  let ?h = "frame_hdr_of (l_legacy lg) (op, key, value)"
  have len: "length pre + 9 + (2 + length key + length value) \<le> l_eof lg"
    using assms(4,7,8) by auto
  have hdr: "pread_all E (f_data (l_file lg)) (length pre) 9 = Some ?h"
    unfolding assms(7) by (rule pread_at [OF assms(1)]) simp_all
  have "pread_all E ((pre @ ?h) @ p @ post) (length pre + 9) (Suc (Suc (length key + length value))) = Some p"
    by (rule pread_at [OF assms(1)]) (simp_all add: assms(8))
  then have body: "pread_all E (f_data (l_file lg)) (length pre + 9) (Suc (Suc (length key + length value))) = Some p"
    by (simp add: assms(7))
  show ?thesis
    using len plen_of_fits [OF assms(2)] assms(3,5,6,9)
    by (simp add: read_value_at_def hdr body Let_def)
qed

text \<open>
  damage is never read back as data. If up to four consecutive bytes of a record's payload
  (key length, key or value) are overwritten with other bytes, reading the record at its
  offset reports corruption.
\<close>

theorem damaged_record_detected:
  assumes "benign E" and "wf_log lg es" and "l_eof lg < 2 ^ 64" and "i < length es"
    and "es ! i = (op, key, value)" and "payload_bytes (l_legacy lg) key value = a @ w @ b"
    and "length w' = length w" and "length w \<le> 4" and "w' \<noteq> w"
    and "damaged = write_at (f_data (l_file lg)) (record_offset lg es i + 9 + length a) w'"
  shows "read_value_at E (lg\<lparr>l_file := (l_file lg)\<lparr>f_data := damaged\<rparr>\<rparr>) (record_offset lg es i) =
    Inl kCorruption"
proof -
  let ?l = "l_legacy lg" and ?pre = "log_head lg @ log_bytes (l_legacy lg) (take i es)"
  let ?h = "frame_hdr_of ?l (op, key, value)" and ?post = "log_bytes ?l (drop (Suc i) es)"
  have "fits_rec (es ! i)" using assms(2,4) by (simp add: wf_log_def)
  then have fit: "fits key value" by (simp add: assms(5) fits_rec_def)
  have "f_data (l_file lg) = (?pre @ ?h @ a) @ w @ (b @ ?post)"
    using assms(2,5,6) log_bytes_split [OF assms(4)] by (simp add: wf_log_def encode_frame_split)
  moreover have "record_offset lg es i + 9 + length a = length (?pre @ ?h @ a)"
    by (simp add: record_offset_def)
  ultimately have dam: "damaged = (?pre @ ?h @ a) @ w' @ (b @ ?post)"
    and size: "length damaged = length (f_data (l_file lg))"
    unfolding assms(10) by (simp_all only: write_at_middle [OF assms(7)]) (simp_all add: assms(7))
  have plen: "length (a @ w' @ b) = 2 + length key + length value"
    using arg_cong [OF assms(6), of length] assms(7) by (simp add: length_payload_bytes)
  have "read_value_at E (lg\<lparr>l_file := (l_file lg)\<lparr>f_data := damaged\<rparr>\<rparr>) (length ?pre) = Inl kCorruption"
    by (rule read_value_at_bad_crc [OF assms(1) fit, where p = "a @ w' @ b" and post = ?post and op = op])
       (use assms(2,3) dam size plen frame_crc_burst [OF assms(7-9), of ?l "op_raw op" "plen_of key value" a b]
         assms(6) in \<open>auto simp: wf_log_def\<close>)
  then show ?thesis by (simp add: record_offset_def)
qed

theorem damaged_record_detected_witness:
  "let lg = opened False (file_header @ log_bytes False [(OpPut, [97], [1, 2, 3])])
   in read_value_at calm_env
        (lg\<lparr>l_file := (l_file lg)\<lparr>f_data := write_at (f_data (l_file lg)) 20 [9, 9]\<rparr>\<rparr>) 8 = Inl kCorruption"
proof -
  let ?es = "[(OpPut, [97], [1, 2, 3])]"
  let ?lg = "opened False (file_header @ log_bytes False ?es)"
  have wf: "wf_log ?lg ?es" using wf_opened [of ?es False] by (simp add: fits_rec_def fits_def)
  have off: "record_offset ?lg ?es 0 = 8" by (simp add: record_offset_def log_head_def opened_def)
  show ?thesis
    using damaged_record_detected [OF benign_calm wf, of 0 OpPut "[97]" "[1, 2, 3]" "[0, 1, 97]" "[1, 2]" "[3]" "[9, 9]"
        "write_at (f_data (l_file ?lg)) 20 [9, 9]"]
    unfolding off Let_def by (simp add: opened_def payload_bytes_def put_defs)
qed

end
