(* ===== verification/Log_Repair.thy ===== *)
theory Log_Repair
  imports Log_Recovery
begin

text \<open>
  The repair on arbitrary files, well-formed or not: it only ever cuts bytes off the end, a
  second open changes nothing, and what it leaves is a chain of frames that pass every check.
  The theory also states the cases in which opening or appending loses data.
\<close>

section \<open>Frames that pass the checks\<close>

definition good_frame :: "bool \<Rightarrow> bytes \<Rightarrow> nat \<Rightarrow> nat \<Rightarrow> bool" where
  "good_frame legacy data c nxt \<longleftrightarrow>
     (let h = take 9 (drop c data); plen = unat (hdr_len legacy h); p = take plen (drop (c + 9) data)
      in is_valid_op (hdr_op h) \<and> 2 \<le> plen \<and> hdr_len legacy h \<le> kMaxPayloadBytes \<and>
         nxt = c + 9 + plen \<and> nxt \<le> length data \<and>
         frame_crc legacy (hdr_op h) (hdr_len legacy h) p = hdr_crc legacy h)"

lemma good_frame_bounds: "good_frame legacy data c nxt \<Longrightarrow> c + 11 \<le> nxt \<and> nxt \<le> length data"
  by (auto simp: good_frame_def Let_def)

lemma good_frame_take:
  assumes "good_frame legacy data c nxt" and "nxt \<le> n" and "n \<le> length data"
  shows "good_frame legacy (take n data) c nxt"
proof -
  let ?h = "take 9 (drop c data)"
  have "take 9 (drop c (take n data)) = ?h"
    using good_frame_bounds [OF assms(1)] assms(2) by (auto simp: drop_take min_def)
  moreover have "take (unat (hdr_len legacy ?h)) (drop (c + 9) (take n data)) =
      take (unat (hdr_len legacy ?h)) (drop (c + 9) data)"
    using assms(1,2) by (auto simp: good_frame_def Let_def drop_take min_def)
  ultimately show ?thesis
    using assms by (auto simp: good_frame_def Let_def)
qed

lemma repair_good:
  assumes "benign E" and "length data < 2 ^ 64" and "good_frame legacy data c nxt"
  shows "repair_loop E data legacy (length data) c g = repair_loop E data legacy (length data) nxt nxt"
proof -
  note b = good_frame_bounds [OF assms(3)]
  have reads: "pread_all E data c 9 = Some (take 9 (drop c data))"
    "pread_all E data (c + 9) (nxt - (c + 9)) = Some (take (nxt - (c + 9)) (drop (c + 9) data))"
    using b by (auto intro!: pread_all_benign [OF assms(1)])
  have plen: "unat (hdr_len legacy (take 9 (drop c data))) = nxt - (c + 9)"
    using assms(3) by (auto simp: good_frame_def Let_def)
  show ?thesis
    using assms(2,3) b by (subst repair_loop.simps)
      (auto simp: reads plen good_frame_def Let_def)
qed

lemma repair_bad:
  assumes "benign E" and "c < length data" and "\<And>nxt. \<not> good_frame legacy data c nxt"
  shows "repair_loop E data legacy (length data) c g \<in> {RepairTruncate g, RepairCorrupt}"
proof (cases "length data - c < 9")
  case True
  then show ?thesis using assms(2) by (subst repair_loop.simps) simp
next
  case False
  let ?h = "take 9 (drop c data)"
  have hdr: "pread_all E data c 9 = Some ?h"
    using False by (auto intro!: pread_all_benign [OF assms(1)])
  let ?len = "hdr_len legacy ?h" and ?op = "hdr_op ?h"
  show ?thesis
  proof (cases "is_valid_op ?op \<and> 2 \<le> unat ?len \<and> ?len \<le> kMaxPayloadBytes \<and> c + 9 + unat ?len \<le> length data")
    case True
    then have body: "pread_all E data (c + 9) (unat ?len) = Some (take (unat ?len) (drop (c + 9) data))"
      by (auto intro!: pread_all_benign [OF assms(1)])
    have "frame_crc legacy ?op ?len (take (unat ?len) (drop (c + 9) data)) \<noteq> hdr_crc legacy ?h"
      using assms(3) [of "c + 9 + unat ?len"] True by (auto simp: good_frame_def Let_def)
    with True False assms(2) show ?thesis
      by (subst repair_loop.simps) (simp add: hdr body Let_def)
  next
    case bad: False
    then have "\<not> is_valid_op ?op \<or> unat ?len < 2 \<or> kMaxPayloadBytes < ?len \<or> length data < c + 9 + unat ?len"
      by auto
    with False assms(2) show ?thesis
      by (subst repair_loop.simps) (cases legacy; elim disjE; simp add: hdr Let_def)
  qed
qed

text \<open>Where the repair cuts, a second repair walks off the end without complaint.\<close>

lemma repair_truncate_clean:
  assumes "benign E" and "benign E'"
  shows "repair_loop E data legacy (length data) c c = RepairTruncate n \<Longrightarrow> length data < 2 ^ 64 \<Longrightarrow>
    c \<le> length data \<Longrightarrow> c \<le> n \<and> n \<le> length data \<and>
    repair_loop E' (take n data) legacy n c c = RepairClean"
proof (induction "length data - c" arbitrary: c rule: less_induct)
  case less
  show ?case
  proof (cases "\<exists>nxt. good_frame legacy data c nxt")
    case True
    then obtain nxt where good: "good_frame legacy data c nxt" ..
    note b = good_frame_bounds [OF good]
    have "nxt \<le> n \<and> n \<le> length data \<and> repair_loop E' (take n data) legacy n nxt nxt = RepairClean"
      using less.hyps [of nxt] less.prems b repair_good [OF assms(1) less.prems(2) good] by auto
    moreover from this have "length (take n data) = n" by simp
    ultimately show ?thesis
      using repair_good [OF assms(2), of "take n data" legacy c nxt c] good_frame_take [OF good, of n] b
        less.prems(2) by auto
  next
    case False
    show ?thesis
    proof (cases "c < length data")
      case True
      then have "n = c" using repair_bad [OF assms(1) True, of legacy c] False less.prems(1) by auto
      then show ?thesis using less.prems(3) by (subst repair_loop.simps) auto
    next
      case False
      then show ?thesis using less.prems(1) by (subst (asm) repair_loop.simps) simp
    qed
  qed
qed

lemma repair_clean_any:
  assumes "benign E" and "benign E'"
  shows "repair_loop E data legacy (length data) c c = RepairClean \<Longrightarrow> length data < 2 ^ 64 \<Longrightarrow>
    repair_loop E' data legacy (length data) c c = RepairClean"
proof (induction "length data - c" arbitrary: c rule: less_induct)
  case less
  show ?case
  proof (cases "c < length data")
    case True
    then obtain nxt where good: "good_frame legacy data c nxt"
      using repair_bad [OF assms(1) True, of legacy c] less.prems(1) by auto
    then show ?thesis
      using less repair_good [OF _ less.prems(2) good] assms good_frame_bounds [OF good] True by auto
  next
    case False
    then show ?thesis by (subst repair_loop.simps) simp
  qed
qed

section \<open>Opening any file\<close>

text \<open>
  opening a log never writes anything but a truncation: whatever the file holds and
  whatever the system calls do, afterwards it holds a prefix of what it held, and all of it
  unless the open reported success.
\<close>

theorem open_only_truncates:
  assumes "log_open E disk new_log = (st, lg)" and "l_fd lg"
  shows "\<exists>n. f_data (l_file lg) = take n disk \<and> (st \<noteq> kOk \<longrightarrow> f_data (l_file lg) = disk)"
proof -
  have tail: "\<exists>n. f_data (l_file lg') = take n (f_data (l_file l)) \<and>
      (st' \<noteq> kOk \<longrightarrow> f_data (l_file lg') = f_data (l_file l))"
    if "repair_truncate_tail E l = (st', lg')" for l st' lg'
    using that by (auto simp: repair_truncate_tail_def refresh_eof_def Let_def
        split: repair_result.splits if_splits) (metis order_refl take_all)+
  have id: "\<exists>n. disk = take n disk" by (metis order_refl take_all)
  show ?thesis
    using assms by (auto simp: log_open_def open_and_repair_def new_log_def Let_def id
        split: if_splits option.splits dest!: tail)
qed

theorem open_only_truncates_witness:
  "\<exists>n. f_data (l_file (snd (log_open calm_env [1, 2, 3] new_log))) = take n [1, 2, 3] \<and>
     (fst (log_open calm_env [1, 2, 3] new_log) \<noteq> kOk \<longrightarrow>
      f_data (l_file (snd (log_open calm_env [1, 2, 3] new_log))) = [1, 2, 3])"
proof (rule open_only_truncates)
  have "repair_loop calm_env [1, 2, 3] True (Suc (Suc (Suc 0))) 0 0 = RepairTruncate 0"
    by (simp add: repair_loop.simps)
  then show "l_fd (snd (log_open calm_env [1, 2, 3] new_log))"
    by (simp add: log_open_legacy repair_truncate_tail_benign refresh_eof_def Let_def opened_def)
qed simp

lemma log_open_cases:
  assumes "benign E" and "disk \<noteq> []"
  shows "\<exists>lg. log_open E disk new_log =
    (if length disk < 8 \<or> \<not> magic_is_v2 (take 8 disk) then repair_truncate_tail E (opened True disk)
     else if get_u16_be (drop 4 (take 8 disk)) \<noteq> kWalFormatVersion then (kCorruption, lg)
     else repair_truncate_tail E (opened False disk))"
proof -
  have seek: "sys_lseek E" using assms(1) by (simp add: benign_def)
  have "pread_all E disk 0 8 = Some (take 8 disk)" if "\<not> length disk < 8"
    using that by (subst pread_all_benign [OF assms(1)]) auto
  then show ?thesis
    unfolding log_open_fresh [OF assms(1)]
    using seek assms(2) by (auto simp: open_and_repair_def new_log_def Let_def opened_def)
qed

lemma repair_opened_again:
  assumes "benign E" and "benign E'" and "length disk < 2 ^ 64"
    and "(if legacy then 0 else 8) \<le> length disk"
    and "repair_truncate_tail E (opened legacy disk) = (kOk, lg)"
  obtains n where "(if legacy then 0 else 8) \<le> n" and "n \<le> length disk"
    and "lg = opened legacy (take n disk)"
    and "repair_truncate_tail E' (opened legacy (take n disk)) = (kOk, opened legacy (take n disk))"
proof -
  let ?s = "if legacy then 0 else 8 :: nat"
  have tail: "repair_truncate_tail F (opened legacy d) =
    (case repair_loop F d legacy (length d) ?s ?s of
       RepairClean \<Rightarrow> (kOk, opened legacy d)
     | RepairCorrupt \<Rightarrow> (kCorruption, opened legacy d)
     | RepairTruncate n \<Rightarrow>
         (kOk, refresh_eof F ((opened legacy d)\<lparr>l_file := (l_file (opened legacy d))\<lparr>f_data := take n d\<rparr>\<rparr>)))"
    if "benign F" for F d
    unfolding repair_truncate_tail_benign [OF that]
    by (simp add: opened_def split: repair_result.split)
  show ?thesis
  proof (cases "repair_loop E disk legacy (length disk) ?s ?s")
    case RepairClean
    have "repair_loop E' disk legacy (length disk) ?s ?s = RepairClean"
      by (rule repair_clean_any [OF assms(1,2) RepairClean assms(3)])
    then show ?thesis
      using assms(4,5) RepairClean tail [OF assms(1), of disk] tail [OF assms(2), of disk]
      by (intro that [of "length disk"]) simp_all
  next
    case (RepairTruncate n)
    from repair_truncate_clean [OF assms(1,2) RepairTruncate assms(3,4)] have n: "?s \<le> n" "n \<le> length disk"
      and clean: "repair_loop E' (take n disk) legacy n ?s ?s = RepairClean" by blast+
    have "repair_truncate_tail E' (opened legacy (take n disk)) = (kOk, opened legacy (take n disk))"
      using tail [OF assms(2), of "take n disk"] clean n(2) by (simp only: length_take min.absorb2) simp
    then show ?thesis
      using assms(5) n RepairTruncate refresh_eof_opened [OF assms(1) n(2)] tail [OF assms(1), of disk]
      by (intro that [of n]) simp_all
  next
    case RepairCorrupt
    then show ?thesis using assms(5) tail [OF assms(1), of disk] by simp
  qed
qed

text \<open>
  opening is idempotent. A file left behind by a successful open is opened again
  successfully and keeps every byte.
\<close>

theorem open_idempotent:
  assumes "benign E" and "benign E'" and "length disk < 2 ^ 63"
    and "log_open E disk new_log = (kOk, lg)"
  shows "\<exists>lg'. log_open E' (f_data (l_file lg)) new_log = (kOk, lg') \<and>
    f_data (l_file lg') = f_data (l_file lg)"
proof (cases "disk = []")
  case True
  then have "f_data (l_file lg) = []"
    using assms(4) log_open_empty [OF assms(1)] by (auto simp: new_log_def)
  then show ?thesis using log_open_empty [OF assms(2)] by (simp add: new_log_def)
next
  case False
  let ?leg = "length disk < 8 \<or> \<not> magic_is_v2 (take 8 disk)"
  have size: "length disk < 2 ^ 64" using assms(3) by simp
  have tail: "repair_truncate_tail E (opened ?leg disk) = (kOk, lg)"
    and v: "?leg \<or> get_u16_be (drop 4 (take 8 disk)) = kWalFormatVersion"
    using log_open_cases [OF assms(1) False] assms(4) by (cases ?leg; auto split: if_splits)+
  have "(if ?leg then 0 else 8) \<le> length disk" by auto
  from repair_opened_again [OF assms(1,2) size this tail] obtain n where n: "(if ?leg then 0 else 8) \<le> n"
    "n \<le> length disk" and lg: "lg = opened ?leg (take n disk)"
    and again: "repair_truncate_tail E' (opened ?leg (take n disk)) = (kOk, opened ?leg (take n disk))" .
  have data: "f_data (l_file lg) = take n disk" by (simp add: lg opened_def)
  show ?thesis
  proof (cases "take n disk = []")
    case True
    then show ?thesis using log_open_empty [OF assms(2)] unfolding data True by (simp add: new_log_def)
  next
    case nonempty: False
    have "(length (take n disk) < 8 \<or> \<not> magic_is_v2 (take 8 (take n disk))) = ?leg"
      and "?leg \<or> take 8 (take n disk) = take 8 disk"
      using n by (auto simp: min_def split: if_splits)
    then have "log_open E' (take n disk) new_log = repair_truncate_tail E' (opened ?leg (take n disk))"
      using log_open_cases [OF assms(2) nonempty] v by (cases ?leg) (auto split: if_splits)
    then show ?thesis using again by (simp add: data opened_def)
  qed
qed

theorem open_idempotent_witness:
  "\<exists>lg'. log_open choppy_env (f_data (l_file (opened False file_header))) new_log = (kOk, lg') \<and>
     f_data (l_file lg') = f_data (l_file (opened False file_header))"
proof (rule open_idempotent [OF benign_calm benign_choppy, of file_header])
  show "log_open calm_env file_header new_log = (kOk, opened False file_header)"
    using log_open_v2 [OF benign_calm, of file_header "[]"]
    by (simp add: repair_truncate_tail_benign opened_def repair_loop.simps)
qed simp

section \<open>Where data is lost\<close>

text \<open>
  a read error while opening deletes data. If the read of the first frame header fails,
  the open reports success and has truncated the file to its header, however many complete
  records it held.
\<close>

theorem open_read_error_truncates:
  assumes "es \<noteq> []" and "disk = file_header @ log_bytes False es"
  shows "log_open (calm_env\<lparr>sys_pread := (\<lambda>off len. if off = 8 then [IoFail] else [])\<rparr>) disk new_log =
    (kOk, opened False file_header)"
proof -
  let ?E = "calm_env\<lparr>sys_pread := (\<lambda>off len. if off = 8 then [IoFail] else [])\<rparr>"
  have len: "19 \<le> length disk"
    using assms length_encode_frame_ge [of False] by (cases es) (auto simp: trans_le_add1)
  have "pread_all ?E disk 0 8 = Some file_header"
    using assms(2) by (simp add: pread_all_def calm_env_def)
  moreover have "pread_all ?E disk 8 9 = None"
    by (simp add: pread_all_def)
  then have "repair_loop ?E disk False (length disk) 8 8 = RepairTruncate 8"
    using len by (subst repair_loop.simps) simp
  moreover have "take 8 disk = file_header" by (simp add: assms(2))
  moreover have "disk \<noteq> []" "\<not> length disk < 8" using len by auto
  ultimately show ?thesis
    by (simp add: log_open_def open_and_repair_def new_log_def Let_def calm_env_def file_header_accepted
        repair_truncate_tail_def refresh_eof_def opened_def)
qed

theorem open_read_error_truncates_witness:
  "log_open (calm_env\<lparr>sys_pread := (\<lambda>off len. if off = 8 then [IoFail] else [])\<rparr>)
     (file_header @ log_bytes False [(OpPut, [97], [1]), (OpPut, [98], [2])]) new_log =
   (kOk, opened False file_header)"
  using open_read_error_truncates [of "[(OpPut, [97], [1]), (OpPut, [98], [2])]", OF _ refl] by simp

text \<open>
  a damaged length field deletes the records behind it. If the length of the first frame
  reads as a value within the payload limit that reaches past the end of the file, the open
  reports success and truncates the file to its header, although complete records may follow
  in \<open>rest\<close>; the frame is taken for a torn tail and its checksum is never looked at.
\<close>

theorem damaged_length_truncates:
  assumes "benign E" and "is_valid_op op" and "length crc = 4" and "2 \<le> unat len" and "len \<le> kMaxPayloadBytes"
    and "disk = file_header @ [op] @ crc @ put_u32_be len @ rest"
    and "length disk < 17 + unat len" and "length disk < 2 ^ 63"
  shows "log_open E disk new_log = (kOk, opened False file_header)"
proof -
  let ?h = "[op] @ crc @ put_u32_be len"
  have "pread_all E (file_header @ ?h @ rest) 8 9 = Some ?h"
    by (rule pread_at [OF assms(1)]) (simp_all add: assms(3))
  then have hdr: "pread_all E disk 8 9 = Some ?h" by (simp add: assms(6))
  have fields: "hdr_op ?h = op" "hdr_len False ?h = len"
    using assms(3) by (simp_all add: hdr_op_def hdr_len_def)
  have wrap: "\<not> u64_wrap (17 + unat len) < 8"
    using assms(5) by (subst u64_wrap_id) (auto simp: word_le_nat_alt kMaxPayloadBytes_def)
  have "17 \<le> length disk" using assms(3) by (simp add: assms(6))
  then have "repair_loop E disk False (length disk) 8 8 = RepairTruncate 8"
    using assms(2-5,7) wrap by (subst repair_loop.simps)
      (simp add: hdr fields [simplified] Let_def not_less)
  then show ?thesis
    using log_open_v2 [OF assms(1), of disk "?h @ rest"] refresh_eof_opened [OF assms(1), of 8 disk False] assms(6)
    by (simp add: repair_truncate_tail_benign [OF assms(1)] opened_def)
qed

theorem damaged_length_truncates_witness:
  "log_open calm_env
     (file_header @ [1] @ [0, 0, 0, 0] @ put_u32_be 255 @ log_bytes False [(OpPut, [98], [2])]) new_log =
   (kOk, opened False file_header)"
  by (rule damaged_length_truncates [OF _ _ _ _ _ refl]) (simp_all add: is_valid_op_def kMaxPayloadBytes_def)

text \<open>
  a failed append misplaces the next one. The payload write fails after the frame header
  went out; the append reports the error and keeps \<open>eof\<close>, but nothing takes the nine bytes
  back. The next append succeeds and returns the offset \<open>l_eof lg\<close>, while its frame lies nine
  bytes further on, behind the orphaned header, and \<open>eof\<close> lags behind the file by nine bytes.
\<close>

theorem failed_append_misplaces_next:
  assumes "benign E" and "wf_log lg es" and "0 < l_eof lg" and "fits k v" and "fits k' v'"
    and "\<forall>off. sys_write E' off 9 = []" and "\<forall>off. sys_write E' off (2 + length k + length v) = [IoFail]"
  shows "\<exists>lg1 lg2. log_append E' op k v lg = (Inl kIOError, lg1) \<and>
     log_append E op' k' v' lg1 = (Inr (l_eof lg), lg2) \<and>
     f_data (l_file lg2) = f_data (l_file lg) @ frame_hdr_of (l_legacy lg) (op, k, v) @
       encode_frame (l_legacy lg) (op', k', v') \<and>
     l_eof lg2 + 9 = length (f_data (l_file lg2))"
proof -
  let ?f = "(l_file lg)\<lparr>f_data := f_data (l_file lg) @ frame_hdr_of (l_legacy lg) (op, k, v),
              f_pos := l_eof lg + 9\<rparr>"
  let ?lg1 = "lg\<lparr>l_file := ?f\<rparr>"
  have lg: "l_fd lg" "length (f_data (l_file lg)) = l_eof lg" "f_pos (l_file lg) = l_eof lg"
    using assms(2) by (auto simp: wf_log_def)
  have len: "length k \<le> 0xFFFF" "length k' \<le> 0xFFFF" using assms(4,5) by (auto simp: fits_def)
  have head: "ensure_header F lg = (kOk, lg)" "ensure_header F ?lg1 = (kOk, ?lg1)" for F
    using assms(3) by (auto simp: ensure_header_def)
  have ne: "payload_bytes b x y \<noteq> []" for b x y by (simp add: payload_bytes_def put_defs)
  have one: "log_append E' op k v lg = (Inl kIOError, ?lg1)"
    unfolding log_append_unfold [OF lg(1) len(1) head(1) build_payload_fits [OF assms(4)], of E' op] plen_payload
    using assms(6,7) lg ne
    by (simp add: Let_def write_all_def length_payload_bytes frame_hdr_of_def)
  have fd: "l_fd ?lg1" using lg(1) by simp
  have leg: "l_legacy ?lg1 = l_legacy lg" by simp
  note app = log_append_unfold [OF fd len(2) head(2), unfolded leg, OF build_payload_fits [OF assms(5)], of E op']
  have two: "log_append E op' k' v' ?lg1 = (Inr (l_eof lg),
      ?lg1\<lparr>l_file := ?f\<lparr>f_data := f_data ?f @ encode_frame (l_legacy lg) (op', k', v'),
             f_pos := f_pos ?f + length (encode_frame (l_legacy lg) (op', k', v'))\<rparr>,
           l_eof := l_eof lg + length (encode_frame (l_legacy lg) (op', k', v'))\<rparr>)"
    unfolding app plen_payload
    using lg ne by (simp add: write_all_benign [OF assms(1)] Let_def encode_frame_split frame_hdr_of_def
        length_payload_bytes add.commute add.left_commute)
  show ?thesis using one two lg by (intro exI conjI) auto
qed

theorem failed_append_misplaces_next_witness:
  "\<exists>lg1 lg2. log_append (calm_env\<lparr>sys_write := (\<lambda>off n. if n = 9 then [] else [IoFail])\<rparr>) OpPut [97] [1]
       (opened False file_header) = (Inl kIOError, lg1) \<and>
     log_append calm_env OpPut [98] [2] lg1 = (Inr 8, lg2) \<and>
     f_data (l_file lg2) = file_header @ frame_hdr_of False (OpPut, [97], [1]) @
       encode_frame False (OpPut, [98], [2]) \<and>
     l_eof lg2 + 9 = length (f_data (l_file lg2))"
  using failed_append_misplaces_next [of calm_env "opened False file_header" "[]" "[97]" "[1]" "[98]" "[2]"
      "calm_env\<lparr>sys_write := (\<lambda>off n. if n = 9 then [] else [IoFail])\<rparr>" OpPut OpPut]
    wf_opened [of "[]" False]
  by (simp add: fits_def opened_def)

end
