(* ===== verification/Entry_Meta.thy ===== *)
theory Entry_Meta
  imports Lumina_Prelude "HOL-Library.Multiset"
begin

text \<open>
  The value of a vector entry in the log: \<^verbatim>\<open>include/lumina/storage/entry_meta.h\<close> and
  \<^verbatim>\<open>src/storage/entry_meta.cpp\<close>. An \<open>int64_t\<close> is its two's complement word, a
  \<open>float\<close> or \<open>double\<close> its IEEE bit pattern (the code only copies them), a
  \<open>std::string\<close> its bytes. The host is little endian, as the on-disk layout assumes.

  The encoder sorts the scalar fields by name with \<open>std::sort\<close>, which leaves the order of
  equal names open. The sort is therefore a parameter \<open>srt\<close>, with the contract of
  \<open>std::sort\<close> as the locale \<open>name_sort\<close>; \<open>sort_key\<close> interprets it.
\<close>

section \<open>Data\<close>

datatype scalar_value = VInt u64 | VDouble u64 | VStr bytes

record scalar_field =
  sf_name :: bytes
  sf_value :: scalar_value

record entry_meta =
  em_vec :: "u32 list"
  em_payload :: bytes
  em_scalars :: "scalar_field list"

definition kFlagsVec :: u32 where "kFlagsVec = 1"
definition kFlagsPayload :: u32 where "kFlagsPayload = 2"
definition kFlagsScalars :: u32 where "kFlagsScalars = 4"
definition kFlagsKnown :: u32 where
  "kFlagsKnown = kFlagsVec OR kFlagsPayload OR kFlagsScalars"

definition kMaxVecLen :: nat where "kMaxVecLen = 64 * 1024"
definition kMaxPayloadLen :: nat where "kMaxPayloadLen = 256 * 1024 * 1024"
definition kMaxScalarCount :: nat where "kMaxScalarCount = 65536"

lemmas em_consts = kFlagsVec_def kFlagsPayload_def kFlagsScalars_def kFlagsKnown_def
  kMaxVecLen_def kMaxPayloadLen_def kMaxScalarCount_def

section \<open>Encoder\<close>

fun scalar_index :: "scalar_value \<Rightarrow> byte" where
  "scalar_index (VInt _) = 0"
| "scalar_index (VDouble _) = 1"
| "scalar_index (VStr _) = 2"

fun put_value :: "scalar_value \<Rightarrow> bytes result" where
  "put_value (VInt v) = Inr (put_u64 v)"
| "put_value (VDouble bits) = Inr (put_u64 bits)"
| "put_value (VStr s) =
     (if length s > 2 ^ 32 - 1 then Inl kInvalidArgument
      else Inr (put_u32 (of_nat (length s)) @ s))"

fun put_scalars :: "scalar_field list \<Rightarrow> bytes result" where
  "put_scalars [] = Inr []"
| "put_scalars (f # fs) =
     (if length (sf_name f) > 0xFFFF then Inl kInvalidArgument
      else case put_value (sf_value f) of
        Inl e \<Rightarrow> Inl e
      | Inr v \<Rightarrow>
         (case put_scalars fs of
            Inl e \<Rightarrow> Inl e
          | Inr rest \<Rightarrow>
              Inr (put_u8 (scalar_index (sf_value f)) @ put_u16 (of_nat (length (sf_name f))) @
                   sf_name f @ v @ rest)))"

definition meta_flags :: "entry_meta \<Rightarrow> u32" where
  "meta_flags m =
     (if em_vec m \<noteq> [] then kFlagsVec else 0) OR
     (if em_payload m \<noteq> [] then kFlagsPayload else 0) OR
     (if em_scalars m \<noteq> [] then kFlagsScalars else 0)"

definition encode_entry_meta ::
  "(scalar_field list \<Rightarrow> scalar_field list) \<Rightarrow> entry_meta \<Rightarrow> bytes result" where
  "encode_entry_meta srt m =
     (if length (em_vec m) > kMaxVecLen then Inl kInvalidArgument
      else if length (em_payload m) > kMaxPayloadLen then Inl kInvalidArgument
      else if length (em_scalars m) > kMaxScalarCount then Inl kInvalidArgument
      else
        let flags = meta_flags m;
            vec = (if flags AND kFlagsVec \<noteq> 0
                   then put_u32 (of_nat (length (em_vec m))) @ concat (map put_u32 (em_vec m))
                   else []);
            payload = (if flags AND kFlagsPayload \<noteq> 0
                       then put_u32 (of_nat (length (em_payload m))) @ em_payload m
                       else [])
        in if flags AND kFlagsScalars \<noteq> 0
           then case put_scalars (srt (em_scalars m)) of
                  Inl e \<Rightarrow> Inl e
                | Inr fbytes \<Rightarrow>
                    Inr (put_u32 flags @ vec @ payload @
                         put_u16 (of_nat (length (em_scalars m))) @ fbytes)
           else Inr (put_u32 flags @ vec @ payload))"

section \<open>Decoder\<close>

text \<open>\<open>Reader\<close>: a bounded cursor over the buffer; every read checks its bounds.\<close>

record reader =
  rd_buf :: bytes
  rd_pos :: nat

definition rd_remaining :: "reader \<Rightarrow> nat" where
  "rd_remaining r = length (rd_buf r) - rd_pos r"

definition rd_take :: "nat \<Rightarrow> reader \<Rightarrow> (bytes \<times> reader) option" where
  "rd_take n r =
     (if n > rd_remaining r then None
      else Some (take n (drop (rd_pos r) (rd_buf r)), r\<lparr>rd_pos := rd_pos r + n\<rparr>))"

definition take_u8 :: "reader \<Rightarrow> (byte \<times> reader) option" where
  "take_u8 r = map_option (\<lambda>(b, r'). (b ! 0, r')) (rd_take 1 r)"

definition take_u16 :: "reader \<Rightarrow> (u16 \<times> reader) option" where
  "take_u16 r = map_option (\<lambda>(b, r'). (get_u16_le b, r')) (rd_take 2 r)"

definition take_u32 :: "reader \<Rightarrow> (u32 \<times> reader) option" where
  "take_u32 r = map_option (\<lambda>(b, r'). (get_u32_le b, r')) (rd_take 4 r)"

definition take_u64 :: "reader \<Rightarrow> (u64 \<times> reader) option" where
  "take_u64 r = map_option (\<lambda>(b, r'). (get_u64_le b, r')) (rd_take 8 r)"

definition take_value :: "byte \<Rightarrow> reader \<Rightarrow> (scalar_value \<times> reader) result" where
  "take_value type r =
     (if type = 0 then
        (case take_u64 r of None \<Rightarrow> Inl kCorruption | Some (raw, r) \<Rightarrow> Inr (VInt raw, r))
      else if type = 1 then
        (case take_u64 r of None \<Rightarrow> Inl kCorruption | Some (raw, r) \<Rightarrow> Inr (VDouble raw, r))
      else if type = 2 then
        (case take_u32 r of
           None \<Rightarrow> Inl kCorruption
         | Some (slen, r) \<Rightarrow>
            (case rd_take (unat slen) r of None \<Rightarrow> Inl kCorruption | Some (s, r) \<Rightarrow> Inr (VStr s, r)))
      else Inl kCorruption)"

fun take_scalars :: "nat \<Rightarrow> reader \<Rightarrow> (scalar_field list \<times> reader) result" where
  "take_scalars 0 r = Inr ([], r)"
| "take_scalars (Suc n) r =
     (case take_u8 r of
        None \<Rightarrow> Inl kCorruption
      | Some (type, r) \<Rightarrow>
         (case take_u16 r of
            None \<Rightarrow> Inl kCorruption
          | Some (key_len, r) \<Rightarrow>
             (case rd_take (unat key_len) r of
                None \<Rightarrow> Inl kCorruption
              | Some (key, r) \<Rightarrow>
                 (case take_value type r of
                    Inl e \<Rightarrow> Inl e
                  | Inr (v, r) \<Rightarrow>
                     (case take_scalars n r of
                        Inl e \<Rightarrow> Inl e
                      | Inr (fs, r) \<Rightarrow> Inr (\<lparr>sf_name = key, sf_value = v\<rparr> # fs, r))))))"

text \<open>The \<open>memcpy\<close> of the vector bytes into an array of floats.\<close>

fun floats_of :: "nat \<Rightarrow> bytes \<Rightarrow> u32 list" where
  "floats_of 0 bs = []"
| "floats_of (Suc n) bs = get_u32_le (take 4 bs) # floats_of n (drop 4 bs)"

definition take_vec :: "u32 \<Rightarrow> reader \<Rightarrow> (u32 list \<times> reader) result" where
  "take_vec flags r =
     (if flags AND kFlagsVec = 0 then Inr ([], r)
      else case take_u32 r of
        None \<Rightarrow> Inl kCorruption
      | Some (vec_len, r) \<Rightarrow>
          if unat vec_len > kMaxVecLen then Inl kCorruption
          else case rd_take (unat vec_len * 4) r of
            None \<Rightarrow> Inl kCorruption
          | Some (raw, r) \<Rightarrow> Inr (floats_of (unat vec_len) raw, r))"

definition take_payload :: "u32 \<Rightarrow> reader \<Rightarrow> (bytes \<times> reader) result" where
  "take_payload flags r =
     (if flags AND kFlagsPayload = 0 then Inr ([], r)
      else case take_u32 r of
        None \<Rightarrow> Inl kCorruption
      | Some (payload_len, r) \<Rightarrow>
          if unat payload_len > kMaxPayloadLen then Inl kCorruption
          else case rd_take (unat payload_len) r of
            None \<Rightarrow> Inl kCorruption
          | Some (payload, r) \<Rightarrow> Inr (payload, r))"

definition take_scalar_block :: "u32 \<Rightarrow> reader \<Rightarrow> (scalar_field list \<times> reader) result" where
  "take_scalar_block flags r =
     (if flags AND kFlagsScalars = 0 then Inr ([], r)
      else case take_u16 r of
        None \<Rightarrow> Inl kCorruption
      | Some (nscalars, r) \<Rightarrow> take_scalars (unat nscalars) r)"

definition decode_entry_meta :: "bytes \<Rightarrow> entry_meta result" where
  "decode_entry_meta bs =
     (case take_u32 \<lparr>rd_buf = bs, rd_pos = 0\<rparr> of
        None \<Rightarrow> Inl kCorruption
      | Some (flags, r) \<Rightarrow>
          if flags AND NOT kFlagsKnown \<noteq> 0 then Inl kCorruption
          else case take_vec flags r of
            Inl e \<Rightarrow> Inl e
          | Inr (vec, r) \<Rightarrow>
             (case take_payload flags r of
                Inl e \<Rightarrow> Inl e
              | Inr (payload, r) \<Rightarrow>
                 (case take_scalar_block flags r of
                    Inl e \<Rightarrow> Inl e
                  | Inr (scalars, r) \<Rightarrow>
                      if rd_pos r \<noteq> length bs then Inl kCorruption
                      else Inr \<lparr>em_vec = vec, em_payload = payload, em_scalars = scalars\<rparr>)))"

section \<open>The contract of the sort\<close>

locale name_sort =
  fixes srt :: "scalar_field list \<Rightarrow> scalar_field list"
  assumes srt_perm: "mset (srt fs) = mset fs"
    and srt_sorted: "sorted (map sf_name (srt fs))"
begin

lemma srt_length [simp]: "length (srt fs) = length fs"
  using srt_perm by (metis size_mset)

lemma srt_set [simp]: "set (srt fs) = set fs"
  using srt_perm by (metis set_mset_mset)

text \<open>With distinct names the contract leaves no choice.\<close>

lemma srt_unique:
  assumes "distinct (map sf_name fs)" and "mset fs = mset gs"
  shows "srt fs = srt gs"
proof (rule map_sorted_distinct_set_unique [where f = sf_name])
  have names: "distinct (map sf_name (srt hs))" if "mset hs = mset fs" for hs
    using assms(1) that srt_perm [of hs] by (metis mset_map mset_eq_imp_distinct_iff)
  show "distinct (map sf_name (srt fs))" "distinct (map sf_name (srt gs))"
    using names assms(2) by simp_all
  show "set (srt fs) = set (srt gs)"
    using mset_eq_setD [OF assms(2)] by simp
  then show "inj_on sf_name (set (srt fs) \<union> set (srt gs))"
    using names [of fs] by (simp add: distinct_map)
qed (rule srt_sorted)+

end

interpretation std_sort: name_sort "sort_key sf_name"
  by unfold_locales simp_all

section \<open>The reader on a known rest\<close>

definition rdr :: "bytes \<Rightarrow> bytes \<Rightarrow> reader" where
  "rdr pre rest = \<lparr>rd_buf = pre @ rest, rd_pos = length pre\<rparr>"

lemma rd_take_rdr [simp]:
  "n = length xs \<Longrightarrow> rd_take n (rdr pre (xs @ ys)) = Some (xs, rdr (pre @ xs) ys)"
  by (simp add: rd_take_def rd_remaining_def rdr_def)

lemma take_ints_rdr [simp]:
  "take_u8 (rdr pre (put_u8 a @ ys)) = Some (a, rdr (pre @ put_u8 a) ys)"
  "take_u16 (rdr pre (put_u16 b @ ys)) = Some (b, rdr (pre @ put_u16 b) ys)"
  "take_u32 (rdr pre (put_u32 c @ ys)) = Some (c, rdr (pre @ put_u32 c) ys)"
  "take_u64 (rdr pre (put_u64 d @ ys)) = Some (d, rdr (pre @ put_u64 d) ys)"
  by (simp_all add: take_u8_def take_u16_def take_u32_def take_u64_def) (simp add: put_u8_def)

lemma rd_pos_rdr [simp]: "rd_pos (rdr pre ys) = length pre"
  by (simp add: rdr_def)

lemma take_value_put:
  "put_value v = Inr bs \<Longrightarrow>
    take_value (scalar_index v) (rdr pre (bs @ ys)) = Inr (v, rdr (pre @ bs) ys)"
  by (cases v) (auto simp: take_value_def split: if_splits)

lemma take_scalars_put:
  "put_scalars fs = Inr bs \<Longrightarrow>
    take_scalars (length fs) (rdr pre (bs @ ys)) = Inr (fs, rdr (pre @ bs) ys)"
proof (induction fs arbitrary: pre bs)
  case Nil
  then show ?case by simp
next
  case (Cons f fs)
  from Cons.prems obtain v rest where
    "put_value (sf_value f) = Inr v" "put_scalars fs = Inr rest" "length (sf_name f) < 65536"
    "bs = put_u8 (scalar_index (sf_value f)) @ put_u16 (of_nat (length (sf_name f))) @
          sf_name f @ v @ rest"
    by (auto split: if_splits sum.splits)
  then show ?case
    by (simp add: take_value_put Cons.IH)
qed

lemma floats_of_concat: "floats_of (length fs) (concat (map put_u32 fs)) = fs"
  by (induction fs) simp_all

lemma length_concat_put_u32 [simp]: "length (concat (map put_u32 fs)) = 4 * length fs"
  by (induction fs) simp_all

section \<open>Round trip\<close>

lemma meta_flags_bits [simp]:
  "meta_flags m AND kFlagsVec = 0 \<longleftrightarrow> em_vec m = []"
  "meta_flags m AND kFlagsPayload = 0 \<longleftrightarrow> em_payload m = []"
  "meta_flags m AND kFlagsScalars = 0 \<longleftrightarrow> em_scalars m = []"
  "meta_flags m AND NOT kFlagsKnown = 0"
  by (simp_all add: meta_flags_def em_consts)

text \<open>The three optional blocks of an encoding, in the order of the layout.\<close>

definition vec_block :: "entry_meta \<Rightarrow> bytes" where
  "vec_block m = (if em_vec m = [] then []
     else put_u32 (of_nat (length (em_vec m))) @ concat (map put_u32 (em_vec m)))"

definition payload_block :: "entry_meta \<Rightarrow> bytes" where
  "payload_block m = (if em_payload m = [] then []
     else put_u32 (of_nat (length (em_payload m))) @ em_payload m)"

definition scalar_block ::
  "(scalar_field list \<Rightarrow> scalar_field list) \<Rightarrow> entry_meta \<Rightarrow> bytes result" where
  "scalar_block srt m = (if em_scalars m = [] then Inr []
     else map_sum id (\<lambda>fs. put_u16 (of_nat (length (em_scalars m))) @ fs)
            (put_scalars (srt (em_scalars m))))"

definition within_limits :: "entry_meta \<Rightarrow> bool" where
  "within_limits m \<longleftrightarrow> length (em_vec m) \<le> kMaxVecLen \<and>
     length (em_payload m) \<le> kMaxPayloadLen \<and> length (em_scalars m) \<le> kMaxScalarCount"

lemma encode_blocks:
  "encode_entry_meta srt m =
     (if within_limits m
      then map_sum id (\<lambda>sb. put_u32 (meta_flags m) @ vec_block m @ payload_block m @ sb)
             (scalar_block srt m)
      else Inl kInvalidArgument)"
  by (auto simp: encode_entry_meta_def within_limits_def vec_block_def payload_block_def
      scalar_block_def Let_def split: sum.splits)

lemma take_vec_block:
  "within_limits m \<Longrightarrow>
    take_vec (meta_flags m) (rdr pre (vec_block m @ ys)) = Inr (em_vec m, rdr (pre @ vec_block m) ys)"
  by (simp add: take_vec_def vec_block_def within_limits_def em_consts(5) floats_of_concat mult.commute)

lemma take_payload_block:
  "within_limits m \<Longrightarrow>
    take_payload (meta_flags m) (rdr pre (payload_block m @ ys)) =
      Inr (em_payload m, rdr (pre @ payload_block m) ys)"
  by (simp add: take_payload_def payload_block_def within_limits_def em_consts(6))

text \<open>Whatever the scalar block reads as, the decoder's result is determined by it.\<close>

lemma decode_blocks:
  assumes "within_limits m"
  defines "pre \<equiv> put_u32 (meta_flags m) @ vec_block m @ payload_block m"
  shows "decode_entry_meta (put_u32 (meta_flags m) @ vec_block m @ payload_block m @ sb) =
    (case take_scalar_block (meta_flags m) (rdr pre sb) of
       Inl e \<Rightarrow> Inl e
     | Inr (scalars, r) \<Rightarrow>
         if rd_pos r \<noteq> length pre + length sb then Inl kCorruption
         else Inr \<lparr>em_vec = em_vec m, em_payload = em_payload m, em_scalars = scalars\<rparr>)"
proof -
  have start: "\<lparr>rd_buf = put_u32 (meta_flags m) @ rest, rd_pos = 0\<rparr> =
      rdr [] (put_u32 (meta_flags m) @ rest)" for rest
    by (simp add: rdr_def)
  show ?thesis
    using assms(1) by (simp add: decode_entry_meta_def start take_vec_block take_payload_block
        pre_def split: sum.splits prod.splits)
qed

lemma take_scalar_block_put:
  assumes "name_sort srt" and "scalar_block srt m = Inr sb" and "length (em_scalars m) < 65536"
  shows "take_scalar_block (meta_flags m) (rdr pre sb) = Inr (srt (em_scalars m), rdr (pre @ sb) [])"
proof (cases "em_scalars m = []")
  case True
  then have "srt (em_scalars m) = []"
    using name_sort.srt_length [OF assms(1), of "em_scalars m"] by simp
  with True assms(2) show ?thesis by (simp add: take_scalar_block_def scalar_block_def)
next
  case False
  with assms(2) obtain fs where fs: "put_scalars (srt (em_scalars m)) = Inr fs"
    and sb: "sb = put_u16 (of_nat (length (em_scalars m))) @ fs"
    by (cases "put_scalars (srt (em_scalars m))") (auto simp: scalar_block_def)
  with False assms(3) show ?thesis
    using take_scalars_put [OF fs, of _ "[]"] name_sort.srt_length [OF assms(1), of "em_scalars m"]
    by (simp add: take_scalar_block_def)
qed

lemma decode_of_encode:
  assumes "name_sort srt" and "encode_entry_meta srt m = Inr bs"
    and "length (em_scalars m) < 65536"
  shows "decode_entry_meta bs = Inr (m\<lparr>em_scalars := srt (em_scalars m)\<rparr>)"
proof -
  from assms(2) obtain sb where lim: "within_limits m" and sb: "scalar_block srt m = Inr sb"
    and bs: "bs = put_u32 (meta_flags m) @ vec_block m @ payload_block m @ sb"
    by (cases "scalar_block srt m") (auto simp: encode_blocks split: if_splits)
  show ?thesis
    unfolding bs using decode_blocks [OF lim] take_scalar_block_put [OF assms(1) sb assms(3)]
    by simp
qed

definition sample_meta :: entry_meta where
  "sample_meta = \<lparr>em_vec = [0x3F800000, 0x40000000], em_payload = [104, 105],
     em_scalars = [\<lparr>sf_name = [98], sf_value = VInt 42\<rparr>,
                   \<lparr>sf_name = [97], sf_value = VStr [120, 121]\<rparr>]\<rparr>"

lemma sample_meta_bytes:
  "encode_entry_meta (sort_key sf_name) sample_meta = Inr
     [7, 0, 0, 0, 2, 0, 0, 0, 0, 0, 128, 63, 0, 0, 0, 64, 2, 0, 0, 0, 104, 105, 2, 0,
      2, 1, 0, 97, 2, 0, 0, 0, 120, 121, 0, 1, 0, 98, 42, 0, 0, 0, 0, 0, 0, 0]"
  by (simp add: sample_meta_def encode_entry_meta_def meta_flags_def put_defs em_consts)

section \<open>The scalar count\<close>

text \<open>
  The limit on the number of scalar fields is \<open>1 << 16\<close>, but the count is stored in 16
  bits: exactly 65536 fields are written under the count 0.
\<close>

lemma put_scalars_length: "put_scalars fs = Inr bs \<Longrightarrow> length fs \<le> length bs"
  by (induction fs arbitrary: bs) (fastforce split: if_splits sum.splits)+

lemma u16_wraps [simp]: "(65536 :: u16) = 0"
  by (simp only: word_uint_eq_iff) simp

text \<open>
  an entry with 65536 scalar fields that the encoder accepts can never be read back:
  the decoder reports corruption.
\<close>

theorem scalar_count_truncated:
  assumes "name_sort srt" and "encode_entry_meta srt m = Inr bs"
    and "length (em_scalars m) = 65536"
  shows "decode_entry_meta bs = Inl kCorruption"
proof -
  have nonempty: "em_scalars m \<noteq> []" using assms(3) by auto
  then obtain fs where lim: "within_limits m" and fs: "put_scalars (srt (em_scalars m)) = Inr fs"
    and bs: "bs = put_u32 (meta_flags m) @ vec_block m @ payload_block m @ put_u16 0 @ fs"
    using assms(2,3) by (cases "put_scalars (srt (em_scalars m))")
      (auto simp: encode_blocks scalar_block_def split: if_splits)
  have "fs \<noteq> []"
    using put_scalars_length [OF fs] name_sort.srt_length [OF assms(1)] assms(3) by auto
  then show ?thesis
    unfolding bs using decode_blocks [OF lim] nonempty
    by (simp add: take_scalar_block_def)
qed

definition crowded_meta :: entry_meta where
  "crowded_meta = \<lparr>em_vec = [], em_payload = [],
     em_scalars = replicate 65536 \<lparr>sf_name = [], sf_value = VInt 0\<rparr>\<rparr>"

lemma put_scalars_replicate:
  "put_scalars (replicate n \<lparr>sf_name = [], sf_value = VInt 0\<rparr>) =
     Inr (concat (replicate n (put_u8 0 @ put_u16 0 @ put_u64 0)))"
  by (induction n) simp_all

lemma crowded_meta_encodes:
  "encode_entry_meta (sort_key sf_name) crowded_meta =
     Inr (put_u32 4 @ put_u16 0 @ concat (replicate 65536 (put_u8 0 @ put_u16 0 @ put_u64 0)))"
proof -
  let ?f = "\<lparr>sf_name = [], sf_value = VInt 0\<rparr>"
  have "set (sort_key sf_name (replicate 65536 ?f)) \<subseteq> {?f}" by auto
  then have "sort_key sf_name (replicate 65536 ?f) = replicate 65536 ?f"
    by (intro replicate_eqI) auto
  then show ?thesis
    by (simp add: crowded_meta_def encode_entry_meta_def meta_flags_def em_consts
        put_scalars_replicate)
qed

theorem scalar_count_truncated_witness:
  "decode_entry_meta
     (put_u32 4 @ put_u16 0 @ concat (replicate 65536 (put_u8 0 @ put_u16 0 @ put_u64 0))) =
   Inl kCorruption"
  by (rule scalar_count_truncated [OF std_sort.name_sort_axioms crowded_meta_encodes])
     (simp add: crowded_meta_def)

text \<open>
  C38: every entry that \<open>encode_entry_meta\<close> accepts decodes to itself, with its scalar fields in
  the order the encoder sorted them into, except one with 65536 fields: the check of
  \<^verbatim>\<open>kMaxScalarCount\<close> lets it pass, its count is written as 0, and decoding it reports corruption.
\<close>

theorem decode_encode:
  assumes "name_sort srt" and "encode_entry_meta srt m = Inr bs"
  shows "length (em_scalars m) \<le> 65536 \<and>
    decode_entry_meta bs = (if length (em_scalars m) < 65536 then Inr (m\<lparr>em_scalars := srt (em_scalars m)\<rparr>)
      else Inl kCorruption)"
proof -
  have le: "length (em_scalars m) \<le> 65536"
    using assms(2) by (auto simp: encode_blocks within_limits_def em_consts split: if_splits)
  show ?thesis
  proof (cases "length (em_scalars m) < 65536")
    case True
    then show ?thesis using decode_of_encode [OF assms] by simp
  next
    case False
    then have "length (em_scalars m) = 65536" using le by simp
    then show ?thesis using scalar_count_truncated [OF assms] by simp
  qed
qed

theorem decode_encode_witness:
  "decode_entry_meta
     [7, 0, 0, 0, 2, 0, 0, 0, 0, 0, 128, 63, 0, 0, 0, 64, 2, 0, 0, 0, 104, 105, 2, 0,
      2, 1, 0, 97, 2, 0, 0, 0, 120, 121, 0, 1, 0, 98, 42, 0, 0, 0, 0, 0, 0, 0] =
   Inr (sample_meta\<lparr>em_scalars := sort_key sf_name (em_scalars sample_meta)\<rparr>) \<and>
   decode_entry_meta (put_u32 4 @ put_u16 0 @ concat (replicate 65536 (put_u8 0 @ put_u16 0 @ put_u64 0))) = Inl kCorruption"
proof
  show "decode_entry_meta
     [7, 0, 0, 0, 2, 0, 0, 0, 0, 0, 128, 63, 0, 0, 0, 64, 2, 0, 0, 0, 104, 105, 2, 0,
      2, 1, 0, 97, 2, 0, 0, 0, 120, 121, 0, 1, 0, 98, 42, 0, 0, 0, 0, 0, 0, 0] =
   Inr (sample_meta\<lparr>em_scalars := sort_key sf_name (em_scalars sample_meta)\<rparr>)"
    using decode_encode [OF std_sort.name_sort_axioms sample_meta_bytes] by (simp add: sample_meta_def)
  show "decode_entry_meta (put_u32 4 @ put_u16 0 @ concat (replicate 65536 (put_u8 0 @ put_u16 0 @ put_u64 0))) = Inl kCorruption"
    using decode_encode [OF std_sort.name_sort_axioms crowded_meta_encodes] by (simp add: crowded_meta_def)
qed

section \<open>What the encoder refuses\<close>

definition encodable_field :: "scalar_field \<Rightarrow> bool" where
  "encodable_field f \<longleftrightarrow> length (sf_name f) \<le> 0xFFFF \<and>
     (case sf_value f of VStr s \<Rightarrow> length s < 2 ^ 32 | _ \<Rightarrow> True)"

lemma put_value_cases:
  "put_value v = (case v of VStr s \<Rightarrow> if length s < 2 ^ 32
       then Inr (put_u32 (of_nat (length s)) @ s) else Inl kInvalidArgument
     | VInt w \<Rightarrow> Inr (put_u64 w) | VDouble w \<Rightarrow> Inr (put_u64 w))"
  by (cases v) auto

lemma put_scalars_error:
  "(\<forall>f \<in> set fs. encodable_field f) \<longleftrightarrow> (\<exists>bs. put_scalars fs = Inr bs)"
  "put_scalars fs = Inl e \<Longrightarrow> e = kInvalidArgument"
  by (induction fs)
     (auto simp: encodable_field_def put_value_cases split: if_splits sum.splits scalar_value.splits)

text \<open>
  the encoder fails exactly on entries over a limit (vector length, payload size, number
  of fields, field name or string too long), and always with \<open>kInvalidArgument\<close>.
\<close>

theorem encode_error_iff:
  assumes "name_sort srt"
  shows "(if within_limits m \<and> (\<forall>f \<in> set (em_scalars m). encodable_field f)
          then \<exists>bs. encode_entry_meta srt m = Inr bs
          else encode_entry_meta srt m = Inl kInvalidArgument)"
proof -
  have set: "set (srt (em_scalars m)) = set (em_scalars m)"
    by (rule name_sort.srt_set [OF assms])
  show ?thesis
    using put_scalars_error [of "srt (em_scalars m)"]
    by (cases "put_scalars (srt (em_scalars m))")
       (auto simp: set encode_blocks scalar_block_def)
qed

theorem encode_error_iff_witness:
  "encode_entry_meta (sort_key sf_name)
     (sample_meta\<lparr>em_vec := replicate 65537 0\<rparr>) = Inl kInvalidArgument"
  using encode_error_iff [OF std_sort.name_sort_axioms, of "sample_meta\<lparr>em_vec := replicate 65537 0\<rparr>"]
  by (simp add: within_limits_def em_consts)

text \<open>
  deterministic encoding. Entries with the same vector, payload and fields, listed in any
  order under distinct names, have the same bytes.
\<close>

theorem encode_order_independent:
  assumes "name_sort srt" and "distinct (map sf_name (em_scalars m))"
    and "mset (em_scalars m) = mset fs"
  shows "encode_entry_meta srt (m\<lparr>em_scalars := fs\<rparr>) = encode_entry_meta srt m"
proof -
  have "srt fs = srt (em_scalars m)"
    using name_sort.srt_unique [OF assms(1,2,3)] by simp
  moreover have "length fs = length (em_scalars m)" using assms(3) by (metis size_mset)
  ultimately show ?thesis
    by (auto simp: encode_blocks within_limits_def vec_block_def payload_block_def
        scalar_block_def meta_flags_def)
qed

theorem encode_order_independent_witness:
  "encode_entry_meta (sort_key sf_name)
     (sample_meta\<lparr>em_scalars := rev (em_scalars sample_meta)\<rparr>) =
   encode_entry_meta (sort_key sf_name) sample_meta"
  by (rule encode_order_independent [OF std_sort.name_sort_axioms]) (simp_all add: sample_meta_def)

section \<open>The decoder is strict\<close>

text \<open>A read that succeeds reads the same from a longer buffer.\<close>

definition rd_ext :: "bytes \<Rightarrow> reader \<Rightarrow> reader" where
  "rd_ext ys r = r\<lparr>rd_buf := rd_buf r @ ys\<rparr>"

lemma rd_pos_ext [simp]: "rd_pos (rd_ext ys r) = rd_pos r"
  by (simp add: rd_ext_def)

lemma rd_take_ext: "rd_take n r = Some (x, r') \<Longrightarrow> rd_take n (rd_ext ys r) = Some (x, rd_ext ys r')"
  by (auto simp: rd_take_def rd_remaining_def rd_ext_def split: if_splits)

lemma take_ints_ext:
  "take_u8 r = Some (a, r') \<Longrightarrow> take_u8 (rd_ext ys r) = Some (a, rd_ext ys r')"
  "take_u16 r = Some (b, r') \<Longrightarrow> take_u16 (rd_ext ys r) = Some (b, rd_ext ys r')"
  "take_u32 r = Some (c, r') \<Longrightarrow> take_u32 (rd_ext ys r) = Some (c, rd_ext ys r')"
  "take_u64 r = Some (d, r') \<Longrightarrow> take_u64 (rd_ext ys r) = Some (d, rd_ext ys r')"
  by (auto simp: take_u8_def take_u16_def take_u32_def take_u64_def rd_take_ext)

lemmas take_ext = rd_take_ext take_ints_ext

lemma take_value_ext:
  "take_value t r = Inr (v, r') \<Longrightarrow> take_value t (rd_ext ys r) = Inr (v, rd_ext ys r')"
  by (auto simp: take_value_def take_ext split: if_splits option.splits)

lemma take_scalars_ext:
  "take_scalars n r = Inr (fs, r') \<Longrightarrow> take_scalars n (rd_ext ys r) = Inr (fs, rd_ext ys r')"
proof (induction n arbitrary: r fs r')
  case 0
  then show ?case by simp
next
  case (Suc n)
  from Suc.prems obtain t r1 kl r2 key r3 v r4 gs r5 where step:
    "take_u8 r = Some (t, r1)" "take_u16 r1 = Some (kl, r2)" "rd_take (unat kl) r2 = Some (key, r3)"
    "take_value t r3 = Inr (v, r4)" "take_scalars n r4 = Inr (gs, r5)"
    and res: "fs = \<lparr>sf_name = key, sf_value = v\<rparr> # gs" "r' = r5"
    by (auto split: option.splits sum.splits)
  show ?case
    by (simp add: res take_ints_ext(1) [OF step(1)] take_ints_ext(2) [OF step(2)]
        rd_take_ext [OF step(3)] take_value_ext [OF step(4)] Suc.IH [OF step(5)])
qed

lemma take_blocks_ext:
  "take_vec fl r = Inr (v, r') \<Longrightarrow> take_vec fl (rd_ext ys r) = Inr (v, rd_ext ys r')"
  "take_payload fl r = Inr (p, r') \<Longrightarrow> take_payload fl (rd_ext ys r) = Inr (p, rd_ext ys r')"
  "take_scalar_block fl r = Inr (s, r') \<Longrightarrow> take_scalar_block fl (rd_ext ys r) = Inr (s, rd_ext ys r')"
  by (auto simp: take_vec_def take_payload_def take_scalar_block_def take_ext take_scalars_ext
      split: if_splits option.splits)

text \<open>
  prefix freedom. No proper extension of a decodable buffer decodes: trailing bytes are
  always reported as corruption. With this, a truncated value is never mistaken for a
  complete one either.
\<close>

theorem decode_rejects_trailing:
  assumes "decode_entry_meta bs = Inr m" and "ys \<noteq> []"
  shows "decode_entry_meta (bs @ ys) = Inl kCorruption"
proof -
  have start: "\<lparr>rd_buf = bs @ ys, rd_pos = 0\<rparr> = rd_ext ys \<lparr>rd_buf = bs, rd_pos = 0\<rparr>"
    by (simp add: rd_ext_def)
  from assms(1) obtain fl r1 v r2 p r3 s r4 where
    "take_u32 \<lparr>rd_buf = bs, rd_pos = 0\<rparr> = Some (fl, r1)" "fl AND NOT kFlagsKnown = 0"
    "take_vec fl r1 = Inr (v, r2)" "take_payload fl r2 = Inr (p, r3)"
    "take_scalar_block fl r3 = Inr (s, r4)" "rd_pos r4 = length bs"
    by (auto simp: decode_entry_meta_def split: option.splits sum.splits if_splits)
  with assms(2) show ?thesis
    by (simp add: decode_entry_meta_def start take_ints_ext take_blocks_ext)
qed

theorem decode_rejects_trailing_witness:
  "decode_entry_meta ([0, 0, 0, 0] @ [1]) = Inl kCorruption"
proof -
  have "decode_entry_meta [0, 0, 0, 0] = Inr \<lparr>em_vec = [], em_payload = [], em_scalars = []\<rparr>"
    by (simp add: decode_entry_meta_def take_u32_def rd_take_def rd_remaining_def get_u32_le_def
        take_vec_def take_payload_def take_scalar_block_def)
  then show ?thesis by (rule decode_rejects_trailing) simp
qed

end
