(* ===== verification/Index_Manager.thy ===== *)
theory Index_Manager
  imports Wal_Frame "HOL-Library.AList" "HOL-Library.Multiset"
begin

text \<open>
  \<^verbatim>\<open>class IndexManager\<close> (\<^verbatim>\<open>src/storage/index_manager.cpp\<close>): the table from live keys to log
  offsets. The \<open>unordered_map\<close> is an association list with distinct keys; the order in which
  the hash table is iterated is not part of the sources and is an argument \<open>ord\<close> of the
  operations that iterate, of which only \<open>is_order\<close> (it lists every entry once) is used.

  The locale \<open>offset_index\<close> is what the storage engine relies on: the laws of lookup after
  insertion and removal. Replaying log records over any such index is proved once, there.
\<close>

section \<open>Operations\<close>

type_synonym index = "(bytes \<times> nat) list"

definition index_empty :: index where
  "index_empty = []"

definition index_put :: "bytes \<Rightarrow> nat \<Rightarrow> index \<Rightarrow> index" where
  "index_put key offset m = AList.update key offset m"

definition index_remove :: "bytes \<Rightarrow> index \<Rightarrow> index" where
  "index_remove key m = AList.delete key m"

definition index_get :: "index \<Rightarrow> bytes \<Rightarrow> nat option" where
  "index_get m key = map_of m key"

definition index_contains :: "index \<Rightarrow> bytes \<Rightarrow> bool" where
  "index_contains m key \<longleftrightarrow> index_get m key \<noteq> None"

definition index_size :: "index \<Rightarrow> nat" where
  "index_size m = length m"

text \<open>\<^verbatim>\<open>dump()\<close> seen through an iteration: the entries in the order of the hash table.\<close>

definition index_dump :: "(index \<Rightarrow> index) \<Rightarrow> index \<Rightarrow> index" where
  "index_dump ord m = ord m"

definition is_order :: "(index \<Rightarrow> index) \<Rightarrow> bool" where
  "is_order ord \<longleftrightarrow> (\<forall>m. mset (ord m) = mset m)"

definition index_load :: "index \<Rightarrow> index \<Rightarrow> index" where
  "index_load m old = m"

definition index_inv :: "index \<Rightarrow> bool" where
  "index_inv m \<longleftrightarrow> distinct (map fst m)"

section \<open>The contract of an index\<close>

text \<open>A log record applied to the abstract table: a deletion removes, everything else inserts.\<close>

fun offset_step :: "op_type \<times> bytes \<times> nat \<Rightarrow> (bytes \<rightharpoonup> nat) \<Rightarrow> (bytes \<rightharpoonup> nat)" where
  "offset_step (op, key, off) m = (if op = OpDelete then m(key := None) else m(key \<mapsto> off))"

locale offset_index =
  fixes empty :: 'm
    and put :: "bytes \<Rightarrow> nat \<Rightarrow> 'm \<Rightarrow> 'm"
    and del :: "bytes \<Rightarrow> 'm \<Rightarrow> 'm"
    and lookup :: "'m \<Rightarrow> bytes \<Rightarrow> nat option"
    and inv :: "'m \<Rightarrow> bool"
    and count :: "'m \<Rightarrow> nat"
  assumes inv_empty: "inv empty"
    and inv_put: "inv m \<Longrightarrow> inv (put k off m)"
    and inv_del: "inv m \<Longrightarrow> inv (del k m)"
    and lookup_empty: "lookup empty = Map.empty"
    and lookup_put: "inv m \<Longrightarrow> lookup (put k off m) = (lookup m)(k \<mapsto> off)"
    and lookup_del: "inv m \<Longrightarrow> lookup (del k m) = (lookup m)(k := None)"
    and count_lookup: "inv m \<Longrightarrow> count m = card (dom (lookup m))"
begin

definition replay1 :: "op_type \<times> bytes \<times> nat \<Rightarrow> 'm \<Rightarrow> 'm" where
  "replay1 r m = (case r of (op, key, off) \<Rightarrow> if op = OpDelete then del key m else put key off m)"

lemma replay1_refines:
  "inv m \<Longrightarrow> inv (replay1 r m) \<and> lookup (replay1 r m) = offset_step r (lookup m)"
  by (cases r) (auto simp: replay1_def inv_put inv_del lookup_put lookup_del)

lemma replay_refines:
  "inv m \<Longrightarrow> inv (fold replay1 rs m) \<and> lookup (fold replay1 rs m) = fold offset_step rs (lookup m)"
  by (induction rs arbitrary: m) (simp_all add: replay1_refines)

lemma replay_from_empty: "lookup (fold replay1 rs empty) = fold offset_step rs Map.empty"
  using replay_refines [OF inv_empty] by (simp add: lookup_empty)

lemma count_put_le: "inv m \<Longrightarrow> finite (dom (lookup m)) \<Longrightarrow> count (put k off m) \<le> Suc (count m)"
  using card_insert_le_m1 [of "Suc (card (dom (lookup m)))" "dom (lookup m)" k]
  by (simp add: count_lookup inv_put lookup_put card_insert_if)

end

section \<open>The table satisfies it\<close>

lemma index_inv_simps [simp]:
  "index_inv index_empty"
  "index_inv m \<Longrightarrow> index_inv (index_put k off m)"
  "index_inv m \<Longrightarrow> index_inv (index_remove k m)"
  by (simp_all add: index_inv_def index_empty_def index_put_def index_remove_def distinct_update distinct_delete)

lemma index_get_simps [simp]:
  "index_get index_empty = Map.empty"
  "index_get (index_put k off m) = (index_get m)(k \<mapsto> off)"
  "index_get (index_remove k m) = (index_get m)(k := None)"
  by (auto simp: index_get_def index_empty_def index_put_def index_remove_def fun_eq_iff update_conv'
      delete_conv' map_of_delete)

lemma index_size_card: "index_inv m \<Longrightarrow> index_size m = card (dom (index_get m))"
  unfolding index_size_def index_get_def index_inv_def dom_map_of_conv_image_fst
  by (metis distinct_card length_map set_map)

interpretation hash_index: offset_index index_empty index_put index_remove index_get index_inv index_size
  by unfold_locales (simp_all add: index_size_card)

lemma index_dump_get:
  assumes "is_order ord" and "index_inv m"
  shows "index_get (index_dump ord m) = index_get m" and "index_inv (index_dump ord m)"
    and "length (index_dump ord m) = length m"
proof -
  have m: "mset (ord m) = mset m" using assms(1) by (simp add: is_order_def)
  then have "mset (map fst (ord m)) = mset (map fst m)" by simp
  then show "index_inv (index_dump ord m)"
    using assms(2) unfolding index_inv_def index_dump_def by (metis mset_eq_imp_distinct_iff)
  with m assms(2) show "index_get (index_dump ord m) = index_get m"
    unfolding index_inv_def index_dump_def index_get_def by (metis map_of_inject_set mset_eq_setD)
  show "length (index_dump ord m) = length m" using mset_eq_length [OF m] by (simp add: index_dump_def)
qed

end
