(* ===== verification/Manifest.thy ===== *)
theory Manifest
  imports Posix_Io
begin

text \<open>
  The MANIFEST text file that names the latest snapshots (\<^verbatim>\<open>src/storage/manifest.cpp\<close>), and
  the decimal and whitespace conventions of \<open>iostream\<close> that its reader uses. A directory is a
  map from paths to file contents. A stream that cannot be opened is taken for a missing file, as
  the code does; a stream that opened is read to its end.
\<close>

section \<open>Text\<close>

type_synonym dir = "bytes \<rightharpoonup> bytes"

definition ascii :: "string \<Rightarrow> bytes" where
  "ascii s = map of_char s"

definition newline :: byte where "newline = 10"

definition is_space :: "byte \<Rightarrow> bool" where
  "is_space c \<longleftrightarrow> c = 32 \<or> c \<in> {9, 10, 11, 12, 13}"

definition is_digit :: "byte \<Rightarrow> bool" where
  "is_digit c \<longleftrightarrow> 48 \<le> c \<and> c \<le> 57"

text \<open>\<^verbatim>\<open>std::to_string\<close> of an unsigned number.\<close>

fun to_string :: "nat \<Rightarrow> bytes" where
  "to_string n = (if n < 10 then [of_nat (48 + n)] else to_string (n div 10) @ [of_nat (48 + n mod 10)])"

declare to_string.simps [simp del]

text \<open>\<^verbatim>\<open>std::getline\<close> until it fails: a last line without a newline counts when it is not empty.\<close>

fun getlines_acc :: "bytes \<Rightarrow> bytes \<Rightarrow> bytes list" where
  "getlines_acc acc [] = (if acc = [] then [] else [acc])"
| "getlines_acc acc (c # cs) =
     (if c = newline then acc # getlines_acc [] cs else getlines_acc (acc @ [c]) cs)"

definition getlines :: "bytes \<Rightarrow> bytes list" where
  "getlines data = getlines_acc [] data"

text \<open>
  The formatted extractions \<open>is >> string\<close> and \<open>is >> uint64_t\<close>: leading white space is
  skipped; a word that is empty fails; a number may carry a sign, needs a digit, stops at the
  first other character, fails when it does not fit 64 bits and is negated modulo \<open>2 ^ 64\<close>
  after a minus sign.
\<close>

definition extract_word :: "bytes \<Rightarrow> (bytes \<times> bytes) option" where
  "extract_word s =
     (let s = dropWhile is_space s; w = takeWhile (\<lambda>c. \<not> is_space c) s
      in if w = [] then None else Some (w, dropWhile (\<lambda>c. \<not> is_space c) s))"

definition digits_value :: "bytes \<Rightarrow> nat" where
  "digits_value ds = fold (\<lambda>d n. 10 * n + unat (d - 48)) ds 0"

definition extract_u64 :: "bytes \<Rightarrow> (u64 \<times> bytes) option" where
  "extract_u64 s =
     (let s = dropWhile is_space s;
          neg = (s \<noteq> [] \<and> hd s = 45);
          s = (if s \<noteq> [] \<and> (hd s = 45 \<or> hd s = 43) then tl s else s);
          ds = takeWhile is_digit s;
          n = digits_value ds
      in if ds = [] \<or> n \<ge> 2 ^ 64 then None
         else Some (if neg then - of_nat n else of_nat n, dropWhile is_digit s))"

section \<open>Records\<close>

record manifest_entry =
  m_seq :: u64
  m_wal_offset :: u64
  m_filename :: bytes

definition kManifestKeep :: nat where "kManifestKeep = 2"

definition parse_line :: "bytes \<Rightarrow> manifest_entry option" where
  "parse_line line =
     (case extract_word line of None \<Rightarrow> None
      | Some (tag, s) \<Rightarrow>
          case extract_u64 s of None \<Rightarrow> None
          | Some (seq, s) \<Rightarrow>
              case extract_u64 s of None \<Rightarrow> None
              | Some (off, s) \<Rightarrow>
                  case extract_word s of None \<Rightarrow> None
                  | Some (filename, s) \<Rightarrow>
                      if tag \<noteq> ascii ''snap'' then None
                      else Some \<lparr>m_seq = seq, m_wal_offset = off, m_filename = filename\<rparr>)"

fun manifest_scan :: "bytes list \<Rightarrow> manifest_entry option \<Rightarrow> manifest_entry result" where
  "manifest_scan [] latest = (case latest of None \<Rightarrow> Inl kNotFound | Some e \<Rightarrow> Inr e)"
| "manifest_scan (line # rest) latest =
     (if line = [] \<or> hd line = 35 then manifest_scan rest latest
      else case parse_line line of
        None \<Rightarrow> Inl kCorruption
      | Some e \<Rightarrow> manifest_scan rest (Some e))"

definition read_manifest_latest :: "sysenv \<Rightarrow> dir \<Rightarrow> bytes \<Rightarrow> manifest_entry result" where
  "read_manifest_latest E d manifest_path =
     (case d manifest_path of
        None \<Rightarrow> Inl kNotFound
      | Some data \<Rightarrow> if \<not> sys_stream E then Inl kNotFound else manifest_scan (getlines data) None)"

definition manifest_kept :: "bytes \<Rightarrow> bytes list" where
  "manifest_kept data =
     (let all = filter (\<lambda>line. line \<noteq> [] \<and> hd line \<noteq> 35) (getlines data)
      in if length all > kManifestKeep then drop (length all - kManifestKeep) all else all)"

definition manifest_line :: "manifest_entry \<Rightarrow> bytes" where
  "manifest_line e =
     ascii ''snap '' @ to_string (unat (m_seq e)) @ ascii '' '' @ to_string (unat (m_wal_offset e)) @
     ascii '' '' @ m_filename e"

definition write_manifest_append :: "sysenv \<Rightarrow> bytes \<Rightarrow> manifest_entry \<Rightarrow> dir \<Rightarrow> status_code \<times> dir" where
  "write_manifest_append E manifest_path e d =
     (let kept = (case d manifest_path of
                    Some data \<Rightarrow> if sys_stream E then manifest_kept data else []
                  | None \<Rightarrow> []);
          tmp_path = manifest_path @ ascii ''.tmp'';
          full = concat (map (\<lambda>l. l @ [newline]) kept) @ manifest_line e @ [newline]
      in if \<not> sys_open E then (kIOError, d)
         else
           let (ok, w) = write_loop (sys_write E 0 (length full)) full
           in if \<not> (ok \<and> sys_fsync E) then (kIOError, d(tmp_path := None))
              else if \<not> sys_rename E then (kIOError, d(tmp_path := None))
              else (kOk, (d(tmp_path := None))(manifest_path \<mapsto> w)))"

section \<open>Numbers and lines\<close>

lemma is_digit_of_nat [simp]: "n < 10 \<Longrightarrow> is_digit (of_nat (48 + n))"
  by (simp add: is_digit_def word_le_nat_alt unat_of_nat del: of_nat_add)

lemma digit_not_space [simp]: "is_digit c \<Longrightarrow> \<not> is_space c"
  by (auto simp: is_digit_def is_space_def)

lemma digit_value [simp]: "n < 10 \<Longrightarrow> unat (of_nat (48 + n) - 48 :: byte) = n"
  by (simp add: unat_of_nat)

lemma to_string_nonempty [simp]: "to_string n \<noteq> []"
  by (subst to_string.simps) simp

lemma to_string_digits: "c \<in> set (to_string n) \<Longrightarrow> is_digit c"
proof (induction n rule: to_string.induct)
  case (1 n)
  then show ?case
    by (subst (asm) (2) to_string.simps) (auto simp del: of_nat_add split: if_splits)
qed

lemma digits_value_snoc: "digits_value (ds @ [d]) = 10 * digits_value ds + unat (d - 48)"
  by (simp add: digits_value_def)

lemma digits_value_to_string [simp]: "digits_value (to_string n) = n"
proof (induction n rule: to_string.induct)
  case (1 n)
  show ?case
  proof (cases "n < 10")
    case True
    then show ?thesis by (subst to_string.simps) (simp add: digits_value_def del: of_nat_add)
  next
    case False
    then show ?thesis
      using 1 by (subst to_string.simps) (simp add: digits_value_snoc del: of_nat_add)
  qed
qed

lemma takeWhile_span:
  "\<forall>c \<in> set w. P c \<Longrightarrow> rest = [] \<or> \<not> P (hd rest) \<Longrightarrow>
    takeWhile P (w @ rest) = w \<and> dropWhile P (w @ rest) = rest"
  by (cases rest) auto

lemma extract_word_span:
  assumes "w \<noteq> []" and "\<forall>c \<in> set w. \<not> is_space c" and "rest = [] \<or> is_space (hd rest)"
  shows "extract_word (w @ rest) = Some (w, rest)"
    and "extract_word (32 # w @ rest) = Some (w, rest)"
proof -
  have "dropWhile is_space (w @ rest) = w @ rest" using assms(1,2) by (cases w) auto
  then have lead: "dropWhile is_space (32 # w @ rest) = w @ rest" by (simp add: is_space_def)
  have "takeWhile (\<lambda>c. \<not> is_space c) (w @ rest) = w \<and> dropWhile (\<lambda>c. \<not> is_space c) (w @ rest) = rest"
    using assms(2,3) by (intro takeWhile_span) auto
  with lead \<open>dropWhile is_space (w @ rest) = w @ rest\<close> assms(1)
  show "extract_word (w @ rest) = Some (w, rest)" "extract_word (32 # w @ rest) = Some (w, rest)"
    by (simp_all add: extract_word_def Let_def)
qed

lemma extract_u64_to_string:
  assumes "n < 2 ^ 64" and "rest = [] \<or> \<not> is_digit (hd rest)"
  shows "extract_u64 (32 # to_string n @ rest) = Some (of_nat n, rest)"
proof -
  obtain c cs where c: "to_string n = c # cs" by (cases "to_string n") simp_all
  then have dig: "is_digit c" using to_string_digits [of c n] by simp
  then have "\<not> is_space c" "c \<noteq> 45" "c \<noteq> 43" by (auto simp: is_digit_def is_space_def)
  moreover have span: "takeWhile is_digit (to_string n @ rest) = to_string n \<and>
      dropWhile is_digit (to_string n @ rest) = rest"
    using assms(2) to_string_digits by (intro takeWhile_span) auto
  moreover have "dropWhile is_space (32 # to_string n @ rest) = to_string n @ rest"
    using \<open>\<not> is_space c\<close> by (simp add: c is_space_def)
  moreover have "hd (to_string n @ rest) = c" by (simp add: c)
  ultimately show ?thesis
    using assms(1) digits_value_to_string [of n] by (simp add: extract_u64_def Let_def)
qed

definition plain_name :: "bytes \<Rightarrow> bool" where
  "plain_name f \<longleftrightarrow> f \<noteq> [] \<and> (\<forall>c \<in> set f. \<not> is_space c)"

lemma ascii_simps [simp]: "ascii [] = []" "ascii (c # s) = of_char c # ascii s"
  by (simp_all add: ascii_def)

lemma manifest_line_eq:
  "manifest_line e = ascii ''snap'' @ (32 # to_string (unat (m_seq e)) @ (32 # to_string (unat (m_wal_offset e)) @
     (32 # m_filename e @ [])))"
  by (simp add: manifest_line_def)

lemma parse_manifest_line:
  assumes "plain_name (m_filename e)"
  shows "parse_line (manifest_line e) = Some e"
proof -
  have word: "extract_word (ascii ''snap'' @ (32 # rest)) = Some (ascii ''snap'', 32 # rest)" for rest
    by (rule extract_word_span) (simp_all add: is_space_def)
  have name: "extract_word (32 # m_filename e @ []) = Some (m_filename e, [])"
    using assms by (intro extract_word_span) (simp_all add: plain_name_def)
  have num: "extract_u64 (32 # to_string (unat w) @ (32 # rest)) = Some (w, 32 # rest)" for w :: u64 and rest
    using extract_u64_to_string [of "unat w" "32 # rest"] unsigned_less [of w] by (simp add: is_digit_def)
  show ?thesis
    unfolding parse_line_def manifest_line_eq word num name option.case prod.case by simp
qed

lemma getlines_acc_line: "newline \<notin> set l \<Longrightarrow> getlines_acc acc (l @ newline # rest) = (acc @ l) # getlines_acc [] rest"
  by (induction l arbitrary: acc) auto

lemma getlines_lines:
  "\<forall>l \<in> set ls. newline \<notin> set l \<Longrightarrow> getlines (concat (map (\<lambda>l. l @ [newline]) ls)) = ls"
  by (induction ls) (simp_all add: getlines_def getlines_acc_line)

lemma getlines_acc_no_newline:
  "newline \<notin> set acc \<Longrightarrow> l \<in> set (getlines_acc acc data) \<Longrightarrow> newline \<notin> set l"
  by (induction acc data rule: getlines_acc.induct) (auto split: if_splits)

lemma manifest_kept_lines:
  assumes "l \<in> set (manifest_kept data)"
  shows "newline \<notin> set l" and "l \<noteq> []" and "hd l \<noteq> 35"
proof -
  have "l \<in> set (filter (\<lambda>line. line \<noteq> [] \<and> hd line \<noteq> 35) (getlines data))"
    using assms by (auto simp: manifest_kept_def Let_def split: if_splits dest: in_set_dropD)
  then show "newline \<notin> set l" "l \<noteq> []" "hd l \<noteq> 35"
    using getlines_acc_no_newline [of "[]" l data] by (auto simp: getlines_def)
qed

lemma length_manifest_kept: "length (manifest_kept data) \<le> 2"
  by (simp add: manifest_kept_def kManifestKeep_def Let_def)

lemma plain_name_no_newline: "plain_name f \<Longrightarrow> newline \<notin> set f"
  by (auto simp: plain_name_def is_space_def newline_def)

lemma newline_manifest_line: "plain_name (m_filename e) \<Longrightarrow> newline \<notin> set (manifest_line e)"
  using to_string_digits [of newline] plain_name_no_newline [of "m_filename e"]
  by (auto simp: manifest_line_def is_digit_def newline_def)

lemma manifest_scan_last:
  "\<forall>l \<in> set ls. l \<noteq> [] \<and> hd l \<noteq> 35 \<and> parse_line l \<noteq> None \<Longrightarrow> hd line \<noteq> 35 \<Longrightarrow> line \<noteq> [] \<Longrightarrow>
    parse_line line = Some e \<Longrightarrow> manifest_scan (ls @ [line]) latest = Inr e"
  by (induction ls arbitrary: latest) auto

section \<open>Appending a record\<close>

definition manifest_old :: "dir \<Rightarrow> bytes \<Rightarrow> bytes list" where
  "manifest_old d p = (case d p of None \<Rightarrow> [] | Some data \<Rightarrow> manifest_kept data)"

text \<open>What \<open>write_manifest_append\<close> keeps: nothing when the stream cannot be opened.\<close>

definition manifest_found :: "sysenv \<Rightarrow> dir \<Rightarrow> bytes \<Rightarrow> bytes list" where
  "manifest_found E d p = (if sys_stream E then manifest_old d p else [])"

definition manifest_text :: "bytes list \<Rightarrow> bytes" where
  "manifest_text ls = concat (map (\<lambda>l. l @ [newline]) ls)"

lemma write_manifest_unfold:
  "write_manifest_append E p e d =
     (if \<not> sys_open E then (kIOError, d)
      else
        let full = manifest_text (manifest_found E d p @ [manifest_line e]);
            (ok, w) = write_loop (sys_write E 0 (length full)) full
        in if \<not> (ok \<and> sys_fsync E) then (kIOError, d(p @ ascii ''.tmp'' := None))
           else if \<not> sys_rename E then (kIOError, d(p @ ascii ''.tmp'' := None))
           else (kOk, (d(p @ ascii ''.tmp'' := None))(p \<mapsto> w)))"
proof -
  have "(case d p of Some data \<Rightarrow> if sys_stream E then manifest_kept data else [] | None \<Rightarrow> []) = manifest_found E d p"
    by (simp add: manifest_found_def manifest_old_def split: option.split)
  then show ?thesis by (simp add: write_manifest_append_def manifest_text_def Let_def del: ascii_simps)
qed

lemma write_loop_benign_outs:
  assumes "benign_outs outs"
  shows "write_loop outs p = (True, p)"
  using assms
proof (induction outs p rule: write_loop.induct)
  case (2 out outs p)
  then show ?case by (cases out) (auto simp: benign_outs_def Let_def)
qed simp

lemma write_manifest_benign:
  assumes "benign E"
  shows "write_manifest_append E p e d =
    (kOk, (d(p @ ascii ''.tmp'' := None))(p \<mapsto> manifest_text (manifest_old d p @ [manifest_line e])))"
proof -
  have "sys_open E" "sys_stream E" "sys_fsync E" "sys_rename E" "benign_outs (sys_write E off n)" for off n
    using assms by (auto simp: benign_def)
  then show ?thesis
    by (simp add: write_manifest_append_def write_loop_benign_outs manifest_old_def manifest_text_def
        split: option.splits)
qed

lemma manifest_old_lines:
  assumes "l \<in> set (manifest_old d p)"
  shows "newline \<notin> set l" and "l \<noteq> []" and "hd l \<noteq> 35"
  using assms manifest_kept_lines by (auto simp: manifest_old_def split: option.splits)

lemma read_manifest_text:
  assumes "sys_stream E" and "plain_name (m_filename e)"
    and "\<forall>l \<in> set (manifest_old d p). parse_line l \<noteq> None"
    and "d' p = Some (manifest_text (manifest_old d p @ [manifest_line e]))"
  shows "read_manifest_latest E d' p = Inr e"
proof -
  have "getlines (manifest_text (manifest_old d p @ [manifest_line e])) = manifest_old d p @ [manifest_line e]"
    unfolding manifest_text_def
    using manifest_old_lines newline_manifest_line [OF assms(2)] by (intro getlines_lines) auto
  moreover have "manifest_scan (manifest_old d p @ [manifest_line e]) None = Inr e"
    using manifest_old_lines assms(3) parse_manifest_line [OF assms(2)]
    by (intro manifest_scan_last) (auto simp: manifest_line_def)
  ultimately show ?thesis by (simp add: read_manifest_latest_def assms(1,4))
qed

text \<open>
  the manifest round trip. After a snapshot record with a file name free of white space
  was appended, the latest record read from the manifest is that record, provided the lines
  it keeps from the old manifest parse; and the manifest has at most three records.
\<close>

theorem manifest_append_latest:
  assumes "benign E" and "plain_name (m_filename e)"
    and "\<forall>l \<in> set (manifest_old d p). parse_line l \<noteq> None"
  shows "\<exists>d' data. write_manifest_append E p e d = (kOk, d') \<and> read_manifest_latest E d' p = Inr e \<and>
    d' p = Some data \<and> length (getlines data) = Suc (length (manifest_old d p)) \<and> length (getlines data) \<le> 3"
proof -
  let ?d = "(d(p @ ascii ''.tmp'' := None))(p \<mapsto> manifest_text (manifest_old d p @ [manifest_line e]))"
  have "sys_stream E" using assms(1) by (simp add: benign_def)
  then have "read_manifest_latest E ?d p = Inr e"
    using assms(2,3) by (intro read_manifest_text) simp_all
  moreover have "getlines (manifest_text (manifest_old d p @ [manifest_line e])) = manifest_old d p @ [manifest_line e]"
    unfolding manifest_text_def
    using manifest_old_lines newline_manifest_line [OF assms(2)] by (intro getlines_lines) auto
  moreover have "length (manifest_old d p) \<le> 2"
    using length_manifest_kept by (simp add: manifest_old_def split: option.splits)
  ultimately show ?thesis by (simp add: write_manifest_benign [OF assms(1)])
qed

theorem manifest_append_latest_witness:
  "\<exists>d' data. write_manifest_append choppy_env (ascii ''MANIFEST'')
       \<lparr>m_seq = 7, m_wal_offset = 1234, m_filename = ascii ''snap-7.snap''\<rparr> Map.empty = (kOk, d') \<and>
     read_manifest_latest choppy_env d' (ascii ''MANIFEST'') =
       Inr \<lparr>m_seq = 7, m_wal_offset = 1234, m_filename = ascii ''snap-7.snap''\<rparr> \<and>
     d' (ascii ''MANIFEST'') = Some data \<and> length (getlines data) = 1 \<and> length (getlines data) \<le> 3"
  using manifest_append_latest [OF benign_choppy,
      of "\<lparr>m_seq = 7, m_wal_offset = 1234, m_filename = ascii ''snap-7.snap''\<rparr>" Map.empty "ascii ''MANIFEST''"]
  by (simp add: plain_name_def is_space_def manifest_old_def)

text \<open>
  the manifest is replaced atomically. Whatever the system calls do, either the append
  reports success and the manifest holds the complete new text, or it reports an I/O error and
  the manifest is what it was; no other file is touched.
\<close>

theorem manifest_update_atomic:
  "\<exists>s d'. write_manifest_append E p e d = (s, d') \<and>
    (s = kOk \<and> d' p = Some (manifest_text (manifest_found E d p @ [manifest_line e])) \<or>
     s = kIOError \<and> d' p = d p) \<and>
    (\<forall>q. q \<noteq> p \<longrightarrow> q \<noteq> p @ ascii ''.tmp'' \<longrightarrow> d' q = d q)"
proof -
  have tmp: "p \<noteq> p @ ascii ''.tmp''" by simp
  obtain ok w where wl: "write_loop (sys_write E 0 (length (manifest_text (manifest_found E d p @ [manifest_line e]))))
      (manifest_text (manifest_found E d p @ [manifest_line e])) = (ok, w)"
    by (rule prod.exhaust)
  have full: "ok \<Longrightarrow> w = manifest_text (manifest_found E d p @ [manifest_line e])"
    using write_loop_prefix [OF wl] by auto
  show ?thesis
  proof (cases "sys_open E")
    case False
    then show ?thesis by (simp add: write_manifest_append_def Let_def)
  next
    case True
    have "write_manifest_append E p e d =
      (if \<not> (ok \<and> sys_fsync E) then (kIOError, d(p @ ascii ''.tmp'' := None))
       else if \<not> sys_rename E then (kIOError, d(p @ ascii ''.tmp'' := None))
       else (kOk, (d(p @ ascii ''.tmp'' := None))(p \<mapsto> w)))"
      using True wl by (simp add: write_manifest_unfold Let_def)
    then show ?thesis using full tmp by auto
  qed
qed

theorem manifest_update_atomic_witness:
  "\<exists>s d'. write_manifest_append (calm_env\<lparr>sys_write := (\<lambda>_ _. [Xfer 5, IoFail])\<rparr>) (ascii ''M'')
       \<lparr>m_seq = 7, m_wal_offset = 8, m_filename = [97]\<rparr> [ascii ''M'' \<mapsto> [35, 10]] = (s, d') \<and>
    (s = kOk \<and> d' (ascii ''M'') = Some (manifest_text (manifest_found calm_env [ascii ''M'' \<mapsto> [35, 10]] (ascii ''M'') @
        [manifest_line \<lparr>m_seq = 7, m_wal_offset = 8, m_filename = [97]\<rparr>])) \<or>
     s = kIOError \<and> d' (ascii ''M'') = Some [35, 10])"
  using manifest_update_atomic [of "calm_env\<lparr>sys_write := (\<lambda>_ _. [Xfer 5, IoFail])\<rparr>" "ascii ''M''"
      "\<lparr>m_seq = 7, m_wal_offset = 8, m_filename = [97]\<rparr>" "[ascii ''M'' \<mapsto> [35, 10]]"]
  by (auto simp: manifest_found_def calm_env_def)

text \<open>
  the manifest keeps three records, not two. Appending to a manifest with two or more
  records leaves two of them and the new one.
\<close>

theorem manifest_keeps_three:
  assumes "benign E" and "plain_name (m_filename e)" and "d p = Some data"
    and "2 \<le> length (filter (\<lambda>line. line \<noteq> [] \<and> hd line \<noteq> 35) (getlines data))"
  shows "\<exists>d' data'. write_manifest_append E p e d = (kOk, d') \<and> d' p = Some data' \<and>
    length (getlines data') = Suc kManifestKeep"
proof -
  have "length (manifest_old d p) = 2"
    using assms(3,4) by (auto simp: manifest_old_def manifest_kept_def kManifestKeep_def Let_def)
  moreover have "getlines (manifest_text (manifest_old d p @ [manifest_line e])) = manifest_old d p @ [manifest_line e]"
    unfolding manifest_text_def
    using manifest_old_lines newline_manifest_line [OF assms(2)] by (intro getlines_lines) auto
  ultimately show ?thesis
    by (simp add: write_manifest_benign [OF assms(1)] kManifestKeep_def)
qed

theorem manifest_keeps_three_witness:
  "\<exists>d' data'. write_manifest_append calm_env (ascii ''M'') \<lparr>m_seq = 7, m_wal_offset = 8, m_filename = [97]\<rparr>
      [ascii ''M'' \<mapsto> [97, 10, 98, 10]] = (kOk, d') \<and> d' (ascii ''M'') = Some data' \<and>
    length (getlines data') = Suc kManifestKeep"
  by (rule manifest_keeps_three [OF benign_calm, where data = "[97, 10, 98, 10]"])
     (simp_all add: plain_name_def is_space_def getlines_def newline_def)

end
