(* ===== verification/Snapshot.thy ===== *)
theory Snapshot
  imports Entry_Meta Index_Manager Manifest
begin

text \<open>
  Index snapshots (\<^verbatim>\<open>src/storage/snapshot.cpp\<close>): the file format, its writer and its strict
  reader. The \<open>Reader\<close> of this file is the bounded cursor of the entry codec again, so the
  operations of that cursor are shared. The entries come in the order in which the hash table
  is iterated.
\<close>

section \<open>Writer\<close>

definition kSnapVersion :: u32 where "kSnapVersion = 1"
definition kMaxEntries :: nat where "kMaxEntries = 100000000"
definition kMaxKeyLen :: nat where "kMaxKeyLen = 0xFFFF"
definition snap_magic :: bytes where "snap_magic = [0x4C, 0x4D, 0x53, 0x4E]"

record snapshot_meta =
  sn_wal_offset :: nat
  sn_index :: index

fun snap_entries :: "index \<Rightarrow> bytes result" where
  "snap_entries [] = Inr []"
| "snap_entries ((key, offset) # rest) =
     (if length key > kMaxKeyLen then Inl kInvalidArgument
      else case snap_entries rest of
        Inl e \<Rightarrow> Inl e
      | Inr bs \<Rightarrow> Inr (put_u32 (of_nat (length key)) @ key @ put_u64 (of_nat offset) @ bs))"

definition snap_body :: "nat \<Rightarrow> index \<Rightarrow> bytes result" where
  "snap_body wal_offset entries =
     (case snap_entries entries of
        Inl e \<Rightarrow> Inl e
      | Inr bs \<Rightarrow> Inr (snap_magic @ put_u32 kSnapVersion @ put_u64 (of_nat wal_offset) @
                      put_u32 (of_nat (length entries)) @ bs))"

definition write_snapshot :: "sysenv \<Rightarrow> bytes \<Rightarrow> nat \<Rightarrow> index \<Rightarrow> dir \<Rightarrow> status_code \<times> dir" where
  "write_snapshot E path wal_offset entries d =
     (if length entries > kMaxEntries then (kInvalidArgument, d)
      else case snap_body wal_offset entries of
        Inl e \<Rightarrow> (e, d)
      | Inr body0 \<Rightarrow>
          let body = body0 @ put_u32 (crc32_std body0)
          in if \<not> sys_open E then (kIOError, d)
             else let (ok, w) = write_loop (sys_write E 0 (length body)) body
                  in (if ok \<and> sys_fsync E then kOk else kIOError, d(path \<mapsto> w)))"

section \<open>Reader\<close>

text \<open>The loop of \<open>read\<close> calls with a 64 KiB buffer; a read of no bytes is the end of the file.\<close>

fun read_loop :: "io_out list \<Rightarrow> bytes \<Rightarrow> bytes option" where
  "read_loop [] data = Some data"
| "read_loop (out # outs) data =
     (case out of
        Eintr \<Rightarrow> read_loop outs data
      | IoFail \<Rightarrow> None
      | Xfer n \<Rightarrow>
          let m = min n (min 65536 (length data))
          in if m = 0 then Some []
             else map_option ((@) (take m data)) (read_loop outs (drop m data)))"

text \<open>\<^verbatim>\<open>unordered_map::emplace\<close> keeps an entry that is already there.\<close>

definition index_emplace :: "bytes \<Rightarrow> nat \<Rightarrow> index \<Rightarrow> index" where
  "index_emplace key offset m = (if index_get m key \<noteq> None then m else m @ [(key, offset)])"

fun take_entries :: "nat \<Rightarrow> reader \<Rightarrow> index \<Rightarrow> index result" where
  "take_entries 0 r m = Inr m"
| "take_entries (Suc n) r m =
     (case take_u32 r of
        None \<Rightarrow> Inl kCorruption
      | Some (key_len, r) \<Rightarrow>
          if unat key_len > kMaxKeyLen then Inl kCorruption
          else case rd_take (unat key_len) r of
            None \<Rightarrow> Inl kCorruption
          | Some (key, r) \<Rightarrow>
              case take_u64 r of
                None \<Rightarrow> Inl kCorruption
              | Some (offset, r) \<Rightarrow> take_entries n r (index_emplace key (unat offset) m))"

definition parse_snapshot :: "bytes \<Rightarrow> snapshot_meta result" where
  "parse_snapshot buf =
     (if length buf < 24 then Inl kCorruption
      else case rd_take 4 \<lparr>rd_buf = buf, rd_pos = 0\<rparr> of
        None \<Rightarrow> Inl kCorruption
      | Some (magic, r) \<Rightarrow>
          if magic \<noteq> snap_magic then Inl kCorruption
          else case take_u32 r of
            None \<Rightarrow> Inl kCorruption
          | Some (version, r) \<Rightarrow>
              case take_u64 r of
                None \<Rightarrow> Inl kCorruption
              | Some (wal_offset, r) \<Rightarrow>
                  case take_u32 r of
                    None \<Rightarrow> Inl kCorruption
                  | Some (entry_count, r) \<Rightarrow>
                      if version \<noteq> kSnapVersion then Inl kCorruption
                      else if unat entry_count > kMaxEntries then Inl kCorruption
                      else if length buf < 4 then Inl kCorruption
                      else if crc32_std (take (length buf - 4) buf) \<noteq> get_u32_le (drop (length buf - 4) buf)
                      then Inl kCorruption
                      else case take_entries (unat entry_count) r index_empty of
                        Inl e \<Rightarrow> Inl e
                      | Inr m \<Rightarrow> Inr \<lparr>sn_wal_offset = unat wal_offset, sn_index = m\<rparr>)"

definition read_snapshot :: "sysenv \<Rightarrow> dir \<Rightarrow> bytes \<Rightarrow> snapshot_meta result" where
  "read_snapshot E d path =
     (case d path of
        None \<Rightarrow> Inl kNotFound
      | Some data \<Rightarrow>
          if \<not> sys_open E then Inl kNotFound
          else case read_loop (sys_pread E 0 65536) data of
            None \<Rightarrow> Inl kIOError
          | Some buf \<Rightarrow> parse_snapshot buf)"

section \<open>Round trip\<close>

lemma read_loop_benign: "benign_outs outs \<Longrightarrow> read_loop outs data = Some data"
proof (induction outs arbitrary: data)
  case (Cons out outs)
  then show ?case by (cases out) (auto simp: benign_outs_def Let_def min_def split: if_splits)
qed simp

definition snapshot_fits :: "nat \<Rightarrow> index \<Rightarrow> bool" where
  "snapshot_fits wal_offset m \<longleftrightarrow> wal_offset < 2 ^ 64 \<and> length m \<le> kMaxEntries \<and>
     (\<forall>(key, offset) \<in> set m. length key \<le> kMaxKeyLen \<and> offset < 2 ^ 64)"

lemma take_entries_put:
  assumes "snap_entries es = Inr bs" and "\<forall>(key, offset) \<in> set es. length key \<le> kMaxKeyLen \<and> offset < 2 ^ 64"
    and "index_inv (m @ es)"
  shows "take_entries (length es) (rdr pre (bs @ ys)) m = Inr (m @ es)"
  using assms
proof (induction es arbitrary: pre bs m)
  case (Cons e es)
  obtain key offset where e: "e = (key, offset)" by (cases e)
  from Cons.prems(1) obtain rest where rest: "snap_entries es = Inr rest" and len: "length key \<le> kMaxKeyLen"
    and bs: "bs = put_u32 (of_nat (length key)) @ key @ put_u64 (of_nat offset) @ rest"
    by (auto simp: e split: if_splits sum.splits)
  have sizes: "unat (of_nat (length key) :: u32) = length key" "unat (of_nat offset :: u64) = offset"
    using len Cons.prems(2) by (simp_all add: e kMaxKeyLen_def unat_of_nat_u32 unat_of_nat_u64)
  have "index_get m key = None"
    using Cons.prems(3) by (auto simp: index_get_def index_inv_def e map_of_eq_None_iff)
  then have "index_emplace key offset m = m @ [e]" by (simp add: index_emplace_def e)
  then show ?case
    using Cons.IH [OF rest, of "m @ [e]"] Cons.prems(2,3) len by (simp add: bs sizes)
qed simp

lemma snap_entries_ok:
  "\<forall>(key, offset) \<in> set es. length key \<le> kMaxKeyLen \<and> offset < 2 ^ 64 \<Longrightarrow> \<exists>bs. snap_entries es = Inr bs"
  by (induction es) auto

lemma parse_snap_body:
  assumes "snapshot_fits wal_offset es" and "index_inv es"
  obtains body where "snap_body wal_offset es = Inr body"
    and "parse_snapshot (body @ put_u32 (crc32_std body)) = Inr \<lparr>sn_wal_offset = wal_offset, sn_index = es\<rparr>"
proof -
  have fit: "\<forall>(key, offset) \<in> set es. length key \<le> kMaxKeyLen \<and> offset < 2 ^ 64"
    using assms(1) by (simp add: snapshot_fits_def)
  then obtain bs where bs: "snap_entries es = Inr bs" using snap_entries_ok by blast
  let ?h = "snap_magic @ put_u32 kSnapVersion @ put_u64 (of_nat wal_offset) @ put_u32 (of_nat (length es))"
  let ?b = "?h @ bs"
  have body: "snap_body wal_offset es = Inr ?b" by (simp add: snap_body_def bs)
  let ?buf = "?b @ put_u32 (crc32_std ?b)"
  have magic: "length snap_magic = 4" by (simp add: snap_magic_def)
  have r0: "\<lparr>rd_buf = ?buf, rd_pos = 0\<rparr> = rdr [] (snap_magic @ (put_u32 kSnapVersion @ (put_u64 (of_nat wal_offset) @
      (put_u32 (of_nat (length es)) @ (bs @ put_u32 (crc32_std ?b))))))"
    by (simp add: rdr_def)
  have n: "unat (of_nat wal_offset :: u64) = wal_offset" "unat (of_nat (length es) :: u32) = length es"
    using assms(1) by (simp_all add: snapshot_fits_def kMaxEntries_def unat_of_nat_u32 unat_of_nat_u64)
  have crc: "take (length ?buf - 4) ?buf = ?b" "drop (length ?buf - 4) ?buf = put_u32 (crc32_std ?b)"
    by simp_all
  have size: "\<not> length ?buf < 24" by (simp add: magic)
  have "parse_snapshot ?buf = Inr \<lparr>sn_wal_offset = wal_offset, sn_index = es\<rparr>"
    unfolding parse_snapshot_def r0 crc using size assms(1,2)
    by (simp add: magic n take_entries_put [OF bs fit, of "[]", simplified] index_empty_def snapshot_fits_def)
  with body show ?thesis by (rule that)
qed

lemma write_snapshot_benign:
  assumes "benign E" and "snapshot_fits wal_offset es" and "index_inv es"
  obtains buf where "write_snapshot E path wal_offset es d = (kOk, d(path \<mapsto> buf))"
    and "parse_snapshot buf = Inr \<lparr>sn_wal_offset = wal_offset, sn_index = es\<rparr>"
    and "buf = take (length buf - 4) buf @ put_u32 (crc32_std (take (length buf - 4) buf))"
proof -
  from parse_snap_body [OF assms(2,3)] obtain body where body: "snap_body wal_offset es = Inr body"
    and parse: "parse_snapshot (body @ put_u32 (crc32_std body)) = Inr \<lparr>sn_wal_offset = wal_offset, sn_index = es\<rparr>" .
  have "sys_open E" "sys_fsync E" "benign_outs (sys_write E off n)" for off n
    using assms(1) by (auto simp: benign_def)
  then have "write_snapshot E path wal_offset es d = (kOk, d(path \<mapsto> body @ put_u32 (crc32_std body)))"
    using assms(2) by (simp add: write_snapshot_def body write_loop_benign_outs snapshot_fits_def)
  then show ?thesis using parse by (rule that) simp
qed

lemma read_snapshot_benign:
  "benign E \<Longrightarrow> d path = Some buf \<Longrightarrow> read_snapshot E d path = parse_snapshot buf"
  by (simp add: read_snapshot_def benign_def read_loop_benign)

section \<open>Damage\<close>

lemma parse_snapshot_bad_crc:
  assumes "crc32_std (take (length buf - 4) buf) \<noteq> get_u32_le (drop (length buf - 4) buf)"
  shows "parse_snapshot buf = Inl kCorruption"
  using assms by (simp add: parse_snapshot_def split: option.splits)

text \<open>A burst of at most four other bytes in the body of a file that ends with its checksum.\<close>

lemma parse_snapshot_burst:
  assumes "buf = take (length buf - 4) buf @ put_u32 (crc32_std (take (length buf - 4) buf))"
    and "i + length w \<le> length buf - 4" and "length w \<le> 4" and "w \<noteq> take (length w) (drop i buf)"
  shows "parse_snapshot (take i buf @ w @ drop (i + length w) buf) = Inl kCorruption"
proof -
  define body where "body = take (length buf - 4) buf"
  have buf: "buf = body @ put_u32 (crc32_std body)" using assms(1) by (simp add: body_def)
  have len: "i + length w \<le> length body" using assms(2) by (simp add: body_def)
  have in_body: "i < length body" using assms(4) len by (cases w) auto
  let ?v = "take (length w) (drop i body)"
  have split: "body = take i body @ ?v @ drop (i + length w) body"
    by (metis append_take_drop_id drop_drop add.commute)
  have same: "take (length w) (drop i buf) = ?v" using len by (simp add: buf)
  have damaged: "take i buf @ w @ drop (i + length w) buf =
      (take i body @ w @ drop (i + length w) body) @ put_u32 (crc32_std body)"
    using len by (simp add: buf)
  have "crc32_std (take i body @ w @ drop (i + length w) body) \<noteq> crc32_std (take i body @ ?v @ drop (i + length w) body)"
    by (rule crc32_burst_neq) (use assms(3,4) len same in simp_all)
  then have "crc32_std (take i body @ w @ drop (i + length w) body) \<noteq> crc32_std body" using split by simp
  then show ?thesis unfolding damaged using len in_body by (intro parse_snapshot_bad_crc) (simp add: min_def)
qed

text \<open>
  C40: a snapshot file is read back as it was written, or not at all. A table whose keys, offsets
  and size are within the limits is written successfully, whatever the iteration order of the
  hash table and however the writes are split or interrupted, and reading the file gives the
  watermark and the same table. If up to four consecutive bytes before the checksum of the
  file are then overwritten with other bytes, reading it reports corruption.
\<close>

theorem snapshot_file_safe:
  assumes "benign E" and "benign E'" and "is_order ord" and "index_inv m" and "snapshot_fits wal_offset m"
  shows "\<exists>d' buf meta. write_snapshot E path wal_offset (index_dump ord m) d = (kOk, d') \<and> d' path = Some buf \<and>
    read_snapshot E' d' path = Inr meta \<and> sn_wal_offset meta = wal_offset \<and>
    index_inv (sn_index meta) \<and> index_get (sn_index meta) = index_get m \<and>
    (\<forall>i w. i + length w \<le> length buf - 4 \<and> length w \<le> 4 \<and> w \<noteq> take (length w) (drop i buf) \<longrightarrow>
       read_snapshot E' (d'(path \<mapsto> take i buf @ w @ drop (i + length w) buf)) path = Inl kCorruption)"
proof -
  note dump = index_dump_get [OF assms(3,4)]
  have "set (index_dump ord m) = set m"
    using assms(3) by (metis index_dump_def is_order_def mset_eq_setD)
  then have "snapshot_fits wal_offset (index_dump ord m)"
    using assms(5) dump(3) by (simp add: snapshot_fits_def)
  from write_snapshot_benign [OF assms(1) this dump(2)] obtain buf
    where saved: "write_snapshot E path wal_offset (index_dump ord m) d = (kOk, d(path \<mapsto> buf))"
      and parse: "parse_snapshot buf = Inr \<lparr>sn_wal_offset = wal_offset, sn_index = index_dump ord m\<rparr>"
      and crc: "buf = take (length buf - 4) buf @ put_u32 (crc32_std (take (length buf - 4) buf))" .
  have read: "read_snapshot E' (d'(path \<mapsto> b)) path = parse_snapshot b" for d' b
    by (rule read_snapshot_benign [OF assms(2)]) simp
  show ?thesis
    using saved parse dump parse_snapshot_burst [OF crc]
    by (intro exI [of _ "d(path \<mapsto> buf)"] exI [of _ buf]) (simp add: read)
qed

theorem snapshot_file_safe_witness:
  "\<exists>d' buf meta. write_snapshot choppy_env [115] 42 (index_dump rev [([97], 8), ([98], 20)]) Map.empty = (kOk, d') \<and>
    d' [115] = Some buf \<and> read_snapshot calm_env d' [115] = Inr meta \<and> index_get (sn_index meta) [97] = Some 8 \<and>
    read_snapshot calm_env (d'([115] \<mapsto> (buf ! 0 + 1) # drop 1 buf)) [115] = Inl kCorruption"
proof -
  obtain d' buf meta where *: "write_snapshot choppy_env [115] 42 (index_dump rev [([97], 8), ([98], 20)]) Map.empty = (kOk, d')"
      "d' [115] = Some buf" "read_snapshot calm_env d' [115] = Inr meta"
      "index_get (sn_index meta) = index_get [([97], 8), ([98], 20)]"
      and burst: "\<And>i w. i + length w \<le> length buf - 4 \<Longrightarrow> length w \<le> 4 \<Longrightarrow> w \<noteq> take (length w) (drop i buf) \<Longrightarrow>
        read_snapshot calm_env (d'([115] \<mapsto> take i buf @ w @ drop (i + length w) buf)) [115] = Inl kCorruption"
    using snapshot_file_safe [OF benign_choppy benign_calm, of rev "[([97], 8), ([98], 20)]" 42 "[115]" Map.empty]
    by (auto simp: is_order_def index_inv_def snapshot_fits_def kMaxEntries_def kMaxKeyLen_def)
  have "parse_snapshot buf = Inr meta" using read_snapshot_benign [where d = d', OF benign_calm *(2)] *(3) by simp
  then have "24 \<le> length buf" by (auto simp: parse_snapshot_def split: if_splits)
  then have "read_snapshot calm_env (d'([115] \<mapsto> (buf ! 0 + 1) # drop 1 buf)) [115] = Inl kCorruption"
    using burst [of 0 "[buf ! 0 + 1]"] by (cases buf) auto
  moreover have "index_get (sn_index meta) [97] = Some 8" using *(4) by (simp add: index_get_def)
  ultimately show ?thesis using *(1-3) by blast
qed

end
