(* ===== verification/Storage_Engine.thy ===== *)
theory Storage_Engine
  imports Snapshot Log_Recovery
begin

text \<open>
  \<^verbatim>\<open>class StorageEngine\<close> (\<^verbatim>\<open>src/storage/storage_engine.cpp\<close>): the key-value store over the log,
  the index, the snapshots and the manifest. Every operation holds the engine's mutex from
  its first statement to its last, so an operation is one step on the state. The fields
  \<open>e_opts\<close> to \<open>e_snap_seq\<close> are the members of the class; \<open>e_durable\<close> is not: it records how
  long the log file was at the last successful \<open>fsync\<close>, so that durability can be stated.
\<close>

section \<open>State and environment\<close>

record options =
  o_sync_writes :: bool
  o_group_commit :: bool
  o_sync_every_n_appends :: nat
  o_snapshot_dir :: bytes

record engine =
  e_opts :: options
  e_log :: log
  e_index :: index
  e_appends :: nat
  e_snap_seq :: u64
  e_durable :: nat

definition new_engine :: "options \<Rightarrow> engine" where
  "new_engine opts = \<lparr>e_opts = opts, e_log = new_log, e_index = index_empty, e_appends = 0,
     e_snap_seq = 0, e_durable = 0\<rparr>"

text \<open>One environment per file, and the iteration order of the hash table.\<close>

record store_env =
  env_wal :: sysenv
  env_snap :: sysenv
  env_man :: sysenv
  env_ord :: "index \<Rightarrow> index"

definition benign_env :: "store_env \<Rightarrow> bool" where
  "benign_env V \<longleftrightarrow> benign (env_wal V) \<and> benign (env_snap V) \<and> benign (env_man V) \<and> is_order (env_ord V)"

definition calm_store :: store_env where
  "calm_store = \<lparr>env_wal = calm_env, env_snap = calm_env, env_man = calm_env, env_ord = id\<rparr>"

section \<open>Operations\<close>

text \<open>\<^verbatim>\<open>log_.sync()\<close>, with the record of what it made durable.\<close>

definition engine_fsync :: "store_env \<Rightarrow> engine \<Rightarrow> status_code \<times> engine" where
  "engine_fsync V st =
     (let s = log_sync (env_wal V) (e_log st)
      in (s, if status_ok s then st\<lparr>e_durable := length (f_data (l_file (e_log st)))\<rparr> else st))"

definition maybe_fsync_after_append :: "store_env \<Rightarrow> engine \<Rightarrow> status_code \<times> engine" where
  "maybe_fsync_after_append V st =
     (let opts = e_opts st
      in if \<not> o_sync_writes opts then (kOk, st)
         else if \<not> o_group_commit opts then engine_fsync V st
         else if o_sync_every_n_appends opts = 0 then (kOk, st)
         else let st = st\<lparr>e_appends := u64_wrap (e_appends st + 1)\<rparr>
              in if e_appends st < o_sync_every_n_appends opts then (kOk, st)
                 else engine_fsync V (st\<lparr>e_appends := 0\<rparr>))"

definition apply_wal_entry :: "wal_entry \<Rightarrow> index \<Rightarrow> index" where
  "apply_wal_entry e m =
     (if we_op e = OpDelete then index_remove (we_key e) m else index_put (we_key e) (we_offset e) m)"

definition apply_cb :: "wal_entry \<Rightarrow> index \<Rightarrow> bool \<times> index" where
  "apply_cb e m = (True, apply_wal_entry e m)"

definition recover_inner :: "store_env \<Rightarrow> engine \<Rightarrow> status_code \<times> engine" where
  "recover_inner V st =
     (let (s, m) = iterate (env_wal V) (e_log st) apply_cb index_empty
      in (s, st\<lparr>e_index := m\<rparr>))"

definition engine_recover :: "store_env \<Rightarrow> engine \<Rightarrow> status_code \<times> engine" where
  "engine_recover V st = recover_inner V st"

definition manifest_path :: "engine \<Rightarrow> bytes" where
  "manifest_path st = o_snapshot_dir (e_opts st) @ ascii ''/MANIFEST''"

definition engine_open :: "store_env \<Rightarrow> bytes \<Rightarrow> dir \<Rightarrow> engine \<Rightarrow> status_code \<times> engine" where
  "engine_open V wal d st =
     (let (s, lg) = log_open (env_wal V) wal (e_log st);
          st = st\<lparr>e_appends := 0, e_log := lg\<rparr>
      in if \<not> status_ok s then (s, st)
         else case read_manifest_latest (env_man V) d (manifest_path st) of
           Inl _ \<Rightarrow> recover_inner V st
         | Inr entry \<Rightarrow>
             case read_snapshot (env_snap V) d (o_snapshot_dir (e_opts st) @ ascii ''/'' @ m_filename entry) of
               Inl _ \<Rightarrow> recover_inner V st
             | Inr meta \<Rightarrow>
                 if sn_wal_offset meta \<le> log_size lg
                 then let (s, m) = iterate_from (env_wal V) lg (sn_wal_offset meta) apply_cb
                                     (index_load (sn_index meta) (e_index st))
                      in (s, st\<lparr>e_index := m\<rparr>)
                 else recover_inner V st)"

text \<open>\<open>put\<close>, \<open>put_vector\<close> and \<open>put_vector_v2\<close> differ only in the operation code they log.\<close>

definition engine_put_as ::
  "op_type \<Rightarrow> store_env \<Rightarrow> bytes \<Rightarrow> bytes \<Rightarrow> engine \<Rightarrow> status_code \<times> engine" where
  "engine_put_as op V key value st =
     (case log_append (env_wal V) op key value (e_log st) of
        (Inl s, lg) \<Rightarrow> (s, st\<lparr>e_log := lg\<rparr>)
      | (Inr offset, lg) \<Rightarrow>
          maybe_fsync_after_append V (st\<lparr>e_log := lg, e_index := index_put key offset (e_index st)\<rparr>))"

definition engine_put :: "store_env \<Rightarrow> bytes \<Rightarrow> bytes \<Rightarrow> engine \<Rightarrow> status_code \<times> engine" where
  "engine_put = engine_put_as OpPut"

definition engine_put_vector :: "store_env \<Rightarrow> bytes \<Rightarrow> bytes \<Rightarrow> engine \<Rightarrow> status_code \<times> engine" where
  "engine_put_vector = engine_put_as OpVectorPut"

definition engine_put_vector_v2 :: "store_env \<Rightarrow> bytes \<Rightarrow> bytes \<Rightarrow> engine \<Rightarrow> status_code \<times> engine" where
  "engine_put_vector_v2 = engine_put_as OpVectorPutV2"

definition engine_get :: "store_env \<Rightarrow> engine \<Rightarrow> bytes \<Rightarrow> bytes result" where
  "engine_get V st key =
     (case index_get (e_index st) key of
        None \<Rightarrow> Inl kNotFound
      | Some offset \<Rightarrow>
          case read_value_at (env_wal V) (e_log st) offset of
            Inl s \<Rightarrow> Inl s
          | Inr (wal_key, wal_value) \<Rightarrow> if wal_key \<noteq> key then Inl kCorruption else Inr wal_value)"

definition engine_remove :: "store_env \<Rightarrow> bytes \<Rightarrow> engine \<Rightarrow> status_code \<times> engine" where
  "engine_remove V key st =
     (case log_append (env_wal V) OpDelete key [] (e_log st) of
        (Inl s, lg) \<Rightarrow> (s, st\<lparr>e_log := lg\<rparr>)
      | (Inr offset, lg) \<Rightarrow>
          maybe_fsync_after_append V (st\<lparr>e_log := lg, e_index := index_remove key (e_index st)\<rparr>))"

definition snap_filename :: "u64 \<Rightarrow> bytes" where
  "snap_filename seq = ascii ''snap-'' @ to_string (unat seq) @ ascii ''.snap''"

definition engine_snapshot :: "store_env \<Rightarrow> dir \<Rightarrow> engine \<Rightarrow> status_code \<times> engine \<times> dir" where
  "engine_snapshot V d st =
     (let (s, st) = engine_fsync V st
      in if \<not> status_ok s then (s, st, d)
         else if \<not> sys_mkdir (env_snap V) then (kIOError, st, d)
         else
           let wal_offset = log_size (e_log st);
               seq = of_nat (sys_time (env_snap V)) * 1000 + (e_snap_seq st mod 1000);
               st = st\<lparr>e_snap_seq := e_snap_seq st + 1\<rparr>;
               filename = snap_filename seq;
               final_path = o_snapshot_dir (e_opts st) @ ascii ''/'' @ filename;
               tmp_path = final_path @ ascii ''.tmp'';
               (s, d) = write_snapshot (env_snap V) tmp_path wal_offset (index_dump (env_ord V) (e_index st)) d
           in if \<not> status_ok s then (s, st, d)
              else if \<not> sys_rename (env_snap V) then (kIOError, st, d)
              else
                let d = d(tmp_path := None, final_path := d tmp_path);
                    (s, d) = write_manifest_append (env_man V) (manifest_path st)
                               \<lparr>m_seq = seq, m_wal_offset = of_nat wal_offset, m_filename = filename\<rparr> d
                in (s, st, d))"

fun visit_loop ::
  "sysenv \<Rightarrow> log \<Rightarrow> (bytes \<Rightarrow> bytes \<Rightarrow> 's \<Rightarrow> bool \<times> 's) \<Rightarrow> index \<Rightarrow> 's \<Rightarrow> status_code \<times> 's" where
  "visit_loop E lg cb [] s = (kOk, s)"
| "visit_loop E lg cb ((key, offset) # rest) s =
     (case read_value_at E lg offset of
        Inl e \<Rightarrow> (e, s)
      | Inr (wal_key, wal_value) \<Rightarrow>
          if wal_key \<noteq> key then (kCorruption, s)
          else let (continue, s) = cb key wal_value s
               in if \<not> continue then (kOk, s) else visit_loop E lg cb rest s)"

definition visit_live ::
  "store_env \<Rightarrow> engine \<Rightarrow> (bytes \<Rightarrow> bytes \<Rightarrow> 's \<Rightarrow> bool \<times> 's) \<Rightarrow> 's \<Rightarrow> status_code \<times> 's" where
  "visit_live V st cb s =
     visit_loop (env_wal V) (e_log st) cb (index_dump (env_ord V) (e_index st)) s"

definition engine_sync :: "store_env \<Rightarrow> engine \<Rightarrow> status_code \<times> engine" where
  "engine_sync V st = engine_fsync V (st\<lparr>e_appends := 0\<rparr>)"

definition wal_size :: "engine \<Rightarrow> nat" where
  "wal_size st = log_size (e_log st)"

definition key_count :: "engine \<Rightarrow> nat" where
  "key_count st = index_size (e_index st)"

end
