(* ===== verification/Filter_Index.thy ===== *)
theory Filter_Index
  imports Entry_Meta "HOL-Library.AList"
begin

text \<open>
  \<^verbatim>\<open>class BitSet\<close> and \<^verbatim>\<open>class FilterIndex\<close> (\<^verbatim>\<open>src/index/filter_index.cpp\<close> and its header): for every
  scalar field a table from values to sets of ids, and the evaluation of filter expressions on
  it. An operation holds the mutex throughout and is one step. Doubles are their IEEE 754 bit
  patterns, compared as the language compares them: a NaN equals nothing, the two zeros are
  equal. Hash tables are association lists; no operation depends on the order of their entries.
\<close>

section \<open>Bit sets\<close>

type_synonym bitset = "u64 list"

definition word_index :: "u64 \<Rightarrow> nat" where
  "word_index i = unat (drop_bit 6 i)"

definition bit_mask :: "u64 \<Rightarrow> u64" where
  "bit_mask i = push_bit (unat (i AND 63)) 1"

definition bs_ensure :: "u64 \<Rightarrow> bitset \<Rightarrow> bitset" where
  "bs_ensure i ws =
     (let need = word_index i + 1 in if length ws < need then ws @ replicate (need - length ws) 0 else ws)"

definition bs_set :: "u64 \<Rightarrow> bitset \<Rightarrow> bitset" where
  "bs_set i ws =
     (let ws = bs_ensure i ws in ws[word_index i := ws ! word_index i OR bit_mask i])"

definition bs_reset :: "u64 \<Rightarrow> bitset \<Rightarrow> bitset" where
  "bs_reset i ws =
     (if word_index i < length ws then ws[word_index i := ws ! word_index i AND NOT (bit_mask i)] else ws)"

definition bs_test :: "u64 \<Rightarrow> bitset \<Rightarrow> bool" where
  "bs_test i ws \<longleftrightarrow> \<not> word_index i \<ge> length ws \<and> ws ! word_index i AND bit_mask i \<noteq> 0"

text \<open>The contract of a set of ids, and what follows from it for any sequence of updates.\<close>

locale id_set =
  fixes emp :: 's and ins :: "u64 \<Rightarrow> 's \<Rightarrow> 's" and rem :: "u64 \<Rightarrow> 's \<Rightarrow> 's" and mem :: "u64 \<Rightarrow> 's \<Rightarrow> bool"
  assumes mem_emp: "\<not> mem i emp"
    and mem_ins: "mem i (ins j s) \<longleftrightarrow> i = j \<or> mem i s"
    and mem_rem: "mem i (rem j s) \<longleftrightarrow> i \<noteq> j \<and> mem i s"
begin

lemma ins_all: "mem i (fold ins js s) \<longleftrightarrow> i \<in> set js \<or> mem i s"
  by (induction js arbitrary: s) (auto simp: mem_ins)

lemma rem_ins: "mem i (rem j (ins j s)) \<longleftrightarrow> mem i (rem j s)"
  by (auto simp: mem_ins mem_rem)

end

lemma mask_63_less: "unat (i AND 63 :: u64) < 64"
proof -
  have "i AND 63 = take_bit 6 i" by (simp add: take_bit_eq_mask mask_eq_exp_minus_1)
  then have "unat (i AND 63) = unat i mod 64" by (simp add: take_bit_eq_mod unat_mod)
  then show ?thesis by simp
qed

lemma id_split:
  assumes "word_index i = word_index j" and "i AND 63 = j AND 63"
  shows "i = j"
proof -
  have "drop_bit 6 i = drop_bit 6 j" using assms(1) by (simp add: word_index_def word_unat_eq_iff)
  moreover have "take_bit 6 i = take_bit 6 j"
    using assms(2) by (simp add: take_bit_eq_mask mask_eq_exp_minus_1)
  ultimately show ?thesis by (metis bits_ident)
qed

lemma bit_mask_bit: "bit (bit_mask i) n \<longleftrightarrow> n = unat (i AND 63)"
  using mask_63_less [of i] by (auto simp: bit_mask_def push_bit_of_1 bit_exp_iff)

lemma mask_and_zero: "w AND bit_mask i = 0 \<longleftrightarrow> \<not> bit w (unat (i AND 63))"
proof -
  have "w AND bit_mask i = 0 \<longleftrightarrow> (\<forall>n. \<not> (bit w n \<and> n = unat (i AND 63)))"
    by (simp add: bit_eq_iff [of "w AND bit_mask i" 0] bit_and_iff bit_mask_bit)
       (metis bit_imp_le_length linorder_not_le mask_63_less)
  then show ?thesis by blast
qed

lemma bs_test_bit: "bs_test i ws \<longleftrightarrow> word_index i < length ws \<and> bit (ws ! word_index i) (unat (i AND 63))"
  by (auto simp: bs_test_def mask_and_zero)

lemma bs_ensure_length: "word_index i < length (bs_ensure i ws)"
  by (simp add: bs_ensure_def Let_def)

lemma bs_test_ensure: "bs_test i (bs_ensure j ws) \<longleftrightarrow> bs_test i ws"
  by (auto simp: bs_test_bit bs_ensure_def Let_def nth_append)

lemma same_bit: "word_index i = word_index j \<Longrightarrow> unat (i AND 63) = unat (j AND 63) \<Longrightarrow> i = j"
  using id_split [of i j] by (simp add: word_unat_eq_iff)

lemma bs_test_set: "bs_test i (bs_set j ws) \<longleftrightarrow> i = j \<or> bs_test i ws"
proof -
  let ?ws = "bs_ensure j ws"
  have "bs_test i (bs_set j ws) \<longleftrightarrow> i = j \<or> bs_test i ?ws"
    using bs_ensure_length [of j ws] same_bit [of i j]
    by (auto simp: bs_set_def Let_def bs_test_bit nth_list_update bit_or_iff bit_mask_bit)
  then show ?thesis by (simp add: bs_test_ensure)
qed

lemma bs_test_reset: "bs_test i (bs_reset j ws) \<longleftrightarrow> i \<noteq> j \<and> bs_test i ws"
  using same_bit [of i j] mask_63_less
  by (auto simp: bs_reset_def bs_test_bit nth_list_update bit_and_iff bit_not_iff bit_mask_bit)

interpretation bitset: id_set "[]" bs_set bs_reset bs_test
  by unfold_locales (simp_all add: bs_test_set bs_test_reset, simp add: bs_test_def)

section \<open>Comparing scalar values\<close>

definition dbl_nan :: "u64 \<Rightarrow> bool" where
  "dbl_nan b \<longleftrightarrow> take_bit 63 b > 0x7FF0000000000000"

text \<open>Sign and magnitude: on numbers that are not NaN, the order of the keys is the order of the values.\<close>

definition dbl_key :: "u64 \<Rightarrow> int" where
  "dbl_key b = (if bit b 63 then - uint (take_bit 63 b) else uint (take_bit 63 b))"

definition dbl_cmp :: "(int \<Rightarrow> int \<Rightarrow> bool) \<Rightarrow> u64 \<Rightarrow> u64 \<Rightarrow> bool" where
  "dbl_cmp c a b \<longleftrightarrow> \<not> dbl_nan a \<and> \<not> dbl_nan b \<and> c (dbl_key a) (dbl_key b)"

definition int64_cmp :: "(int \<Rightarrow> int \<Rightarrow> bool) \<Rightarrow> u64 \<Rightarrow> u64 \<Rightarrow> bool" where
  "int64_cmp c a b \<longleftrightarrow> c (sint a) (sint b)"

section \<open>Tables from values to id sets\<close>

text \<open>
  \<open>m[v].set(id)\<close> and \<open>m.find(v)\<close> on an \<open>unordered_map\<close> whose key equality is \<open>eq\<close>.
\<close>

fun bucket_set :: "('v \<Rightarrow> 'v \<Rightarrow> bool) \<Rightarrow> 'v \<Rightarrow> u64 \<Rightarrow> ('v \<times> bitset) list \<Rightarrow> ('v \<times> bitset) list" where
  "bucket_set eq v i [] = [(v, bs_set i [])]"
| "bucket_set eq v i ((w, bs) # m) =
     (if eq w v then (w, bs_set i bs) # m else (w, bs) # bucket_set eq v i m)"

fun bucket_find :: "('v \<Rightarrow> 'v \<Rightarrow> bool) \<Rightarrow> 'v \<Rightarrow> ('v \<times> bitset) list \<Rightarrow> bitset option" where
  "bucket_find eq v [] = None"
| "bucket_find eq v ((w, bs) # m) = (if eq w v then Some bs else bucket_find eq v m)"

definition bucket_reset :: "u64 \<Rightarrow> ('v \<times> bitset) list \<Rightarrow> ('v \<times> bitset) list" where
  "bucket_reset i m = map (\<lambda>(v, bs). (v, bs_reset i bs)) m"

definition bucket_contains :: "('v \<Rightarrow> 'v \<Rightarrow> bool) \<Rightarrow> 'v \<Rightarrow> u64 \<Rightarrow> ('v \<times> bitset) list \<Rightarrow> bool" where
  "bucket_contains eq v i m = (case bucket_find eq v m of None \<Rightarrow> False | Some bs \<Rightarrow> bs_test i bs)"

definition bucket_any :: "('v \<Rightarrow> bool) \<Rightarrow> u64 \<Rightarrow> ('v \<times> bitset) list \<Rightarrow> bool" where
  "bucket_any c i m = list_ex (\<lambda>(v, bs). c v \<and> bs_test i bs) m"

section \<open>The index\<close>

datatype filter_op = FEq | FNe | FLt | FLe | FGt | FGe

record clause =
  cl_field :: bytes
  cl_op :: filter_op
  cl_value :: scalar_value

type_synonym filter_expr = "clause list"

record field_index =
  fi_ints :: "(u64 \<times> bitset) list"
  fi_doubles :: "(u64 \<times> bitset) list"
  fi_strs :: "(bytes \<times> bitset) list"

record filter_index =
  fx_fields :: "(bytes \<times> field_index) list"
  fx_all :: bitset

definition empty_field :: field_index where
  "empty_field = \<lparr>fi_ints = [], fi_doubles = [], fi_strs = []\<rparr>"

definition empty_filter :: filter_index where
  "empty_filter = \<lparr>fx_fields = [], fx_all = []\<rparr>"

abbreviation dbl_eq :: "u64 \<Rightarrow> u64 \<Rightarrow> bool" where
  "dbl_eq \<equiv> dbl_cmp (=)"

definition find_field :: "filter_index \<Rightarrow> bytes \<Rightarrow> field_index option" where
  "find_field fx name = map_of (fx_fields fx) name"

definition field_or_new :: "filter_index \<Rightarrow> bytes \<Rightarrow> field_index" where
  "field_or_new fx name = (case find_field fx name of None \<Rightarrow> empty_field | Some f \<Rightarrow> f)"

fun field_add :: "u64 \<Rightarrow> scalar_value \<Rightarrow> field_index \<Rightarrow> field_index" where
  "field_add i (VInt v) f = f\<lparr>fi_ints := bucket_set (=) v i (fi_ints f)\<rparr>"
| "field_add i (VDouble v) f = f\<lparr>fi_doubles := bucket_set dbl_eq v i (fi_doubles f)\<rparr>"
| "field_add i (VStr v) f = f\<lparr>fi_strs := bucket_set (=) v i (fi_strs f)\<rparr>"

definition add_scalar :: "u64 \<Rightarrow> scalar_field \<Rightarrow> filter_index \<Rightarrow> filter_index" where
  "add_scalar i s fx =
     fx\<lparr>fx_fields := AList.update (sf_name s) (field_add i (sf_value s) (field_or_new fx (sf_name s))) (fx_fields fx)\<rparr>"

definition filter_add :: "u64 \<Rightarrow> scalar_field list \<Rightarrow> filter_index \<Rightarrow> filter_index" where
  "filter_add i scalars fx =
     (let fx = fold (add_scalar i) scalars fx in fx\<lparr>fx_all := bs_set i (fx_all fx)\<rparr>)"

definition field_remove :: "u64 \<Rightarrow> field_index \<Rightarrow> field_index" where
  "field_remove i f = \<lparr>fi_ints = bucket_reset i (fi_ints f), fi_doubles = bucket_reset i (fi_doubles f),
     fi_strs = bucket_reset i (fi_strs f)\<rparr>"

definition filter_remove :: "u64 \<Rightarrow> filter_index \<Rightarrow> filter_index" where
  "filter_remove i fx =
     \<lparr>fx_fields = map (\<lambda>(name, f). (name, field_remove i f)) (fx_fields fx), fx_all = bs_reset i (fx_all fx)\<rparr>"

fun value_contains :: "field_index \<Rightarrow> scalar_value \<Rightarrow> u64 \<Rightarrow> bool" where
  "value_contains f (VInt v) i = bucket_contains (=) v i (fi_ints f)"
| "value_contains f (VDouble v) i = bucket_contains dbl_eq v i (fi_doubles f)"
| "value_contains f (VStr v) i = bucket_contains (=) v i (fi_strs f)"

fun range_cmp :: "filter_op \<Rightarrow> int \<Rightarrow> int \<Rightarrow> bool" where
  "range_cmp FLt a b = (a < b)"
| "range_cmp FLe a b = (a \<le> b)"
| "range_cmp FGt a b = (a > b)"
| "range_cmp FGe a b = (a \<ge> b)"
| "range_cmp _ a b = False"

definition range_matches :: "filter_op \<Rightarrow> field_index \<Rightarrow> scalar_value \<Rightarrow> u64 \<Rightarrow> bool" where
  "range_matches op f v i =
     (case v of
        VInt t \<Rightarrow> bucket_any (\<lambda>w. int64_cmp (range_cmp op) w t) i (fi_ints f)
      | VDouble t \<Rightarrow> bucket_any (\<lambda>w. dbl_cmp (range_cmp op) w t) i (fi_doubles f)
      | VStr _ \<Rightarrow> False)"

definition clause_matches :: "filter_index \<Rightarrow> u64 \<Rightarrow> clause \<Rightarrow> bool" where
  "clause_matches fx i c =
     (case find_field fx (cl_field c) of
        None \<Rightarrow> False
      | Some f \<Rightarrow>
          case cl_op c of
            FEq \<Rightarrow> value_contains f (cl_value c) i
          | FNe \<Rightarrow> if \<not> bs_test i (fx_all fx) then False else \<not> value_contains f (cl_value c) i
          | op \<Rightarrow> range_matches op f (cl_value c) i)"

definition filter_matches :: "filter_index \<Rightarrow> u64 \<Rightarrow> filter_expr \<Rightarrow> bool" where
  "filter_matches fx i expr = list_all (clause_matches fx i) expr"

definition has_field :: "filter_index \<Rightarrow> bytes \<Rightarrow> bool" where
  "has_field fx name \<longleftrightarrow> find_field fx name \<noteq> None"

definition field_count :: "filter_index \<Rightarrow> nat" where
  "field_count fx = length (fx_fields fx)"

end
