(* ===== verification/Hnsw.thy ===== *)
theory Hnsw
  imports Lumina_Prelude "HOL-Library.AList" "HOL-Library.Multiset"
begin

text \<open>
  \<^verbatim>\<open>class HNSWIndex\<close> (\<^verbatim>\<open>src/vector/hnsw_index.cpp\<close>): the layered proximity graph. The writing
  operations hold \<open>struct_lock\<close> exclusively and a search holds it shared from its first access
  to the graph to its last, so each is one step on the state; the stripe locks inside guard
  nothing more. Vectors and distances are 32-bit floats given by their bit patterns.

  Three things are arguments, collected in \<open>hnsw_lib\<close>: the distance function, which the class
  takes as a function pointer; which of several equally near candidates is on top of the
  \<open>priority_queue\<close>; and how \<open>std::sort\<close> orders equally distant candidates. The random level of
  an inserted node is an argument of the insertion.
\<close>

section \<open>Floats\<close>

definition flt_nan :: "u32 \<Rightarrow> bool" where
  "flt_nan b \<longleftrightarrow> take_bit 31 b > 0x7F800000"

definition flt_key :: "u32 \<Rightarrow> int" where
  "flt_key b = (if bit b 31 then - uint (take_bit 31 b) else uint (take_bit 31 b))"

definition flt_less :: "u32 \<Rightarrow> u32 \<Rightarrow> bool" where
  "flt_less a b \<longleftrightarrow> \<not> flt_nan a \<and> \<not> flt_nan b \<and> flt_key a < flt_key b"

section \<open>State\<close>

type_synonym fvec = "u32 list"
type_synonym cand = "u32 \<times> nat"

record node =
  n_id :: u64
  n_vec :: fvec
  n_nbrs :: "nat list list"
  n_max_layer :: nat
  n_deleted :: bool

record hnsw =
  h_dim :: nat
  h_M :: nat
  h_efc :: nat
  h_nodes :: "node list"
  h_ids :: "(u64 \<times> nat) list"
  h_entry :: int
  h_max_layer :: int
  h_active :: nat

record hnsw_lib =
  hl_dist :: "fvec \<Rightarrow> fvec \<Rightarrow> u32"
  hl_top :: "cand list \<Rightarrow> nat"
  hl_sort :: "cand list \<Rightarrow> cand list"

definition new_hnsw :: "nat \<Rightarrow> nat \<Rightarrow> nat \<Rightarrow> hnsw" where
  "new_hnsw dim M efc = \<lparr>h_dim = dim, h_M = max M 2, h_efc = efc, h_nodes = [], h_ids = [],
     h_entry = -1, h_max_layer = -1, h_active = 0\<rparr>"

section \<open>Queues\<close>

text \<open>
  The expansion queue is ordered by distance alone, with the nearest on top; the queue of
  results by distance and then index (\<open>std::less\<close> on pairs), with the largest on top. Both are
  lists here. \<open>hl_top\<close> chooses among the nearest candidates; the first of them is on top if it
  names another one.
\<close>

definition nearest :: "cand list \<Rightarrow> nat list" where
  "nearest C = filter (\<lambda>j. list_all (\<lambda>c. \<not> flt_less (fst c) (fst (C ! j))) C) [0..<length C]"

definition queue_top :: "hnsw_lib \<Rightarrow> cand list \<Rightarrow> nat" where
  "queue_top L C =
     (let js = nearest C; j = hl_top L C in if j \<in> set js then j else if js = [] then 0 else hd js)"

definition queue_pop :: "nat \<Rightarrow> cand list \<Rightarrow> cand list" where
  "queue_pop j C = take j C @ drop (Suc j) C"

definition cand_less :: "cand \<Rightarrow> cand \<Rightarrow> bool" where
  "cand_less a b \<longleftrightarrow> flt_less (fst a) (fst b) \<or> \<not> flt_less (fst b) (fst a) \<and> snd a < snd b"

fun result_top :: "cand list \<Rightarrow> cand" where
  "result_top [c] = c"
| "result_top (c # d # R) = (let t = result_top (d # R) in if cand_less c t then t else c)"

definition result_push :: "nat \<Rightarrow> cand \<Rightarrow> cand list \<Rightarrow> cand list" where
  "result_push ef c R =
     (if length R < ef \<or> R \<noteq> [] \<and> flt_less (fst c) (fst (result_top R))
      then let R = c # R in if length R > ef then remove1 (result_top R) R else R
      else R)"

section \<open>Searching one layer\<close>

text \<open>
  The visited marks are a fresh list of booleans (the code stamps a thread-local vector with a
  new number per search). A neighbour index outside the graph, which would be an access out of
  bounds in the code, is skipped; the invariant excludes it.
\<close>

type_synonym search_state = "bool list \<times> cand list \<times> cand list"

fun expand ::
  "hnsw_lib \<Rightarrow> node list \<Rightarrow> fvec \<Rightarrow> nat \<Rightarrow> nat \<Rightarrow> (u64 \<Rightarrow> bool) option \<Rightarrow> nat list \<Rightarrow> search_state \<Rightarrow> search_state" where
  "expand L ns q ef layer flt [] s = s"
| "expand L ns q ef layer flt (nb # nbs) (vis, C, R) =
     (if nb \<ge> length vis \<or> vis ! nb then expand L ns q ef layer flt nbs (vis, C, R)
      else
        let vis = vis[nb := True]
        in if n_deleted (ns ! nb) \<or> layer > n_max_layer (ns ! nb)
           then expand L ns q ef layer flt nbs (vis, C, R)
           else
             let nd = hl_dist L q (n_vec (ns ! nb));
                 C = (if length C < ef \<or> C \<noteq> [] \<and> flt_less nd (fst (C ! queue_top L C)) then C @ [(nd, nb)] else C);
                 R = (case flt of
                        Some p \<Rightarrow> if \<not> p (n_id (ns ! nb)) then R else result_push ef (nd, nb) R
                      | None \<Rightarrow> result_push ef (nd, nb) R)
             in expand L ns q ef layer flt nbs (vis, C, R))"

text \<open>
  The code asks the queues for their top without testing that they are not empty. With a beam
  width of at least one this is the same, and every search has one. Only an insertion into an
  index built with \<open>ef_construction\<close> 0 (of the programs here, the benchmark with the option
  \<^verbatim>\<open>--efc 0\<close> builds one) would call \<^verbatim>\<open>top\<close> on an empty queue; the tests \<open>C \<noteq> []\<close> and \<open>R \<noteq> []\<close> say that the model then pushes nothing.
\<close>

lemma queue_tests_redundant: "0 < ef \<Longrightarrow> length C < ef \<or> C \<noteq> [] \<and> b \<longleftrightarrow> length C < ef \<or> b"
  by auto

definition unseen :: "bool list \<Rightarrow> nat" where
  "unseen vis = length (filter Not vis)"

lemma unseen_mark: "nb < length vis \<Longrightarrow> \<not> vis ! nb \<Longrightarrow> Suc (unseen (vis[nb := True])) = unseen vis"
proof (induction vis arbitrary: nb)
  case (Cons v vis)
  then show ?case by (cases nb) (auto simp: unseen_def)
qed simp

lemma expand_measure:
  "expand L ns q ef layer flt nbs (vis, C, R) = (vis', C', R') \<Longrightarrow>
    unseen vis' + length C' \<le> unseen vis + length C"
proof (induction nbs arbitrary: vis C R)
  case (Cons nb nbs)
  show ?case
  proof (cases "nb \<ge> length vis \<or> vis ! nb")
    case True
    then show ?thesis using Cons by simp
  next
    case False
    then have "Suc (unseen (vis[nb := True])) = unseen vis" by (intro unseen_mark) auto
    then show ?thesis using False Cons.prems by (auto simp: Let_def split: if_splits dest!: Cons.IH)
  qed
qed simp

lemma queue_top_less: "C \<noteq> [] \<Longrightarrow> queue_top L C < length C"
proof -
  assume ne: "C \<noteq> []"
  have "j < length C" if "j \<in> set (nearest C)" for j using that by (simp add: nearest_def)
  then show ?thesis using ne by (auto simp: queue_top_def Let_def dest: hd_in_set)
qed

lemma length_queue_pop: "C \<noteq> [] \<Longrightarrow> Suc (length (queue_pop (queue_top L C) C)) = length C"
  using queue_top_less [of C L] by (simp add: queue_pop_def)

function layer_loop ::
  "hnsw_lib \<Rightarrow> node list \<Rightarrow> fvec \<Rightarrow> nat \<Rightarrow> nat \<Rightarrow> (u64 \<Rightarrow> bool) option \<Rightarrow> search_state \<Rightarrow> cand list" where
  "layer_loop L ns q ef layer flt (vis, C, R) =
     (if C = [] then R
      else
        let j = queue_top L C; (cand_dist, cand_idx) = C ! j; C = queue_pop j C
        in if length R \<ge> ef \<and> R \<noteq> [] \<and> flt_less (fst (result_top R)) cand_dist then R
           else if layer > n_max_layer (ns ! cand_idx) then layer_loop L ns q ef layer flt (vis, C, R)
           else layer_loop L ns q ef layer flt
                  (expand L ns q ef layer flt (n_nbrs (ns ! cand_idx) ! layer) (vis, C, R)))"
  by pat_completeness auto
termination
proof (relation "measure (\<lambda>(L, ns, q, ef, layer, flt, vis, C, R). unseen vis + length C)", goal_cases)
  case (2 L ns q ef layer flt vis C R j x cand_dist cand_idx C')
  then show ?case using length_queue_pop [of C L] by auto
next
  case (3 L ns q ef layer flt vis C R j x cand_dist cand_idx C')
  obtain vis' D R' where ex: "expand L ns q ef layer flt (n_nbrs (ns ! cand_idx) ! layer) (vis, C', R) = (vis', D, R')"
    by (metis prod_cases3)
  have "Suc (length C') = length C" using 3 length_queue_pop [of C L] by simp
  then show ?case using expand_measure [OF ex] by (simp add: ex)
qed simp

declare layer_loop.simps [simp del]

definition search_layer ::
  "hnsw_lib \<Rightarrow> node list \<Rightarrow> fvec \<Rightarrow> nat \<Rightarrow> nat \<Rightarrow> nat \<Rightarrow> (u64 \<Rightarrow> bool) option \<Rightarrow> cand list" where
  "search_layer L ns q entry ef layer flt =
     (let e = ns ! entry
      in if n_deleted e \<or> layer > n_max_layer e then []
         else
           let de = hl_dist L q (n_vec e);
               R = (case flt of None \<Rightarrow> [(de, entry)] | Some p \<Rightarrow> if p (n_id e) then [(de, entry)] else []);
               vis = (replicate (length ns) False)[entry := True]
           in hl_sort L (layer_loop L ns q ef layer flt (vis, [(de, entry)], R)))"

section \<open>Choosing and connecting neighbours\<close>

fun select_loop :: "hnsw_lib \<Rightarrow> node list \<Rightarrow> nat \<Rightarrow> cand list \<Rightarrow> nat list \<Rightarrow> nat list" where
  "select_loop L ns max_m [] sel = sel"
| "select_loop L ns max_m ((dc, c) # cs) sel =
     (if length sel \<ge> max_m then sel
      else if list_ex (\<lambda>s. flt_less (hl_dist L (n_vec (ns ! c)) (n_vec (ns ! s))) dc) sel
      then select_loop L ns max_m cs sel
      else select_loop L ns max_m cs (sel @ [c]))"

definition select_neighbors_heuristic :: "hnsw_lib \<Rightarrow> node list \<Rightarrow> cand list \<Rightarrow> nat \<Rightarrow> nat list" where
  "select_neighbors_heuristic L ns ordered max_m =
     select_loop L ns max_m (take (min (length ordered) (2 * max_m)) ordered) []"

definition set_nbrs :: "node list \<Rightarrow> nat \<Rightarrow> nat \<Rightarrow> nat list \<Rightarrow> node list" where
  "set_nbrs ns i layer xs = ns[i := (ns ! i)\<lparr>n_nbrs := (n_nbrs (ns ! i))[layer := xs]\<rparr>]"

definition prune_neighbors :: "hnsw_lib \<Rightarrow> nat \<Rightarrow> nat \<Rightarrow> nat \<Rightarrow> node list \<Rightarrow> node list" where
  "prune_neighbors L center layer max_m ns =
     (let conn = n_nbrs (ns ! center) ! layer;
          ordered = hl_sort L (map (\<lambda>c. (hl_dist L (n_vec (ns ! center)) (n_vec (ns ! c)), c)) conn)
      in set_nbrs ns center layer (select_neighbors_heuristic L ns ordered max_m))"

definition add_edge :: "nat \<Rightarrow> nat list \<Rightarrow> nat list" where
  "add_edge b xs = (if b \<notin> set xs then xs @ [b] else xs)"

definition connect_bidirectional :: "hnsw_lib \<Rightarrow> nat \<Rightarrow> nat \<Rightarrow> nat \<Rightarrow> nat \<Rightarrow> node list \<Rightarrow> node list" where
  "connect_bidirectional L a b layer max_m ns =
     (if a = b then ns
      else if layer > n_max_layer (ns ! a) \<or> layer > n_max_layer (ns ! b) then ns
      else
        let na = add_edge b (n_nbrs (ns ! a) ! layer);
            nb = add_edge a (n_nbrs (ns ! b) ! layer);
            ns = set_nbrs (set_nbrs ns a layer na) b layer nb;
            ns = (if length na > max_m then prune_neighbors L a layer max_m ns else ns)
        in if length nb > max_m then prune_neighbors L b layer max_m ns else ns)"

section \<open>Writing operations\<close>

definition layer_cap :: "nat \<Rightarrow> nat \<Rightarrow> nat" where
  "layer_cap M layer = (if layer = 0 then 2 * M else M)"

text \<open>The two loops over layers: a greedy descent, and the wiring of a node layer by layer.\<close>

fun descend ::
  "hnsw_lib \<Rightarrow> node list \<Rightarrow> fvec \<Rightarrow> (u64 \<Rightarrow> bool) option \<Rightarrow> nat list \<Rightarrow> nat \<Rightarrow> nat" where
  "descend L ns q flt [] ep = ep"
| "descend L ns q flt (l # ls) ep =
     (let res = search_layer L ns q ep 1 l flt
      in descend L ns q flt ls (if res \<noteq> [] then snd (hd res) else ep))"

fun wire ::
  "hnsw_lib \<Rightarrow> nat \<Rightarrow> nat \<Rightarrow> fvec \<Rightarrow> nat \<Rightarrow> nat list \<Rightarrow> nat \<Rightarrow> node list \<Rightarrow> node list" where
  "wire L M efc vec idx [] ep ns = ns"
| "wire L M efc vec idx (l # ls) ep ns =
     (let neighbors = search_layer L ns vec ep efc l None;
          max_m = layer_cap M l;
          sel = select_neighbors_heuristic L ns neighbors max_m;
          ep = (if sel \<noteq> [] then hd sel else ep);
          ns = fold (\<lambda>nb. connect_bidirectional L idx nb l max_m) sel ns
      in wire L M efc vec idx ls ep ns)"

text \<open>Layers \<open>hi, hi - 1, \<dots>, lo\<close>.\<close>

definition layers_down :: "int \<Rightarrow> int \<Rightarrow> nat list" where
  "layers_down hi lo = map nat (rev [lo..hi])"

definition insert_node :: "hnsw_lib \<Rightarrow> nat \<Rightarrow> fvec \<Rightarrow> nat \<Rightarrow> hnsw \<Rightarrow> hnsw" where
  "insert_node L new_layer vec idx h =
     (let ep = descend L (h_nodes h) vec None (layers_down (h_max_layer h) (int new_layer + 1)) (nat (h_entry h));
          ns = wire L (h_M h) (h_efc h) vec idx (layers_down (min (int new_layer) (h_max_layer h)) 0) ep (h_nodes h);
          h = h\<lparr>h_nodes := ns\<rparr>
      in if int new_layer > h_max_layer h then h\<lparr>h_max_layer := int new_layer, h_entry := int idx\<rparr> else h)"

definition add_item :: "hnsw_lib \<Rightarrow> nat \<Rightarrow> u64 \<Rightarrow> fvec \<Rightarrow> hnsw \<Rightarrow> status_code \<times> hnsw" where
  "add_item L new_layer i vec h =
     (if map_of (h_ids h) i \<noteq> None then (kInvalidArgument, h)
      else
        let new_idx = length (h_nodes h);
            node = \<lparr>n_id = i, n_vec = vec, n_nbrs = replicate (new_layer + 1) [], n_max_layer = new_layer,
                    n_deleted = False\<rparr>;
            h = h\<lparr>h_nodes := h_nodes h @ [node], h_ids := AList.update i new_idx (h_ids h), h_active := h_active h + 1\<rparr>
        in if h_entry h < 0 then (kOk, h\<lparr>h_entry := int new_idx, h_max_layer := int new_layer\<rparr>)
           else (kOk, insert_node L new_layer vec new_idx h))"

text \<open>The scan for a new entry point: a live node on the highest layer, the first of them.\<close>

fun pick_entry :: "nat \<Rightarrow> node list \<Rightarrow> int \<times> int \<Rightarrow> int \<times> int" where
  "pick_entry i [] best = best"
| "pick_entry i (n # ns) (ep, mx) =
     (if n_deleted n then pick_entry (Suc i) ns (ep, mx)
      else if ep < 0 \<or> int (n_max_layer n) > mx then pick_entry (Suc i) ns (int i, int (n_max_layer n))
      else pick_entry (Suc i) ns (ep, mx))"

definition hnsw_remove :: "u64 \<Rightarrow> hnsw \<Rightarrow> status_code \<times> hnsw" where
  "hnsw_remove i h =
     (case map_of (h_ids h) i of
        None \<Rightarrow> (kNotFound, h)
      | Some idx \<Rightarrow>
          if n_deleted (h_nodes h ! idx) then (kOk, h)
          else
            let h = h\<lparr>h_nodes := (h_nodes h)[idx := (h_nodes h ! idx)\<lparr>n_deleted := True\<rparr>], h_active := h_active h - 1\<rparr>
            in if h_entry h = int idx
               then let (ep, mx) = pick_entry 0 (h_nodes h) (-1, -1)
                    in (kOk, h\<lparr>h_entry := ep, h_max_layer := mx\<rparr>)
               else (kOk, h))"

definition detach_layer :: "nat \<Rightarrow> nat \<Rightarrow> nat list \<Rightarrow> node list \<Rightarrow> node list" where
  "detach_layer idx l nbs ns =
     fold (\<lambda>nb ns. if l > n_max_layer (ns ! nb) then ns
                   else set_nbrs ns nb l (filter (\<lambda>x. x \<noteq> idx) (n_nbrs (ns ! nb) ! l))) nbs ns"

definition detach :: "nat \<Rightarrow> node list \<Rightarrow> node list" where
  "detach idx ns =
     (let old = ns ! idx
      in fold (\<lambda>l. detach_layer idx l (n_nbrs old ! l)) [0..<n_max_layer old + 1] ns)"

definition update_item :: "hnsw_lib \<Rightarrow> nat \<Rightarrow> u64 \<Rightarrow> fvec \<Rightarrow> hnsw \<Rightarrow> status_code \<times> hnsw" where
  "update_item L new_layer i vec h =
     (case map_of (h_ids h) i of
        None \<Rightarrow> (kNotFound, h)
      | Some idx \<Rightarrow>
          let ns = detach idx (h_nodes h);
              was_deleted = n_deleted (ns ! idx);
              node = (ns ! idx)\<lparr>n_vec := vec, n_deleted := False, n_max_layer := new_layer,
                                n_nbrs := replicate (new_layer + 1) []\<rparr>;
              h = h\<lparr>h_nodes := ns[idx := node], h_active := h_active h + (if was_deleted then 1 else 0)\<rparr>
          in if h_entry h < 0 then (kOk, h\<lparr>h_entry := int idx, h_max_layer := int new_layer\<rparr>)
             else (kOk, insert_node L new_layer vec idx h))"

section \<open>Queries\<close>

record search_result =
  sr_id :: u64
  sr_distance :: u32

definition search_top_k_filtered ::
  "hnsw_lib \<Rightarrow> fvec \<Rightarrow> nat \<Rightarrow> nat \<Rightarrow> (u64 \<Rightarrow> bool) option \<Rightarrow> hnsw \<Rightarrow> search_result list" where
  "search_top_k_filtered L q k ef flt h =
     (if k = 0 \<or> h_entry h < 0 then []
      else
        let ns = h_nodes h;
            ep = descend L ns q flt (layers_down (h_max_layer h) 1) (nat (h_entry h));
            candidates = take k (search_layer L ns q ep (max ef k) 0 flt)
        in map (\<lambda>(dc, c). \<lparr>sr_id = n_id (ns ! c), sr_distance = dc\<rparr>) candidates)"

definition search_top_k :: "hnsw_lib \<Rightarrow> fvec \<Rightarrow> nat \<Rightarrow> nat \<Rightarrow> hnsw \<Rightarrow> search_result list" where
  "search_top_k L q k ef h = search_top_k_filtered L q k ef None h"

definition hnsw_size :: "hnsw \<Rightarrow> nat" where
  "hnsw_size h = h_active h"

definition hnsw_contains :: "hnsw \<Rightarrow> u64 \<Rightarrow> bool" where
  "hnsw_contains h i \<longleftrightarrow> map_of (h_ids h) i \<noteq> None"

end
