(* ===== verification/Collection.thy ===== *)
theory Collection
  imports Storage_Engine Filter_Index Hnsw
begin

text \<open>
  \<^verbatim>\<open>class Collection\<close> (\<^verbatim>\<open>src/engine/collection.cpp\<close>): the vector collection over the storage
  engine, the proximity graph and the filter index. Writers hold \<open>write_mutex\<close> throughout, so
  an operation is one step. A vector argument is \<open>None\<close> for a null pointer and otherwise the list
  of its \<open>dim\<close> floats; \<open>env_levels\<close> is the sequence of levels the seeded random generator yields and \<open>c_draws\<close> counts how many
  have been drawn.
\<close>

section \<open>State\<close>

record coll_env =
  env_store :: store_env
  env_hnsw :: hnsw_lib
  env_sort :: "scalar_field list \<Rightarrow> scalar_field list"
  env_levels :: "nat \<Rightarrow> nat"

record collection =
  c_engine :: engine
  c_index :: hnsw
  c_filter :: filter_index
  c_dim :: nat
  c_draws :: nat

definition default_options :: "bytes \<Rightarrow> options" where
  "default_options dir = \<lparr>o_sync_writes = True, o_group_commit = False, o_sync_every_n_appends = 0,
     o_snapshot_dir = dir @ ascii ''/snap''\<rparr>"

definition new_collection :: "bytes \<Rightarrow> nat \<Rightarrow> nat \<Rightarrow> nat \<Rightarrow> collection" where
  "new_collection dir dim M ef_construction =
     \<lparr>c_engine = new_engine (default_options dir), c_index = new_hnsw dim M ef_construction,
      c_filter = empty_filter, c_dim = dim, c_draws = 0\<rparr>"

section \<open>Keys\<close>

definition key_of :: "u64 \<Rightarrow> bytes" where
  "key_of i = to_string (unat i)"

text \<open>\<^verbatim>\<open>std::stoull\<close> accepts what the formatted extraction accepts; all of the key must be used up.\<close>

definition parse_id :: "bytes \<Rightarrow> u64 option" where
  "parse_id key =
     (if key = [] then None
      else case extract_u64 key of
        Some (v, rest) \<Rightarrow> if rest = [] then Some v else None
      | None \<Rightarrow> None)"

section \<open>Opening\<close>

text \<open>The callback of \<open>visit_live\<close>; the graph counts the levels drawn.\<close>

definition rebuild_entry ::
  "coll_env \<Rightarrow> nat \<Rightarrow> bytes \<Rightarrow> bytes \<Rightarrow> hnsw \<times> filter_index \<times> nat \<Rightarrow> bool \<times> hnsw \<times> filter_index \<times> nat" where
  "rebuild_entry V dim key value s =
     (case s of (h, fx, draws) \<Rightarrow>
        case parse_id key of
          None \<Rightarrow> (False, s)
        | Some i \<Rightarrow>
            case decode_entry_meta value of
              Inl _ \<Rightarrow> (False, s)
            | Inr meta \<Rightarrow>
                if length (em_vec meta) \<noteq> dim then (False, s)
                else
                  case add_item (env_hnsw V) (env_levels V draws) i (em_vec meta) h of
                    (is, h') \<Rightarrow>
                      if \<not> status_ok is then (False, (h', fx, draws))
                      else (True, (h', filter_add i (em_scalars meta) fx, draws + 1)))"

definition collection_open :: "coll_env \<Rightarrow> bytes \<Rightarrow> dir \<Rightarrow> collection \<Rightarrow> status_code \<times> collection" where
  "collection_open V wal d c =
     (let (s, st) = engine_open (env_store V) wal d (c_engine c);
          c = c\<lparr>c_engine := st\<rparr>
      in if \<not> status_ok s then (s, c)
         else
           let (s, h, fx, draws) =
                 visit_live (env_store V) st (rebuild_entry V (c_dim c)) (c_index c, c_filter c, c_draws c)
           in (s, c\<lparr>c_index := h, c_filter := fx, c_draws := draws\<rparr>))"

section \<open>Writing\<close>

definition make_meta :: "fvec \<Rightarrow> bytes \<Rightarrow> scalar_field list \<Rightarrow> entry_meta" where
  "make_meta vec payload scalars = \<lparr>em_vec = vec, em_payload = payload, em_scalars = scalars\<rparr>"

definition collection_add ::
  "coll_env \<Rightarrow> u64 \<Rightarrow> fvec option \<Rightarrow> bytes \<Rightarrow> scalar_field list \<Rightarrow> collection \<Rightarrow> status_code \<times> collection" where
  "collection_add V i vecp payload scalars c =
     (case vecp of None \<Rightarrow> (kInvalidArgument, c) | Some vec \<Rightarrow>
      if hnsw_contains (c_index c) i then (kInvalidArgument, c)
      else
        case encode_entry_meta (env_sort V) (make_meta vec payload scalars) of
          Inl s \<Rightarrow> (s, c)
        | Inr bytes \<Rightarrow>
            let (s, st) = engine_put_vector_v2 (env_store V) (key_of i) bytes (c_engine c);
                c = c\<lparr>c_engine := st\<rparr>
            in if \<not> status_ok s then (s, c)
               else
                 let (is, h) = add_item (env_hnsw V) (env_levels V (c_draws c)) i vec (c_index c);
                     c = c\<lparr>c_index := h, c_draws := c_draws c + (if status_ok is then 1 else 0)\<rparr>
                 in if \<not> status_ok is then (is, c)
                    else (kOk, c\<lparr>c_filter := filter_add i scalars (c_filter c)\<rparr>))"

definition collection_remove :: "coll_env \<Rightarrow> u64 \<Rightarrow> collection \<Rightarrow> status_code \<times> collection" where
  "collection_remove V i c =
     (let (s, st) = engine_remove (env_store V) (key_of i) (c_engine c);
          c = c\<lparr>c_engine := st\<rparr>
      in if \<not> status_ok s then (s, c)
         else
           let (rs, h) = hnsw_remove i (c_index c)
           in (rs, c\<lparr>c_index := h, c_filter := filter_remove i (c_filter c)\<rparr>))"

definition collection_update ::
  "coll_env \<Rightarrow> u64 \<Rightarrow> fvec option \<Rightarrow> bytes \<Rightarrow> scalar_field list \<Rightarrow> collection \<Rightarrow> status_code \<times> collection" where
  "collection_update V i vecp payload scalars c =
     (case vecp of None \<Rightarrow> (kInvalidArgument, c) | Some vec \<Rightarrow>
      if \<not> hnsw_contains (c_index c) i then (kNotFound, c)
      else
        case encode_entry_meta (env_sort V) (make_meta vec payload scalars) of
          Inl s \<Rightarrow> (s, c)
        | Inr bytes \<Rightarrow>
            let (s, st) = engine_put_vector_v2 (env_store V) (key_of i) bytes (c_engine c);
                c = c\<lparr>c_engine := st\<rparr>
            in if \<not> status_ok s then (s, c)
               else
                 let (us, h) = update_item (env_hnsw V) (env_levels V (c_draws c)) i vec (c_index c);
                     c = c\<lparr>c_index := h, c_draws := c_draws c + (if status_ok us then 1 else 0)\<rparr>
                 in if \<not> status_ok us then (us, c)
                    else (kOk, c\<lparr>c_filter := filter_add i scalars (filter_remove i (c_filter c))\<rparr>))"

section \<open>Reading\<close>

definition collection_get :: "coll_env \<Rightarrow> collection \<Rightarrow> u64 \<Rightarrow> bytes result" where
  "collection_get V c i =
     (case engine_get (env_store V) (c_engine c) (key_of i) of
        Inl s \<Rightarrow> Inl s
      | Inr bytes \<Rightarrow>
          case decode_entry_meta bytes of
            Inl s \<Rightarrow> Inl s
          | Inr meta \<Rightarrow> Inr (em_payload meta))"

datatype filter_mode = ModeNone | ModeInFilter | ModePostFilter

record search_options =
  so_ef_search :: nat
  so_filter_mode :: filter_mode

definition collection_search :: "coll_env \<Rightarrow> collection \<Rightarrow> fvec option \<Rightarrow> nat \<Rightarrow> search_options \<Rightarrow> search_result list" where
  "collection_search V c qp k opts =
     (case qp of None \<Rightarrow> [] | Some q \<Rightarrow>
      if k = 0 then [] else search_top_k (env_hnsw V) q k (so_ef_search opts) (c_index c))"

text \<open>The retry loop of the post-filter: at most four attempts, the beam width doubled after each.\<close>

fun post_filter_loop ::
  "coll_env \<Rightarrow> collection \<Rightarrow> fvec \<Rightarrow> nat \<Rightarrow> filter_expr \<Rightarrow> nat \<Rightarrow> nat \<Rightarrow> search_result list" where
  "post_filter_loop V c q k expr 0 ef = []"
| "post_filter_loop V c q k expr (Suc left) ef =
     (let hits = search_top_k (env_hnsw V) q ef ef (c_index c);
          filtered = filter (\<lambda>r. filter_matches (c_filter c) (sr_id r) expr) hits
      in if length filtered \<ge> k \<or> left = 0 then take k filtered
         else post_filter_loop V c q k expr left (u64_wrap (ef * 2)))"

definition search_filtered ::
  "coll_env \<Rightarrow> collection \<Rightarrow> fvec option \<Rightarrow> nat \<Rightarrow> filter_expr \<Rightarrow> search_options \<Rightarrow> search_result list" where
  "search_filtered V c qp k expr opts =
     (case qp of None \<Rightarrow> [] | Some q \<Rightarrow>
      if k = 0 then []
      else if expr = [] then collection_search V c qp k opts
      else if so_filter_mode opts = ModeInFilter
      then search_top_k_filtered (env_hnsw V) q k (so_ef_search opts)
             (Some (\<lambda>i. filter_matches (c_filter c) i expr)) (c_index c)
      else post_filter_loop V c q k expr 4 (max (so_ef_search opts) (u64_wrap (k * 2))))"

definition collection_snapshot :: "coll_env \<Rightarrow> dir \<Rightarrow> collection \<Rightarrow> status_code \<times> collection \<times> dir" where
  "collection_snapshot V d c =
     (let (s, st, d) = engine_snapshot (env_store V) d (c_engine c) in (s, c\<lparr>c_engine := st\<rparr>, d))"

definition collection_size :: "collection \<Rightarrow> nat" where
  "collection_size c = hnsw_size (c_index c)"

definition collection_stats :: "collection \<Rightarrow> nat \<times> nat" where
  "collection_stats c = (hnsw_size (c_index c), wal_size (c_engine c))"

end
