(* ===== verification/C_Api.thy ===== *)
theory C_Api
  imports Collection
begin

text \<open>
  The C interface (\<^verbatim>\<open>cpp_engine/c_api.cpp\<close>): a table of handles, each owning a collection, and
  calls that check their arguments, run one operation and turn statuses into integers and
  results into JSON. A pointer argument is \<open>None\<close> when it is null and otherwise the buffer it
  points to; reading past the end of a buffer is the outcome \<open>Out_Of_Bounds\<close>. Arguments stand
  for what is outside: \<open>api_coll\<close> for the environment of a collection with a given metric,
  \<open>api_fmt\<close> for \<^verbatim>\<open>std::to_string\<close> of a float, \<open>api_malloc\<close> for whether an allocation of a
  given size succeeds.
\<close>

section \<open>State\<close>

datatype metric = ML2 | MIP | MCosine

record api_env =
  api_coll :: "metric \<Rightarrow> coll_env"
  api_fmt :: "u32 \<Rightarrow> bytes"
  api_malloc :: "nat \<Rightarrow> bool"

record handle =
  hd_coll :: collection
  hd_metric :: metric

type_synonym handles = "u64 \<rightharpoonup> handle"

datatype 'a outcome = Returns 'a | Out_Of_Bounds

section \<open>Helpers\<close>

definition api_lookup :: "handles \<Rightarrow> u64 \<Rightarrow> handle option" where
  "api_lookup G h = G h"

definition alloc_c_string :: "api_env \<Rightarrow> bytes \<Rightarrow> bytes option" where
  "alloc_c_string E text = (if api_malloc E (length text + 1) then Some (text @ [0]) else None)"

definition escape_char :: "byte \<Rightarrow> bytes" where
  "escape_char c =
     (if c = 92 then [92, 92] else if c = 34 then [92, 34] else if c = 10 then [92, 110]
      else if c = 13 then [92, 114] else if c = 9 then [92, 116] else [c])"

definition json_escape :: "bytes \<Rightarrow> bytes" where
  "json_escape input = concat (map escape_char input)"

definition metric_from_int :: "int \<Rightarrow> metric" where
  "metric_from_int m = (if m = 1 then MIP else if m = 2 then MCosine else ML2)"

section \<open>Lifecycle\<close>

text \<open>
  \<open>addr\<close> is the address of the new handle. \<open>wal\<close> and \<open>d\<close> are the files the collection finds.
\<close>

definition lumina_open ::
  "api_env \<Rightarrow> u64 \<Rightarrow> bytes \<Rightarrow> dir \<Rightarrow> bytes option \<Rightarrow> int \<Rightarrow> int \<Rightarrow> handles \<Rightarrow> u64 option \<times> handles" where
  "lumina_open E addr wal d dirp dim metric G =
     (case dirp of
        None \<Rightarrow> (None, G)
      | Some dir \<Rightarrow>
          if dim \<le> 0 then (None, G)
          else
            let m = metric_from_int metric;
                (s, c) = collection_open (api_coll E m) wal d (new_collection dir (nat dim) 16 200)
            in if \<not> status_ok s then (None, G)
               else (Some addr, if G addr = None then G(addr \<mapsto> \<lparr>hd_coll = c, hd_metric = m\<rparr>) else G))"

definition lumina_close :: "u64 \<Rightarrow> handles \<Rightarrow> int \<times> handles" where
  "lumina_close h G = (if G h \<noteq> None then (0, G(h := None)) else (-1, G))"

section \<open>Writes\<close>

definition env_of :: "api_env \<Rightarrow> handle \<Rightarrow> coll_env" where
  "env_of E hn = api_coll E (hd_metric hn)"

text \<open>\<^verbatim>\<open>Collection::add\<close> copies \<open>c_dim\<close> floats from the buffer unless it refuses the id first.\<close>

definition handle_add :: "api_env \<Rightarrow> u64 \<Rightarrow> fvec \<Rightarrow> bytes \<Rightarrow> handle \<Rightarrow> (status_code \<times> handle) outcome" where
  "handle_add E i buf payload hn =
     (let c = hd_coll hn
      in if \<not> hnsw_contains (c_index c) i \<and> length buf < c_dim c then Out_Of_Bounds
         else case collection_add (env_of E hn) i (Some (take (c_dim c) buf)) payload [] c of
           (s, c) \<Rightarrow> Returns (s, hn\<lparr>hd_coll := c\<rparr>))"

definition lumina_add ::
  "api_env \<Rightarrow> u64 \<Rightarrow> u64 \<Rightarrow> fvec option \<Rightarrow> int \<Rightarrow> bytes option \<Rightarrow> handles \<Rightarrow> (int \<times> handles) outcome" where
  "lumina_add E h i vec dim payload G =
     (case (api_lookup G h, vec, payload) of
        (Some hn, Some buf, Some p) \<Rightarrow>
          if dim \<le> 0 then Returns (-1, G)
          else (case handle_add E i buf p hn of
                  Out_Of_Bounds \<Rightarrow> Out_Of_Bounds
                | Returns (s, hn) \<Rightarrow> Returns (if status_ok s then 0 else -2, G(h \<mapsto> hn)))
      | _ \<Rightarrow> Returns (-1, G))"

fun add_loop ::
  "api_env \<Rightarrow> u64 list \<Rightarrow> fvec \<Rightarrow> bytes option list \<Rightarrow> nat \<Rightarrow> nat \<Rightarrow> nat \<Rightarrow> handle \<Rightarrow> (int \<times> handle) outcome" where
  "add_loop E ids vectors payloads dim i 0 hn = Returns (0, hn)"
| "add_loop E ids vectors payloads dim i (Suc left) hn =
     (if i \<ge> length ids \<or> i \<ge> length payloads then Out_Of_Bounds
      else
        let payload = (case payloads ! i of Some p \<Rightarrow> p | None \<Rightarrow> [])
        in case handle_add E (ids ! i) (drop (i * dim) vectors) payload hn of
             Out_Of_Bounds \<Rightarrow> Out_Of_Bounds
           | Returns (s, hn) \<Rightarrow>
               if \<not> status_ok s then Returns (-2, hn) else add_loop E ids vectors payloads dim (i + 1) left hn)"

definition lumina_add_batch ::
  "api_env \<Rightarrow> u64 \<Rightarrow> u64 list option \<Rightarrow> fvec option \<Rightarrow> int \<Rightarrow> int \<Rightarrow> bytes option list option \<Rightarrow> handles \<Rightarrow>
     (int \<times> handles) outcome" where
  "lumina_add_batch E h ids vectors n dim payloads G =
     (case (api_lookup G h, ids, vectors, payloads) of
        (Some hn, Some ids, Some vectors, Some payloads) \<Rightarrow>
          if n \<le> 0 \<or> dim \<le> 0 then Returns (-1, G)
          else (case add_loop E ids vectors payloads (nat dim) 0 (nat n) hn of
                  Out_Of_Bounds \<Rightarrow> Out_Of_Bounds
                | Returns (code, hn) \<Rightarrow> Returns (code, G(h \<mapsto> hn)))
      | _ \<Rightarrow> Returns (-1, G))"

definition lumina_remove :: "api_env \<Rightarrow> u64 \<Rightarrow> u64 \<Rightarrow> handles \<Rightarrow> int \<times> handles" where
  "lumina_remove E h i G =
     (case api_lookup G h of
        None \<Rightarrow> (-1, G)
      | Some hn \<Rightarrow>
          let (s, c) = collection_remove (env_of E hn) i (hd_coll hn)
          in (if status_ok s then 0 else -2, G(h \<mapsto> hn\<lparr>hd_coll := c\<rparr>)))"

section \<open>Reads\<close>

definition bad_args :: bytes where
  "bad_args = ascii ''{\"error\":\"bad args\",\"results\":[]}''"

text \<open>The payload of a hit; when \<^verbatim>\<open>get\<close> fails the string stays empty.\<close>

definition best_payload :: "coll_env \<Rightarrow> collection \<Rightarrow> u64 \<Rightarrow> bytes" where
  "best_payload V c i = (case collection_get V c i of Inl _ \<Rightarrow> [] | Inr p \<Rightarrow> p)"

definition hit_json :: "api_env \<Rightarrow> handle \<Rightarrow> search_result \<Rightarrow> bytes" where
  "hit_json E hn r =
     ascii ''{\"id\":'' @ to_string (unat (sr_id r)) @ ascii '',\"distance\":'' @ api_fmt E (sr_distance r) @
     ascii '',\"payload\":\"'' @ json_escape (best_payload (env_of E hn) (hd_coll hn) (sr_id r)) @ ascii ''\"}''"

fun commas :: "bytes list \<Rightarrow> bytes" where
  "commas [] = []"
| "commas [x] = x"
| "commas (x # y # xs) = x @ ascii '','' @ commas (y # xs)"

definition hits_json :: "api_env \<Rightarrow> handle \<Rightarrow> search_result list \<Rightarrow> bytes" where
  "hits_json E hn hits = commas (map (hit_json E hn) hits)"

text \<open>A search reads \<open>c_dim\<close> floats of the query if the graph has an entry point.\<close>

definition handle_search :: "api_env \<Rightarrow> handle \<Rightarrow> fvec \<Rightarrow> int \<Rightarrow> int \<Rightarrow> search_result list outcome" where
  "handle_search E hn buf top_k ef =
     (let c = hd_coll hn; k = nat (max 1 top_k); ef_search = nat (max 1 ef)
      in if 0 \<le> h_entry (c_index c) \<and> length buf < c_dim c then Out_Of_Bounds
         else Returns (collection_search (env_of E hn) c (Some (take (c_dim c) buf)) k
                \<lparr>so_ef_search = ef_search, so_filter_mode = ModeNone\<rparr>))"

definition lumina_search ::
  "api_env \<Rightarrow> u64 \<Rightarrow> fvec option \<Rightarrow> int \<Rightarrow> int \<Rightarrow> int \<Rightarrow> handles \<Rightarrow> bytes option outcome" where
  "lumina_search E h query dim top_k ef G =
     (case (api_lookup G h, query) of
        (Some hn, Some buf) \<Rightarrow>
          if dim \<le> 0 then Returns (alloc_c_string E bad_args)
          else (case handle_search E hn buf top_k ef of
                  Out_Of_Bounds \<Rightarrow> Out_Of_Bounds
                | Returns hits \<Rightarrow>
                    Returns (alloc_c_string E (ascii ''{\"results\":['' @ hits_json E hn hits @ ascii '']}'')))
      | _ \<Rightarrow> Returns (alloc_c_string E bad_args))"

text \<open>The code, the string stored through \<^verbatim>\<open>payload\<close> and the length stored through \<^verbatim>\<open>out_len\<close>.\<close>

definition lumina_get ::
  "api_env \<Rightarrow> u64 \<Rightarrow> u64 \<Rightarrow> bool \<Rightarrow> bool \<Rightarrow> handles \<Rightarrow> int \<times> bytes option \<times> int option" where
  "lumina_get E h i payload out_len G =
     (case api_lookup G h of
        None \<Rightarrow> (-1, None, None)
      | Some hn \<Rightarrow>
          if \<not> payload then (-1, None, None)
          else case collection_get (env_of E hn) (hd_coll hn) i of
            Inl _ \<Rightarrow> (-2, None, None)
          | Inr text \<Rightarrow>
              (case alloc_c_string E text of
                 None \<Rightarrow> (-3, None, None)
               | Some copy \<Rightarrow> (0, Some copy, if out_len then Some (sint (of_nat (length text) :: u32)) else None)))"

fun search_loop :: "api_env \<Rightarrow> handle \<Rightarrow> fvec \<Rightarrow> nat \<Rightarrow> int \<Rightarrow> int \<Rightarrow> nat \<Rightarrow> nat \<Rightarrow> bytes list outcome" where
  "search_loop E hn queries dim top_k ef i 0 = Returns []"
| "search_loop E hn queries dim top_k ef i (Suc left) =
     (case handle_search E hn (drop (i * dim) queries) top_k ef of
        Out_Of_Bounds \<Rightarrow> Out_Of_Bounds
      | Returns hits \<Rightarrow>
          (case search_loop E hn queries dim top_k ef (i + 1) left of
             Out_Of_Bounds \<Rightarrow> Out_Of_Bounds
           | Returns js \<Rightarrow> Returns ((ascii ''['' @ hits_json E hn hits @ ascii '']'') # js)))"

definition lumina_search_batch ::
  "api_env \<Rightarrow> u64 \<Rightarrow> fvec option \<Rightarrow> int \<Rightarrow> int \<Rightarrow> int \<Rightarrow> int \<Rightarrow> handles \<Rightarrow> bytes option outcome" where
  "lumina_search_batch E h queries n dim top_k ef G =
     (case (api_lookup G h, queries) of
        (Some hn, Some buf) \<Rightarrow>
          if n \<le> 0 \<or> dim \<le> 0 then Returns (alloc_c_string E bad_args)
          else (case search_loop E hn buf (nat dim) top_k ef 0 (nat n) of
                  Out_Of_Bounds \<Rightarrow> Out_Of_Bounds
                | Returns js \<Rightarrow> Returns (alloc_c_string E (ascii ''{\"results\":['' @ commas js @ ascii '']}'')))
      | _ \<Rightarrow> Returns (alloc_c_string E bad_args))"

section \<open>Maintenance\<close>

definition lumina_snapshot :: "api_env \<Rightarrow> u64 \<Rightarrow> dir \<Rightarrow> handles \<Rightarrow> int \<times> handles \<times> dir" where
  "lumina_snapshot E h d G =
     (case api_lookup G h of
        None \<Rightarrow> (-1, G, d)
      | Some hn \<Rightarrow>
          let (s, c, d) = collection_snapshot (env_of E hn) d (hd_coll hn)
          in (if status_ok s then 0 else -2, G(h \<mapsto> hn\<lparr>hd_coll := c\<rparr>), d))"

definition lumina_stats :: "api_env \<Rightarrow> u64 \<Rightarrow> handles \<Rightarrow> bytes option" where
  "lumina_stats E h G =
     (case api_lookup G h of
        None \<Rightarrow> alloc_c_string E (ascii ''{\"error\":\"invalid handle\"}'')
      | Some hn \<Rightarrow>
          let (live_entries, wal_bytes) = collection_stats (hd_coll hn)
          in alloc_c_string E (ascii ''{\"live_entries\":'' @ to_string live_entries @
               ascii '',\"wal_bytes\":'' @ to_string wal_bytes @ ascii ''}''))"

end
