(* ===== verification/Store_Spec.thy ===== *)
theory Store_Spec
  imports Index_Manager Log_Recovery
begin

text \<open>
  The contract between the engine and its two parts. \<open>record_log\<close> is what the log promises:
  an accepted append extends the list of records, its offset can be read back, and older
  offsets stay valid. \<open>kv_store\<close> puts such a log under an index and proves, once, that the
  pair implements the abstract store \<open>store_of\<close>: the map that results from applying the
  logged operations in order. The log manager and the hash table are then interpreted as an
  instance, so the engine's theorems rest on the facts of that interpretation.
\<close>

section \<open>The abstract store\<close>

type_synonym store = "bytes \<rightharpoonup> bytes"

fun store_step :: "record_kv \<Rightarrow> store \<Rightarrow> store" where
  "store_step (op, key, value) m = (if op = OpDelete then m(key := None) else m(key \<mapsto> value))"

definition store_of :: "record_kv list \<Rightarrow> store" where
  "store_of es = fold store_step es Map.empty"

lemma store_of_simps [simp]:
  "store_of [] = Map.empty"
  "store_of (es @ [r]) = store_step r (store_of es)"
  by (simp_all add: store_of_def)

section \<open>Logs and stores over them\<close>

locale record_log =
  fixes ok :: "'e \<Rightarrow> bool"
    and holds :: "'l \<Rightarrow> record_kv list \<Rightarrow> bool"
    and accepts :: "'l \<Rightarrow> bytes \<Rightarrow> bytes \<Rightarrow> bool"
    and pos :: "'l \<Rightarrow> record_kv list \<Rightarrow> nat \<Rightarrow> nat"
    and append :: "'e \<Rightarrow> op_type \<Rightarrow> bytes \<Rightarrow> bytes \<Rightarrow> 'l \<Rightarrow> nat result \<times> 'l"
    and read :: "'e \<Rightarrow> 'l \<Rightarrow> nat \<Rightarrow> (bytes \<times> bytes) result"
  assumes append_ok: "ok e \<Longrightarrow> holds l es \<Longrightarrow> accepts l k v \<Longrightarrow>
      \<exists>off l'. append e op k v l = (Inr off, l') \<and> holds l' (es @ [(op, k, v)]) \<and>
        off = pos l' (es @ [(op, k, v)]) (length es) \<and>
        (\<forall>i < length es. pos l' (es @ [(op, k, v)]) i = pos l es i)"
    and read_ok: "ok e \<Longrightarrow> holds l es \<Longrightarrow> i < length es \<Longrightarrow> es ! i = (op, k, v) \<Longrightarrow>
      read e l (pos l es i) = Inr (k, v)"

locale kv_store =
  record_log ok holds accepts pos append read + offset_index empty put del lookup inv count
  for ok :: "'e \<Rightarrow> bool" and holds :: "'l \<Rightarrow> record_kv list \<Rightarrow> bool" and accepts and pos and append and read
    and empty :: 'm and put and del and lookup and inv and count
begin

definition tagged :: "'l \<Rightarrow> record_kv list \<Rightarrow> (op_type \<times> bytes \<times> nat) list" where
  "tagged l es = map (\<lambda>i. (fst (es ! i), fst (snd (es ! i)), pos l es i)) [0..<length es]"

definition indexed :: "'l \<Rightarrow> 'm \<Rightarrow> record_kv list \<Rightarrow> bool" where
  "indexed l m es \<longleftrightarrow> holds l es \<and> inv m \<and> lookup m = fold offset_step (tagged l es) Map.empty"

lemma tagged_snoc:
  assumes "\<forall>i < length es. pos l' (es @ [(op, k, v)]) i = pos l es i"
  shows "tagged l' (es @ [(op, k, v)]) = tagged l es @ [(op, k, pos l' (es @ [(op, k, v)]) (length es))]"
  using assms by (auto simp: tagged_def nth_append)

text \<open>What the table says about a key, for any assignment of offsets to records.\<close>

lemma offset_fold_sound:
  fixes f :: "nat \<Rightarrow> nat"
  shows "case fold offset_step (map (\<lambda>i. (fst (es ! i), fst (snd (es ! i)), f i)) [0..<length es]) Map.empty k of
     None \<Rightarrow> store_of es k = None
   | Some off \<Rightarrow> \<exists>i < length es. \<exists>op v. es ! i = (op, k, v) \<and> off = f i \<and> store_of es k = Some v"
proof (induction es rule: rev_induct)
  case (snoc r es)
  obtain op key val where r: "r = (op, key, val)" by (cases r)
  have eq: "map (\<lambda>i. (fst ((es @ [r]) ! i), fst (snd ((es @ [r]) ! i)), f i)) [0..<length (es @ [r])] =
      map (\<lambda>i. (fst (es ! i), fst (snd (es ! i)), f i)) [0..<length es] @ [(op, key, f (length es))]"
    by (auto simp: r nth_append)
  show ?case
    unfolding eq using snoc by (auto simp: r nth_append split: option.splits)
qed simp

lemma lookup_sound:
  assumes "ok e" and "indexed l m es"
  shows "case lookup m k of None \<Rightarrow> store_of es k = None
    | Some off \<Rightarrow> \<exists>v. read e l off = Inr (k, v) \<and> store_of es k = Some v"
  using offset_fold_sound [where f = "pos l es" and es = es and k = k] assms read_ok
  by (fastforce simp: indexed_def tagged_def split: option.splits)

lemma append_indexed:
  assumes "ok e" and "indexed l m es" and "accepts l k v"
  shows "\<exists>off l'. append e op k v l = (Inr off, l') \<and>
    indexed l' (if op = OpDelete then del k m else put k off m) (es @ [(op, k, v)])"
proof -
  from assms append_ok [of e l es k v op] obtain off l' where
    app: "append e op k v l = (Inr off, l')" "holds l' (es @ [(op, k, v)])"
      "off = pos l' (es @ [(op, k, v)]) (length es)"
    and same: "\<forall>i < length es. pos l' (es @ [(op, k, v)]) i = pos l es i"
    by (auto simp: indexed_def)
  show ?thesis
    using app assms(2) tagged_snoc [OF same]
    by (auto simp: indexed_def inv_put inv_del lookup_put lookup_del intro!: exI)
qed

lemma replay_indexed:
  assumes "holds l es"
  shows "indexed l (fold replay1 (tagged l es) empty) es"
  using assms replay_refines [OF inv_empty] by (simp add: indexed_def lookup_empty)

lemma replay_tail_indexed:
  assumes "holds l es" and "inv m" and "lookup m = fold offset_step (take n (tagged l es)) Map.empty"
  shows "indexed l (fold replay1 (drop n (tagged l es)) m) es"
proof -
  have "fold offset_step (drop n (tagged l es)) (fold offset_step (take n (tagged l es)) Map.empty) =
      fold offset_step (tagged l es) Map.empty"
    by (metis append_take_drop_id fold_append comp_apply)
  then show ?thesis
    using assms replay_refines [OF assms(2)] by (simp add: indexed_def)
qed

lemma dom_indexed:
  assumes "ok e" and "indexed l m es"
  shows "dom (lookup m) = dom (store_of es)"
proof (rule set_eqI)
  fix k
  show "k \<in> dom (lookup m) \<longleftrightarrow> k \<in> dom (store_of es)"
    using lookup_sound [OF assms, of k] by (auto simp: dom_def split: option.splits)
qed

end

section \<open>The log manager and the hash table are an instance\<close>

definition log_holds :: "log \<Rightarrow> record_kv list \<Rightarrow> bool" where
  "log_holds lg es \<longleftrightarrow> wf_log lg es \<and> l_eof lg < 2 ^ 63"

definition log_accepts :: "log \<Rightarrow> bytes \<Rightarrow> bytes \<Rightarrow> bool" where
  "log_accepts lg key value \<longleftrightarrow> fits key value \<and> l_eof lg + 19 + length key + length value < 2 ^ 63"

lemma record_offset_append:
  assumes "wf_log lg es" and "wf_log lg' (es @ [r])" and "l_legacy lg' = l_legacy lg" and "0 < l_eof lg'"
  shows "i < length es \<Longrightarrow> record_offset lg' (es @ [r]) i = record_offset lg es i"
    and "record_offset lg' (es @ [r]) (length es) = (if l_legacy lg then 0 else 8) + length (log_bytes (l_legacy lg) es)"
proof -
  show "record_offset lg' (es @ [r]) (length es) = (if l_legacy lg then 0 else 8) + length (log_bytes (l_legacy lg) es)"
    using assms(3,4) by (simp add: record_offset_def log_head_def)
  assume i: "i < length es"
  then have "log_bytes (l_legacy lg) es \<noteq> []" by auto
  then have "f_data (l_file lg) \<noteq> []" using assms(1) by (simp add: wf_log_def)
  then have "l_eof lg \<noteq> 0" using assms(1) by (metis length_0_conv wf_log_def)
  then show "record_offset lg' (es @ [r]) i = record_offset lg es i"
    using assms(3,4) i by (simp add: record_offset_def log_head_def)
qed

lemma log_append_contract:
  assumes "benign E" and "log_holds lg es" and "log_accepts lg k v"
  shows "\<exists>off lg'. log_append E op k v lg = (Inr off, lg') \<and> log_holds lg' (es @ [(op, k, v)]) \<and>
    off = record_offset lg' (es @ [(op, k, v)]) (length es) \<and>
    (\<forall>i < length es. record_offset lg' (es @ [(op, k, v)]) i = record_offset lg es i)"
proof -
  have wf: "wf_log lg es" "l_eof lg < 2 ^ 63" and fit: "fits k v"
    using assms(2,3) by (auto simp: log_holds_def log_accepts_def)
  obtain lg' where app: "log_append E op k v lg = (Inr (max (l_eof lg) (if l_legacy lg then 0 else 8)), lg')"
    and wf': "wf_log lg' (es @ [(op, k, v)])" and leg: "l_legacy lg' = l_legacy lg"
    and eof: "l_eof lg' = max (l_eof lg) (if l_legacy lg then 0 else 8) + 11 + length k + length v"
    by (rule append_wf [OF assms(1) wf(1) fit])
  have "l_eof lg' < 2 ^ 63" using eof assms(3) by (simp add: log_accepts_def max_def split: if_splits)
  moreover have "max (l_eof lg) (if l_legacy lg then 0 else 8) =
      (if l_legacy lg then 0 else 8) + length (log_bytes (l_legacy lg) es)"
    using wf(1) by (auto simp: wf_log_def log_head_def split: if_splits)
  ultimately show ?thesis
    using app wf' eof record_offset_append [OF wf(1) wf' leg] by (auto simp: log_holds_def)
qed

interpretation wal: record_log benign log_holds log_accepts record_offset log_append read_value_at
proof
  show "\<exists>off l'. log_append e op k v l = (Inr off, l') \<and> log_holds l' (es @ [(op, k, v)]) \<and>
      off = record_offset l' (es @ [(op, k, v)]) (length es) \<and>
      (\<forall>i < length es. record_offset l' (es @ [(op, k, v)]) i = record_offset l es i)"
    if "benign e" "log_holds l es" "log_accepts l k v" for e l es op k v
    using that by (rule log_append_contract)
  show "read_value_at e l (record_offset l es i) = Inr (k, v)"
    if "benign e" "log_holds l es" "i < length es" "es ! i = (op, k, v)" for e l es i op k v
    using that by (intro read_record) (auto simp: log_holds_def)
qed

interpretation kv: kv_store benign log_holds log_accepts record_offset log_append read_value_at
    index_empty index_put index_remove index_get index_inv index_size
  by unfold_locales

end
