(* ===== verification/Engine_Correct.thy ===== *)
theory Engine_Correct
  imports Storage_Engine Store_Spec
begin

text \<open>
  The storage engine implements the abstract store. \<open>engine_holds st es\<close> says that the log of
  \<open>st\<close> holds the records \<open>es\<close> and its index points at the latest record of every live key.
  Every operation keeps it, lookups agree with \<open>store_of es\<close>, and a replay restores it.
\<close>

section \<open>The invariant and the lookups\<close>

definition engine_holds :: "engine \<Rightarrow> record_kv list \<Rightarrow> bool" where
  "engine_holds st es \<longleftrightarrow> kv.indexed (e_log st) (e_index st) es \<and> e_durable st \<le> l_eof (e_log st)"

lemma engine_holds_log:
  assumes "engine_holds st es"
  shows "wf_log (e_log st) es" and "l_fd (e_log st)" and "l_eof (e_log st) < 2 ^ 63"
    and "length (f_data (l_file (e_log st))) = l_eof (e_log st)" and "index_inv (e_index st)"
  using assms by (auto simp: engine_holds_def kv.indexed_def log_holds_def wf_log_def)

definition store_result :: "bytes option \<Rightarrow> bytes result" where
  "store_result v = (case v of None \<Rightarrow> Inl kNotFound | Some x \<Rightarrow> Inr x)"

lemma engine_get_store:
  assumes "benign_env V" and "engine_holds st es"
  shows "engine_get V st key = store_result (store_of es key)"
  using kv.lookup_sound [of "env_wal V" "e_log st" "e_index st" es key] assms
  by (auto simp: engine_get_def store_result_def benign_env_def engine_holds_def split: option.splits)

section \<open>Group commit\<close>

lemma engine_fsync_ok:
  assumes "benign_env V" and "l_fd (e_log st)"
  shows "engine_fsync V st = (kOk, st\<lparr>e_durable := length (f_data (l_file (e_log st)))\<rparr>)"
  using assms by (simp add: engine_fsync_def log_sync_def benign_env_def benign_def status_ok_def)

text \<open>
  What \<open>maybe_fsync_after_append\<close> does when no call fails: it changes the counter and the
  durable length only, and the counter stays below the configured number.
\<close>

definition fsync_now :: "engine \<Rightarrow> bool" where
  "fsync_now st \<longleftrightarrow> o_sync_writes (e_opts st) \<and>
     (o_group_commit (e_opts st) \<longrightarrow> o_sync_every_n_appends (e_opts st) \<noteq> 0 \<and>
        o_sync_every_n_appends (e_opts st) \<le> u64_wrap (e_appends st + 1))"

definition next_appends :: "engine \<Rightarrow> nat" where
  "next_appends st =
     (if o_sync_writes (e_opts st) \<and> o_group_commit (e_opts st) \<and> o_sync_every_n_appends (e_opts st) \<noteq> 0
      then (if u64_wrap (e_appends st + 1) < o_sync_every_n_appends (e_opts st)
            then u64_wrap (e_appends st + 1) else 0)
      else e_appends st)"

lemma maybe_fsync_ok:
  assumes "benign_env V" and "l_fd (e_log st)"
  shows "maybe_fsync_after_append V st =
    (kOk, st\<lparr>e_appends := next_appends st,
             e_durable := (if fsync_now st then length (f_data (l_file (e_log st))) else e_durable st)\<rparr>)"
  using assms
  by (auto simp: maybe_fsync_after_append_def engine_fsync_ok fsync_now_def next_appends_def Let_def)

section \<open>Mutations\<close>

text \<open>\<open>put\<close> and \<open>remove\<close> are the same step, up to the index operation.\<close>

definition engine_log_op :: "op_type \<Rightarrow> store_env \<Rightarrow> bytes \<Rightarrow> bytes \<Rightarrow> engine \<Rightarrow> status_code \<times> engine" where
  "engine_log_op op V key value st =
     (if op = OpDelete then engine_remove V key st else engine_put_as op V key value st)"

lemma engine_log_op_holds:
  assumes "benign_env V" and "engine_holds st es" and "log_accepts (e_log st) key value"
    and "op = OpDelete \<longrightarrow> value = []"
  obtains st' where "engine_log_op op V key value st = (kOk, st')" and "engine_holds st' (es @ [(op, key, value)])"
    and "e_opts st' = e_opts st" and "e_appends st' = next_appends st"
    and "e_durable st' = (if fsync_now st then l_eof (e_log st') else e_durable st)"
    and "l_eof (e_log st') \<le> l_eof (e_log st) + 19 + length key + length value"
    and "l_legacy (e_log st') = l_legacy (e_log st)" and "l_eof (e_log st) + 11 \<le> l_eof (e_log st')"
proof -
  have E: "benign (env_wal V)" and ix: "kv.indexed (e_log st) (e_index st) es"
    using assms by (auto simp: benign_env_def engine_holds_def)
  have wf: "wf_log (e_log st) es" "l_eof (e_log st) < 2 ^ 63" and fit: "fits key value"
    using engine_holds_log [OF assms(2)] assms(3) by (auto simp: log_accepts_def)
  from kv.append_indexed [OF E ix assms(3), of op] obtain off lg where
    app: "log_append (env_wal V) op key value (e_log st) = (Inr off, lg)"
    and ix': "kv.indexed lg (if op = OpDelete then index_remove key (e_index st)
                             else index_put key off (e_index st)) (es @ [(op, key, value)])"
    by auto
  have eof: "l_eof lg = max (l_eof (e_log st)) (if l_legacy (e_log st) then 0 else 8) + 11 + length key + length value"
    and leg: "l_legacy lg = l_legacy (e_log st)"
    by (rule append_wf [OF E wf(1) fit, of op]; simp add: app)+
  let ?m = "if op = OpDelete then index_remove key (e_index st) else index_put key off (e_index st)"
  let ?st1 = "st\<lparr>e_log := lg, e_index := ?m\<rparr>"
  have fd: "l_fd lg" "length (f_data (l_file lg)) = l_eof lg"
    using ix' by (auto simp: kv.indexed_def log_holds_def wf_log_def)
  have same: "next_appends ?st1 = next_appends st" "fsync_now ?st1 = fsync_now st"
    by (simp_all add: next_appends_def fsync_now_def)
  let ?st2 = "?st1\<lparr>e_appends := next_appends st, e_durable := (if fsync_now st then l_eof lg else e_durable st)\<rparr>"
  have run: "maybe_fsync_after_append V ?st1 = (kOk, ?st2)"
    using maybe_fsync_ok [OF assms(1), of ?st1] fd same by simp
  then have "engine_log_op op V key value st = (kOk, ?st2)"
    using app assms(4) by (auto simp: engine_log_op_def engine_put_as_def engine_remove_def)
  moreover have "engine_holds ?st2 (es @ [(op, key, value)])"
    using ix' assms(2) eof by (simp add: engine_holds_def le_max_iff_disj trans_le_add1)
  moreover have "l_eof lg \<le> l_eof (e_log st) + 19 + length key + length value"
    by (simp add: eof)
  moreover have "l_eof (e_log st) + 11 \<le> l_eof lg"
    by (simp add: eof)
  ultimately show ?thesis
    using leg by (intro that [of ?st2]) simp_all
qed

section \<open>Replay\<close>

fun rec_offs :: "bool \<Rightarrow> nat \<Rightarrow> record_kv list \<Rightarrow> (op_type \<times> bytes \<times> nat) list" where
  "rec_offs legacy off [] = []"
| "rec_offs legacy off ((op, key, value) # es) =
     (op, key, off) # rec_offs legacy (off + length (encode_frame legacy (op, key, value))) es"

lemma visit_replay:
  "visit legacy off es apply_cb m = fold hash_index.replay1 (rec_offs legacy off es) m"
  by (induction legacy off es arbitrary: m rule: rec_offs.induct)
     (auto simp: apply_cb_def apply_wal_entry_def hash_index.replay1_def Let_def)

lemma rec_offs_nth:
  "rec_offs legacy off es =
    map (\<lambda>i. (fst (es ! i), fst (snd (es ! i)), off + length (log_bytes legacy (take i es)))) [0..<length es]"
proof (induction legacy off es rule: rec_offs.induct)
  case (2 legacy off op key val es)
  then show ?case
    by (simp add: map_upt_Suc add.assoc del: upt_Suc)
qed simp

lemma rec_offs_append:
  "rec_offs legacy off (es @ fs) = rec_offs legacy off es @ rec_offs legacy (off + length (log_bytes legacy es)) fs"
  by (induction legacy off es rule: rec_offs.induct) (simp_all add: add.assoc)

lemma length_rec_offs [simp]: "length (rec_offs legacy off es) = length es"
  by (simp add: rec_offs_nth)

lemma tagged_rec_offs: "kv.tagged lg es = rec_offs (l_legacy lg) (length (log_head lg)) es"
  by (simp add: kv.tagged_def rec_offs_nth record_offset_def)

lemma recover_holds:
  assumes "benign_env V" and "log_holds (e_log st) es"
  obtains m where "recover_inner V st = (kOk, st\<lparr>e_index := m\<rparr>)" and "kv.indexed (e_log st) m es"
proof -
  have wf: "benign (env_wal V)" "wf_log (e_log st) es"
    using assms by (auto simp: benign_env_def log_holds_def)
  then have start: "l_data_start (e_log st) = length (log_head (e_log st))" by (simp add: wf_log_def)
  have "recover_inner V st = (kOk, st\<lparr>e_index := fold hash_index.replay1 (kv.tagged (e_log st) es) index_empty\<rparr>)"
    by (simp add: recover_inner_def iterate_wf [OF wf] visit_replay tagged_rec_offs start)
  then show ?thesis using kv.replay_indexed [OF assms(2)] by (rule that)
qed

section \<open>Live entries\<close>

lemma store_of_keys_fit:
  assumes "\<forall>r \<in> set es. fits_rec r" and "store_of es k = Some v"
  shows "length k \<le> 0xFFFF"
  using assms
proof (induction es rule: rev_induct)
  case (snoc r es)
  then show ?case
    by (cases r) (auto simp: fits_rec_def fits_def split: if_splits)
qed simp

lemma visit_loop_collect:
  assumes "\<forall>(k, off) \<in> set xs. \<exists>v. read_value_at E lg off = Inr (k, v) \<and> f k = Some v"
  shows "visit_loop E lg (\<lambda>k v s. (True, s @ [(k, v)])) xs s = (kOk, s @ map (\<lambda>(k, off). (k, the (f k))) xs)"
  using assms by (induction xs arbitrary: s) fastforce+

lemma index_entry_reads:
  assumes "benign_env V" and "engine_holds st es" and "(k, off) \<in> set (e_index st)"
  shows "\<exists>v. read_value_at (env_wal V) (e_log st) off = Inr (k, v) \<and> store_of es k = Some v"
proof -
  have "index_get (e_index st) k = Some off"
    using engine_holds_log(5) [OF assms(2)] assms(3) by (simp add: index_get_def index_inv_def)
  then show ?thesis
    using kv.lookup_sound [of "env_wal V" "e_log st" "e_index st" es k] assms(1,2)
    by (simp add: benign_env_def engine_holds_def)
qed

end
