(* ===== verification/Log_Cut.thy ===== *)
theory Log_Cut
  imports Log_Recovery
begin

text \<open>
  A log file cut at an arbitrary byte, as a power failure leaves it: \<open>log_open_cut\<close> says that
  opening it succeeds and leaves a prefix of the records, the longest one that lies before the
  cut. A cut inside the file header turns the log into one of the legacy format.
\<close>

lemma cut_frames:
  assumes "n \<le> length (log_bytes legacy es)"
  shows "\<exists>m j. m \<le> length es \<and> take n (log_bytes legacy es) = log_bytes legacy (take m es) @ take j (encode_frame legacy (es ! m)) \<and>
    (m < length es \<and> j < length (encode_frame legacy (es ! m)) \<or> m = length es \<and> j = 0) \<and>
    (\<forall>i \<le> length es. length (log_bytes legacy (take i es)) \<le> n \<longrightarrow> i \<le> m)"
  using assms
proof (induction es arbitrary: n)
  case (Cons r es)
  show ?case
  proof (cases "n < length (encode_frame legacy r)")
    case True
    then have "i \<le> 0" if "i \<le> length (r # es)" "length (log_bytes legacy (take i (r # es))) \<le> n" for i
      using that by (cases i) auto
    with True show ?thesis by (intro exI [of _ 0] exI [of _ n]) auto
  next
    case False
    let ?f = "length (encode_frame legacy r)"
    have "n - ?f \<le> length (log_bytes legacy es)" using Cons.prems False by simp
    from Cons.IH [OF this] obtain m j where
      m: "m \<le> length es" "take (n - ?f) (log_bytes legacy es) = log_bytes legacy (take m es) @ take j (encode_frame legacy (es ! m))"
        "m < length es \<and> j < length (encode_frame legacy (es ! m)) \<or> m = length es \<and> j = 0"
        "\<forall>i \<le> length es. length (log_bytes legacy (take i es)) \<le> n - ?f \<longrightarrow> i \<le> m"
      by auto
    have "i \<le> Suc m" if "i \<le> length (r # es)" "length (log_bytes legacy (take i (r # es))) \<le> n" for i
      using that m(4) False by (cases i) auto
    with m False show ?thesis by (intro exI [of _ "Suc m"] exI [of _ j]) auto
  qed
qed simp

lemma length_log_bytes_legacy: "length (log_bytes legacy es) = length (log_bytes legacy' es)"
proof (induction es)
  case (Cons r es)
  then show ?case by (cases r) simp
qed simp

lemma wf_log_size: "wf_log lg es \<Longrightarrow> l_eof lg \<le> 8 + length (log_bytes legacy es)"
  using length_log_bytes_legacy [of "l_legacy lg" es legacy]
  by (auto simp: wf_log_def log_head_def split: if_splits)

lemma log_open_cut_body:
  assumes "benign E" and "\<forall>r \<in> set es. fits_rec r" and "k \<le> length (log_bytes legacy es)"
    and "8 + length (log_bytes legacy es) < 2 ^ 63"
  shows "\<exists>lg m. log_open E ((if legacy then [] else file_header) @ take k (log_bytes legacy es)) new_log = (kOk, lg) \<and>
    m \<le> length es \<and> wf_log lg (take m es) \<and>
    (\<forall>i \<le> length es. length (log_bytes legacy (take i es)) \<le> k \<longrightarrow> i \<le> m)"
proof -
  from cut_frames [OF assms(3)] obtain m j where
    m: "m \<le> length es" "take k (log_bytes legacy es) = log_bytes legacy (take m es) @ take j (encode_frame legacy (es ! m))"
      "m < length es \<and> j < length (encode_frame legacy (es ! m)) \<or> m = length es \<and> j = 0"
      "\<forall>i \<le> length es. length (log_bytes legacy (take i es)) \<le> k \<longrightarrow> i \<le> m"
    by auto
  let ?r = "if m < length es then es ! m else (OpPut, [], [])"
  let ?disk = "(if legacy then [] else file_header) @ take k (log_bytes legacy es)"
  have fit: "\<forall>r \<in> set (take m es @ [?r]). fits_rec r"
    using assms(2) by (auto simp: fits_rec_def [of "(OpPut, [], [])"] fits_def dest: in_set_takeD)
  have disk: "?disk = (if legacy then [] else file_header) @ log_bytes legacy (take m es) @ take j (encode_frame legacy ?r)"
    using m(2,3) by auto
  have j: "j < length (encode_frame legacy ?r)" using m(3) by auto
  have "length ?disk < 2 ^ 63" using assms(4) by auto
  from log_open_torn [OF assms(1) fit j disk this] m(1,4) show ?thesis by auto
qed

lemma log_open_cut:
  assumes "benign E" and "wf_log lg es" and "l_eof lg + 8 < 2 ^ 63" and "n \<le> l_eof lg"
  shows "\<exists>lg' m. log_open E (take n (f_data (l_file lg))) new_log = (kOk, lg') \<and> m \<le> length es \<and>
    wf_log lg' (take m es) \<and> l_eof lg' < 2 ^ 63 \<and>
    (\<forall>i \<le> length es. 0 < i \<longrightarrow> record_offset lg es i \<le> n \<longrightarrow> i \<le> m)"
proof -
  let ?l = "l_legacy lg"
  have data: "f_data (l_file lg) = log_head lg @ log_bytes ?l es" "\<forall>r \<in> set es. fits_rec r"
    and size: "l_eof lg = length (log_head lg) + length (log_bytes ?l es)"
    using assms(2) by (auto simp: wf_log_def)
  have small: "l_eof lg' < 2 ^ 63" if "wf_log lg' (take m es)" for lg' m
  proof -
    have "log_bytes ?l es = log_bytes ?l (take m es) @ log_bytes ?l (drop m es)"
      by (metis append_take_drop_id log_bytes_simps(3))
    then have "length (log_bytes ?l (take m es)) \<le> length (log_bytes ?l es)" by simp
    then show ?thesis using wf_log_size [OF that, of ?l] size assms(3) by simp
  qed
  consider (header) "log_head lg = file_header" "n < 8" "\<not> ?l" | (empty) "\<not> ?l" "log_head lg = []" "es = []"
    | (body) "log_head lg = (if ?l then [] else file_header)" "length (log_head lg) \<le> n"
    using assms(2) by (fastforce simp: wf_log_def log_head_def split: if_splits)
  then show ?thesis
  proof cases
    case header
    have none: "\<not> record_offset lg es i \<le> n" for i using header by (simp add: record_offset_def)
    have disk: "take n (f_data (l_file lg)) = take n file_header" using header data by simp
    have "wf_log (opened True []) (take 0 es)" using wf_opened [of "[]" True] by simp
    moreover have "wf_log (new_log\<lparr>l_fd := True\<rparr>) (take 0 es)"
      by (simp add: wf_log_def new_log_def log_head_def)
    moreover have "\<exists>lg'. log_open E (take n file_header) new_log = (kOk, lg') \<and> wf_log lg' (take 0 es)"
      using calculation log_open_torn_header [OF assms(1), of n] log_open_empty [OF assms(1)] header
      by (cases "n = 0") auto
    ultimately show ?thesis using none small unfolding disk by (metis bot_nat_0.extremum)
  next
    case empty
    then have "f_data (l_file lg) = []" using data by simp
    moreover have "wf_log (new_log\<lparr>l_fd := True\<rparr>) (take 0 es)"
      by (simp add: wf_log_def new_log_def log_head_def)
    ultimately show ?thesis
      using log_open_empty [OF assms(1)] empty by (intro exI [of _ "new_log\<lparr>l_fd := True\<rparr>"] exI [of _ 0]) (auto simp: new_log_def)
  next
    case body
    let ?k = "n - length (log_head lg)"
    have k: "?k \<le> length (log_bytes ?l es)" using assms(4) size by simp
    have disk: "take n (f_data (l_file lg)) = (if ?l then [] else file_header) @ take ?k (log_bytes ?l es)"
      using body data by (simp split: if_splits)
    have len: "8 + length (log_bytes ?l es) < 2 ^ 63" using size assms(3) by simp
    from log_open_cut_body [OF assms(1) data(2) k len] obtain lg' m where
      "log_open E (take n (f_data (l_file lg))) new_log = (kOk, lg')" "m \<le> length es" "wf_log lg' (take m es)"
      and max: "\<forall>i \<le> length es. length (log_bytes ?l (take i es)) \<le> ?k \<longrightarrow> i \<le> m"
      unfolding disk by auto
    moreover have "i \<le> m" if "i \<le> length es" "record_offset lg es i \<le> n" for i
      using that max body by (simp add: record_offset_def)
    ultimately show ?thesis using small by blast
  qed
qed

text \<open>
  a crash during the first append can leave part of the file header. Opening such a file
  reports success and yields an empty log of the legacy format: from then on the records are
  written without a file header and in little-endian order.
\<close>

theorem torn_header_becomes_legacy:
  assumes "benign E" and "0 < n" and "n < 8" and "fits key value"
  shows "\<exists>lg lg'. log_open E (take n file_header) new_log = (kOk, lg) \<and> l_legacy lg \<and>
    log_append E op key value lg = (Inr 0, lg') \<and> f_data (l_file lg') = encode_frame True (op, key, value)"
proof -
  have wf: "wf_log (opened True []) []" using wf_opened [of "[]" True] by simp
  obtain lg' where app: "log_append E op key value (opened True []) = (Inr 0, lg')"
    and lg': "wf_log lg' [(op, key, value)]" "l_legacy lg'"
    by (rule append_wf [OF assms(1) wf assms(4), of op]) (simp add: opened_def)
  then have "f_data (l_file lg') = encode_frame True (op, key, value)"
    by (simp add: wf_log_def log_head_def)
  then show ?thesis
    using log_open_torn_header [OF assms(1-3)] app by (simp add: opened_def)
qed

theorem torn_header_becomes_legacy_witness:
  "\<exists>lg lg'. log_open calm_env (take 5 file_header) new_log = (kOk, lg) \<and> l_legacy lg \<and>
    log_append calm_env OpPut [97] [1] lg = (Inr 0, lg') \<and> f_data (l_file lg') = encode_frame True (OpPut, [97], [1])"
  by (rule torn_header_becomes_legacy) (simp_all add: fits_def)

end
