(* ===== verification/Engine_Theorems.thy ===== *)
theory Engine_Theorems
  imports Engine_Correct Log_Cut
begin

text \<open>
  What a client of the storage engine may rely on: sequences of requests behave like the
  abstract map, live entries are enumerated once each, and after a power failure at any point
  not earlier than the last \<open>fsync\<close> the reopened engine holds a prefix of the history that
  contains every record the commit mode promised.
\<close>

section \<open>Requests\<close>

datatype request = RPut bytes bytes | RPutVector bytes bytes | RPutVectorV2 bytes bytes
  | RRemove bytes | RSync | RRecover

fun exec :: "store_env \<Rightarrow> request \<Rightarrow> engine \<Rightarrow> status_code \<times> engine" where
  "exec V (RPut key value) st = engine_put V key value st"
| "exec V (RPutVector key value) st = engine_put_vector V key value st"
| "exec V (RPutVectorV2 key value) st = engine_put_vector_v2 V key value st"
| "exec V (RRemove key) st = engine_remove V key st"
| "exec V RSync st = engine_sync V st"
| "exec V RRecover st = engine_recover V st"

fun req_record :: "request \<Rightarrow> record_kv list" where
  "req_record (RPut key value) = [(OpPut, key, value)]"
| "req_record (RPutVector key value) = [(OpVectorPut, key, value)]"
| "req_record (RPutVectorV2 key value) = [(OpVectorPutV2, key, value)]"
| "req_record (RRemove key) = [(OpDelete, key, [])]"
| "req_record RSync = []"
| "req_record RRecover = []"

definition req_records :: "request list \<Rightarrow> record_kv list" where
  "req_records rs = concat (map req_record rs)"

fun run :: "store_env \<Rightarrow> request list \<Rightarrow> engine \<Rightarrow> status_code list \<times> engine" where
  "run V [] st = ([], st)"
| "run V (r # rs) st = (let (s, st) = exec V r st; (ss, st) = run V rs st in (s # ss, st))"

text \<open>Enough room: every frame takes at most 19 bytes more than its key and value.\<close>

definition rec_cost :: "record_kv \<Rightarrow> nat" where
  "rec_cost r = (case r of (op, key, value) \<Rightarrow> 19 + length key + length value)"

definition room_for :: "engine \<Rightarrow> record_kv list \<Rightarrow> bool" where
  "room_for st fs \<longleftrightarrow> (\<forall>r \<in> set fs. fits_rec r) \<and> l_eof (e_log st) + sum_list (map rec_cost fs) + 8 < 2 ^ 63"

lemma exec_log_op:
  "req_record r = [(op, key, value)] \<Longrightarrow>
    exec V r st = engine_log_op op V key value st \<and> (op = OpDelete \<longrightarrow> value = [])"
  by (cases r) (auto simp: engine_log_op_def engine_put_def engine_put_vector_def engine_put_vector_v2_def)

lemma req_record_cases:
  obtains (none) "req_record r = []" "r = RSync \<or> r = RRecover" | (one) op key val where "req_record r = [(op, key, val)]"
  by (cases r) auto

section \<open>Durability\<close>

definition durable_records :: "engine \<Rightarrow> record_kv list \<Rightarrow> nat \<Rightarrow> bool" where
  "durable_records st es j \<longleftrightarrow> j \<le> length es \<and> (j = 0 \<or> record_offset (e_log st) es j \<le> e_durable st)"

definition commit_mode :: "options \<Rightarrow> bool" where
  "commit_mode opts \<longleftrightarrow> o_sync_writes opts \<and>
     (o_group_commit opts \<longrightarrow> 0 < o_sync_every_n_appends opts \<and> o_sync_every_n_appends opts < 2 ^ 64)"

definition max_lag :: "options \<Rightarrow> nat" where
  "max_lag opts = (if o_group_commit opts then o_sync_every_n_appends opts - 1 else 0)"

definition synced :: "engine \<Rightarrow> record_kv list \<Rightarrow> bool" where
  "synced st es \<longleftrightarrow>
     (\<exists>j. durable_records st es j \<and> length es - j \<le> (if o_group_commit (e_opts st) then e_appends st else 0)) \<and>
     (o_group_commit (e_opts st) \<longrightarrow> e_appends st < o_sync_every_n_appends (e_opts st))"

lemma record_offset_end: "wf_log lg es \<Longrightarrow> record_offset lg es (length es) = l_eof lg"
  by (auto simp: wf_log_def record_offset_def)

lemma record_offset_keeps:
  assumes "wf_log lg es" and "wf_log lg' (es @ [r])" and "l_legacy lg' = l_legacy lg" and "0 < j" and "j \<le> length es"
  shows "record_offset lg' (es @ [r]) j = record_offset lg es j"
proof -
  have "l_eof lg' \<noteq> 0" using assms(2) length_encode_frame_ge [of "l_legacy lg'" r] by (auto simp: wf_log_def)
  moreover have "l_eof lg \<noteq> 0"
  proof -
    have "log_bytes (l_legacy lg) es \<noteq> []" using assms(4,5) by auto
    then show ?thesis using assms(1) by (metis append_is_Nil_conv length_0_conv wf_log_def)
  qed
  ultimately show ?thesis using assms(3,5) by (simp add: record_offset_def log_head_def)
qed

lemma exec_holds:
  assumes "benign_env V" and "engine_holds st es" and "room_for st (req_record r)"
  obtains st' where "exec V r st = (kOk, st')" and "engine_holds st' (es @ req_record r)"
    and "e_opts st' = e_opts st"
    and "l_eof (e_log st') \<le> l_eof (e_log st) + sum_list (map rec_cost (req_record r))"
    and "commit_mode (e_opts st) \<longrightarrow> synced st es \<longrightarrow> synced st' (es @ req_record r)"
    and "l_legacy (e_log st') = l_legacy (e_log st)"
    and "l_eof (e_log st) + 11 * length (req_record r) \<le> l_eof (e_log st')"
proof (cases r rule: req_record_cases)
  case none
  note lg = engine_holds_log [OF assms(2)]
  show ?thesis
  proof (cases "r = RSync")
    case True
    let ?st = "st\<lparr>e_appends := 0, e_durable := l_eof (e_log st)\<rparr>"
    have "exec V r st = (kOk, ?st)"
      using True lg engine_fsync_ok [OF assms(1), of "st\<lparr>e_appends := 0\<rparr>"] by (simp add: engine_sync_def)
    moreover have "engine_holds ?st es" using assms(2) by (simp add: engine_holds_def)
    moreover have "durable_records ?st es (length es)"
      using record_offset_end [OF lg(1)] by (simp add: durable_records_def)
    then have "commit_mode (e_opts st) \<longrightarrow> synced ?st es"
      by (auto simp: synced_def commit_mode_def)
    ultimately show ?thesis using none(1) by (intro that [of ?st]) auto
  next
    case False
    have "log_holds (e_log st) es" using assms(2) by (simp add: engine_holds_def kv.indexed_def)
    from recover_holds [OF assms(1) this] obtain m where
      "recover_inner V st = (kOk, st\<lparr>e_index := m\<rparr>)" "kv.indexed (e_log st) m es" .
    then have "exec V r st = (kOk, st\<lparr>e_index := m\<rparr>)" "engine_holds (st\<lparr>e_index := m\<rparr>) es"
      using False none assms(2) by (auto simp: engine_recover_def engine_holds_def)
    then show ?thesis
      using none(1) by (intro that [of "st\<lparr>e_index := m\<rparr>"]) (auto simp: synced_def durable_records_def)
  qed
next
  case (one op key val)
  have acc: "log_accepts (e_log st) key val"
    using assms(3) one by (simp add: room_for_def log_accepts_def fits_rec_def rec_cost_def)
  note ex = exec_log_op [OF one, of V st]
  from engine_log_op_holds [OF assms(1,2) acc, of op] ex obtain st' where
    st': "exec V r st = (kOk, st')" "engine_holds st' (es @ [(op, key, val)])" "e_opts st' = e_opts st"
    and app: "e_appends st' = next_appends st"
    and dur: "e_durable st' = (if fsync_now st then l_eof (e_log st') else e_durable st)"
    and eof: "l_eof (e_log st') \<le> l_eof (e_log st) + 19 + length key + length val"
    and leg: "l_legacy (e_log st') = l_legacy (e_log st)" and mono: "l_eof (e_log st) + 11 \<le> l_eof (e_log st')"
    by metis
  have "synced st' (es @ [(op, key, val)])" if mode: "commit_mode (e_opts st)" and sy: "synced st es"
  proof (cases "fsync_now st")
    case True
    have "durable_records st' (es @ [(op, key, val)]) (length (es @ [(op, key, val)]))"
      using True dur record_offset_end [OF engine_holds_log(1) [OF st'(2)]] by (simp add: durable_records_def)
    moreover have "o_group_commit (e_opts st) \<longrightarrow> e_appends st' < o_sync_every_n_appends (e_opts st)"
      using mode by (auto simp: app next_appends_def commit_mode_def)
    ultimately show ?thesis unfolding synced_def st'(3) by (metis diff_self_eq_0 le0)
  next
    case False
    then have grp: "o_group_commit (e_opts st)" using mode by (auto simp: fsync_now_def commit_mode_def)
    with sy have less: "e_appends st < o_sync_every_n_appends (e_opts st)" by (simp add: synced_def)
    then have wrap: "u64_wrap (e_appends st + 1) = e_appends st + 1"
      using mode grp by (intro u64_wrap_id) (simp add: commit_mode_def)
    have cnt: "e_appends st' = e_appends st + 1" "e_appends st + 1 < o_sync_every_n_appends (e_opts st)"
      using False grp mode less by (auto simp: app next_appends_def fsync_now_def commit_mode_def wrap)
    from sy grp obtain j where j: "durable_records st es j" "length es - j \<le> e_appends st"
      by (auto simp: synced_def)
    have "durable_records st' (es @ [(op, key, val)]) j"
      using j(1) False dur record_offset_keeps [OF engine_holds_log(1) [OF assms(2)] engine_holds_log(1) [OF st'(2)] leg, of j]
      by (cases "j = 0") (auto simp: durable_records_def)
    then show ?thesis using j(2) cnt grp st'(3) by (auto simp: synced_def intro!: exI [of _ j])
  qed
  then show ?thesis
    using st' eof leg mono one by (intro that [of st']) (auto simp: rec_cost_def)
qed

lemma run_holds:
  assumes "benign_env V"
  shows "engine_holds st es \<Longrightarrow> room_for st (req_records rs) \<Longrightarrow>
    \<exists>st'. run V rs st = (replicate (length rs) kOk, st') \<and> engine_holds st' (es @ req_records rs) \<and>
      e_opts st' = e_opts st \<and> l_eof (e_log st') \<le> l_eof (e_log st) + sum_list (map rec_cost (req_records rs)) \<and>
      (commit_mode (e_opts st) \<longrightarrow> synced st es \<longrightarrow> synced st' (es @ req_records rs)) \<and>
      l_legacy (e_log st') = l_legacy (e_log st) \<and>
      l_eof (e_log st) + 11 * length (req_records rs) \<le> l_eof (e_log st')"
proof (induction rs arbitrary: st es)
  case Nil
  then show ?case by (auto simp: req_records_def)
next
  case (Cons r rs)
  have split: "req_records (r # rs) = req_record r @ req_records rs" by (simp add: req_records_def)
  have room: "room_for st (req_record r)" using Cons.prems(2) by (simp add: room_for_def split)
  from exec_holds [OF assms Cons.prems(1) room] obtain st1 where
    one: "exec V r st = (kOk, st1)" "engine_holds st1 (es @ req_record r)" "e_opts st1 = e_opts st"
      "l_eof (e_log st1) \<le> l_eof (e_log st) + sum_list (map rec_cost (req_record r))"
      "commit_mode (e_opts st) \<longrightarrow> synced st es \<longrightarrow> synced st1 (es @ req_record r)"
      "l_legacy (e_log st1) = l_legacy (e_log st)"
      "l_eof (e_log st) + 11 * length (req_record r) \<le> l_eof (e_log st1)" .
  have "room_for st1 (req_records rs)"
    using Cons.prems(2) one(4) by (simp add: room_for_def split)
  from Cons.IH [OF one(2) this] one show ?case by (auto simp: split)
qed

section \<open>The engine as a map\<close>

lemma engine_open_empty:
  assumes "benign_env V" and "d (o_snapshot_dir opts @ ascii ''/MANIFEST'') = None"
  shows "\<exists>st. engine_open V [] d (new_engine opts) = (kOk, st) \<and> engine_holds st [] \<and> e_opts st = opts \<and>
    l_eof (e_log st) = 0 \<and> e_appends st = 0"
proof -
  let ?lg = "new_log\<lparr>l_fd := True\<rparr>"
  have "log_open (env_wal V) [] new_log = (kOk, ?lg)"
    using assms(1) by (intro log_open_empty) (simp add: benign_env_def)
  moreover have wf: "log_holds ?lg []" by (simp add: log_holds_def wf_log_def log_head_def new_log_def)
  moreover obtain m where "recover_inner V ((new_engine opts)\<lparr>e_appends := 0, e_log := ?lg\<rparr>) =
      (kOk, (new_engine opts)\<lparr>e_appends := 0, e_log := ?lg, e_index := m\<rparr>)" and "kv.indexed ?lg m []"
    using recover_holds [OF assms(1), of "(new_engine opts)\<lparr>e_appends := 0, e_log := ?lg\<rparr>" "[]"] wf by auto
  ultimately show ?thesis
    using assms(2)
    by (simp add: engine_open_def new_engine_def manifest_path_def read_manifest_latest_def status_ok_def
        engine_holds_def) (simp add: new_log_def)
qed

text \<open>
  C12: the engine is a map. Start with an empty log and no snapshots and run any sequence of
  puts, vector puts, removals, syncs and recoveries that fit the log. Every request succeeds,
  a lookup of any key afterwards returns what the sequence of updates of an abstract map
  gives (\<open>kNotFound\<close> for a key without value), and the number of keys is that map's.
\<close>

theorem engine_implements_map:
  assumes "benign_env V" and "d (o_snapshot_dir opts @ ascii ''/MANIFEST'') = None"
    and "\<forall>r \<in> set (req_records rs). fits_rec r" and "sum_list (map rec_cost (req_records rs)) + 8 < 2 ^ 63"
  shows "\<exists>st st'. engine_open V [] d (new_engine opts) = (kOk, st) \<and>
    run V rs st = (replicate (length rs) kOk, st') \<and>
    (\<forall>key. engine_get V st' key = store_result (store_of (req_records rs) key)) \<and>
    key_count st' = card (dom (store_of (req_records rs)))"
proof -
  obtain st where st: "engine_open V [] d (new_engine opts) = (kOk, st)" "engine_holds st []" "l_eof (e_log st) = 0"
    using engine_open_empty [of V d opts, OF assms(1,2)] by auto
  have "room_for st (req_records rs)" using assms(3,4) st(3) by (simp add: room_for_def)
  from run_holds [OF assms(1) st(2) this] obtain st' where
    run: "run V rs st = (replicate (length rs) kOk, st')" and holds: "engine_holds st' (req_records rs)" by auto
  have "key_count st' = card (dom (store_of (req_records rs)))"
    using kv.dom_indexed [of "env_wal V" "e_log st'" "e_index st'" "req_records rs"] holds assms(1) index_size_card [OF engine_holds_log(5) [OF holds]]
    by (simp add: key_count_def engine_holds_def benign_env_def)
  then show ?thesis using st(1) run engine_get_store [OF assms(1) holds] by auto
qed

theorem engine_implements_map_witness:
  "\<exists>st st'. engine_open calm_store [] Map.empty (new_engine \<lparr>o_sync_writes = True, o_group_commit = False,
      o_sync_every_n_appends = 0, o_snapshot_dir = [115]\<rparr>) = (kOk, st) \<and>
    run calm_store [RPut [97] [1], RPut [98] [2], RRemove [97], RPutVectorV2 [98] [3]] st =
      (replicate (length [RPut [97] [1], RPut [98] [2], RRemove [97], RPutVectorV2 [98] [3]]) kOk, st') \<and>
    (\<forall>key. engine_get calm_store st' key = store_result
      (store_of (req_records [RPut [97] [1], RPut [98] [2], RRemove [97], RPutVectorV2 [98] [3]]) key)) \<and>
    key_count st' = card (dom (store_of (req_records [RPut [97] [1], RPut [98] [2], RRemove [97], RPutVectorV2 [98] [3]])))"
  by (rule engine_implements_map)
     (simp_all add: benign_env_def calm_store_def is_order_def req_records_def fits_rec_def fits_def rec_cost_def)

text \<open>
  enumeration. \<open>visit_live\<close> with a callback that never stops succeeds and calls it once for
  every live key, with the key's current value, whatever the iteration order of the index.
\<close>

theorem visit_live_enumerates:
  assumes "benign_env V" and "engine_holds st es"
  shows "\<exists>xs. visit_live V st (\<lambda>k v s. (True, s @ [(k, v)])) [] = (kOk, xs) \<and>
    distinct (map fst xs) \<and> map_of xs = store_of es"
proof -
  let ?d = "index_dump (env_ord V) (e_index st)"
  let ?xs = "map (\<lambda>(k, off). (k, the (store_of es k))) ?d"
  have ord: "is_order (env_ord V)" using assms(1) by (simp add: benign_env_def)
  note dump = index_dump_get [OF ord engine_holds_log(5) [OF assms(2)]]
  have "set ?d = set (e_index st)" using ord by (metis index_dump_def is_order_def mset_eq_setD)
  then have live: "\<forall>(k, off) \<in> set ?d. \<exists>v. read_value_at (env_wal V) (e_log st) off = Inr (k, v) \<and> store_of es k = Some v"
    using index_entry_reads [OF assms] by auto
  have run: "visit_live V st (\<lambda>k v s. (True, s @ [(k, v)])) [] = (kOk, ?xs)"
    unfolding visit_live_def by (subst visit_loop_collect [OF live]) simp
  have keys: "map fst ?xs = map fst ?d" by (simp add: split_def)
  have "map_of ?xs k = store_of es k" for k
  proof (cases "store_of es k")
    case None
    then have "k \<notin> fst ` set ?d" using live by fastforce
    then have "map_of ?xs k = None" by (simp add: map_of_eq_None_iff image_image split_def)
    then show ?thesis using None by simp
  next
    case (Some v)
    then have "index_get ?d k \<noteq> None"
      using kv.lookup_sound [of "env_wal V" "e_log st" "e_index st" es k] assms dump(1)
      by (auto simp: benign_env_def engine_holds_def split: option.splits)
    then obtain off where "(k, off) \<in> set ?d" by (auto simp: index_get_def dest: map_of_SomeD)
    then have "(k, v) \<in> set ?xs" using Some by force
    moreover have "distinct (map fst ?xs)" using dump(2) keys by (simp only: index_inv_def)
    ultimately show ?thesis using Some by simp
  qed
  then have "map_of ?xs = store_of es" by (rule ext)
  moreover have "distinct (map fst ?xs)" using dump(2) keys by (simp only: index_inv_def)
  ultimately show ?thesis using run by (intro exI [of _ ?xs]) simp
qed

text \<open>A small engine for the witnesses: group commit every three appends, two keys written.\<close>

definition sample_opts :: options where
  "sample_opts = \<lparr>o_sync_writes = True, o_group_commit = True, o_sync_every_n_appends = 3, o_snapshot_dir = [115]\<rparr>"

definition sample_engine :: engine where
  "sample_engine = snd (run calm_store [RPut [97] [1], RPut [98] [2]]
     (snd (engine_open calm_store [] Map.empty (new_engine sample_opts))))"

lemma benign_calm_store [simp]: "benign_env calm_store"
  by (simp add: benign_env_def calm_store_def is_order_def)

lemma synced_start: "e_opts st = opts \<Longrightarrow> commit_mode opts \<Longrightarrow> e_appends st = 0 \<Longrightarrow> synced st []"
  by (auto simp: synced_def durable_records_def commit_mode_def)

lemma sample_engine_holds:
  "engine_holds sample_engine [(OpPut, [97], [1]), (OpPut, [98], [2])]"
  "synced sample_engine [(OpPut, [97], [1]), (OpPut, [98], [2])]"
  "e_opts sample_engine = sample_opts" "l_eof (e_log sample_engine) \<le> 50"
proof -
  let ?rs = "[RPut [97] [1], RPut [98] [2]]"
  obtain st where st: "engine_open calm_store [] Map.empty (new_engine sample_opts) = (kOk, st)" "engine_holds st []"
    "e_opts st = sample_opts" "l_eof (e_log st) = 0" "e_appends st = 0"
    using engine_open_empty [of calm_store Map.empty sample_opts] by auto
  have mode: "commit_mode sample_opts" by (simp add: commit_mode_def sample_opts_def)
  have room: "room_for st (req_records ?rs)"
    using st(4) by (simp add: room_for_def req_records_def rec_cost_def fits_rec_def fits_def)
  from run_holds [OF benign_calm_store st(2) room] synced_start [OF st(3) mode st(5)] mode
  show "engine_holds sample_engine [(OpPut, [97], [1]), (OpPut, [98], [2])]"
    "synced sample_engine [(OpPut, [97], [1]), (OpPut, [98], [2])]"
    "e_opts sample_engine = sample_opts" "l_eof (e_log sample_engine) \<le> 50"
    by (auto simp: sample_engine_def st(1,3,4) req_records_def rec_cost_def)
qed

theorem visit_live_enumerates_witness:
  "\<exists>xs. visit_live calm_store sample_engine (\<lambda>k v s. (True, s @ [(k, v)])) [] = (kOk, xs) \<and>
    distinct (map fst xs) \<and> map_of xs = store_of [(OpPut, [97], [1]), (OpPut, [98], [2])]"
  by (rule visit_live_enumerates) (simp_all add: sample_engine_holds)

section \<open>Power failures\<close>

lemma engine_open_full_replay:
  assumes "benign_env V" and "log_open (env_wal V) wal new_log = (kOk, lg)" and "log_holds lg es"
    and "\<nexists>e. read_manifest_latest (env_man V) d (o_snapshot_dir opts @ ascii ''/MANIFEST'') = Inr e"
  shows "\<exists>st. engine_open V wal d (new_engine opts) = (kOk, st) \<and> engine_holds st es"
proof -
  let ?st = "(new_engine opts)\<lparr>e_appends := 0, e_log := lg\<rparr>"
  obtain m where m: "recover_inner V ?st = (kOk, ?st\<lparr>e_index := m\<rparr>)" "kv.indexed lg m es"
    using recover_holds [OF assms(1), of ?st es] assms(3) by auto
  obtain s where "read_manifest_latest (env_man V) d (manifest_path ?st) = Inl s"
    using assms(4) by (cases "read_manifest_latest (env_man V) d (manifest_path ?st)") (auto simp: manifest_path_def new_engine_def)
  then have "engine_open V wal d (new_engine opts) = (kOk, ?st\<lparr>e_index := m\<rparr>)"
    using assms(2) m(1) by (simp add: engine_open_def new_engine_def status_ok_def)
  moreover have "engine_holds (?st\<lparr>e_index := m\<rparr>) es"
    using m(2) by (simp add: engine_holds_def new_engine_def)
  ultimately show ?thesis by blast
qed

text \<open>
  C13: what a power failure costs. Take an engine whose invariant holds and whose directory has
  no readable manifest, run any requests that fit, and cut the log file at any byte. Reopening
  succeeds with the state after a prefix of the history, in every configuration. In a synchronous
  commit mode (\<open>sync_writes\<close> with an \<open>fsync\<close> per append, or with group commit and one every
  \<open>N > 0\<close> appends), kept from the start, a cut not before the length the file had at the last
  successful \<open>fsync\<close> loses at most \<open>max_lag\<close> of the acknowledged records: none without group
  commit, at most \<open>N - 1\<close> with it. Without \<open>sync_writes\<close>, and with \<open>N = 0\<close>, nothing bounds the loss.
\<close>

theorem crash_loses_at_most_lag:
  assumes "benign_env V" and "engine_holds st es" and "room_for st (req_records rs)"
    and "\<nexists>e. read_manifest_latest (env_man V) d (o_snapshot_dir (e_opts st) @ ascii ''/MANIFEST'') = Inr e"
  shows "\<exists>st'. run V rs st = (replicate (length rs) kOk, st') \<and>
    (\<forall>n \<le> l_eof (e_log st').
      \<exists>st2 m. engine_open V (take n (f_data (l_file (e_log st')))) d (new_engine (e_opts st)) = (kOk, st2) \<and>
        m \<le> length (es @ req_records rs) \<and> engine_holds st2 (take m (es @ req_records rs)) \<and>
        (commit_mode (e_opts st) \<longrightarrow> synced st es \<longrightarrow> e_durable st' \<le> n \<longrightarrow>
          length (es @ req_records rs) - m \<le> max_lag (e_opts st)))"
proof -
  let ?fs = "es @ req_records rs"
  from run_holds [OF assms(1-3)] obtain st' where
    run: "run V rs st = (replicate (length rs) kOk, st')" and holds: "engine_holds st' ?fs"
    and opts: "e_opts st' = e_opts st" and sy: "commit_mode (e_opts st) \<Longrightarrow> synced st es \<Longrightarrow> synced st' ?fs"
    and eof: "l_eof (e_log st') \<le> l_eof (e_log st) + sum_list (map rec_cost (req_records rs))"
    by auto
  have E: "benign (env_wal V)" using assms(1) by (simp add: benign_env_def)
  have size: "l_eof (e_log st') + 8 < 2 ^ 63" using eof assms(3) by (simp add: room_for_def)
  have "\<exists>st2 m. engine_open V (take n (f_data (l_file (e_log st')))) d (new_engine (e_opts st)) = (kOk, st2) \<and>
      m \<le> length ?fs \<and> engine_holds st2 (take m ?fs) \<and>
      (commit_mode (e_opts st) \<longrightarrow> synced st es \<longrightarrow> e_durable st' \<le> n \<longrightarrow> length ?fs - m \<le> max_lag (e_opts st))"
    if n: "n \<le> l_eof (e_log st')" for n
  proof -
    from log_open_cut [OF E engine_holds_log(1) [OF holds] size n] obtain lg m where
      open': "log_open (env_wal V) (take n (f_data (l_file (e_log st')))) new_log = (kOk, lg)" and m: "m \<le> length ?fs"
      and wf: "log_holds lg (take m ?fs)"
      and max: "\<forall>i \<le> length ?fs. 0 < i \<longrightarrow> record_offset (e_log st') ?fs i \<le> n \<longrightarrow> i \<le> m"
      by (auto simp: log_holds_def)
    have "length ?fs - m \<le> max_lag (e_opts st)"
      if mode: "commit_mode (e_opts st)" and synced: "synced st es" and durable: "e_durable st' \<le> n"
    proof -
      from sy [OF mode synced] obtain j where j: "durable_records st' ?fs j" "length ?fs - j \<le> max_lag (e_opts st)"
        using mode opts by (auto simp: synced_def max_lag_def commit_mode_def split: if_splits)
      have "j \<le> m" using j(1) max durable by (auto simp: durable_records_def)
      then show ?thesis using j(2) by linarith
    qed
    moreover obtain st2 where "engine_open V (take n (f_data (l_file (e_log st')))) d (new_engine (e_opts st)) = (kOk, st2)"
      "engine_holds st2 (take m ?fs)"
      using engine_open_full_replay [OF assms(1) open' wf assms(4)] by blast
    ultimately show ?thesis using m by blast
  qed
  then show ?thesis using run by blast
qed

theorem crash_loses_at_most_lag_witness:
  "\<exists>st'. run calm_store [RRemove [97], RSync] sample_engine = ([kOk, kOk], st') \<and>
    (\<exists>st2 m. engine_open calm_store (f_data (l_file (e_log st'))) Map.empty (new_engine (e_opts sample_engine)) = (kOk, st2) \<and>
       m \<le> 3 \<and> 3 - m \<le> max_lag (e_opts sample_engine) \<and>
       engine_holds st2 (take m [(OpPut, [97], [1]), (OpPut, [98], [2]), (OpDelete, [97], [])]))"
proof -
  let ?rs = "[RRemove [97], RSync]"
  have recs: "req_records ?rs = [(OpDelete, [97], [])]" by (simp add: req_records_def)
  have room: "room_for sample_engine (req_records ?rs)"
    using sample_engine_holds(4) by (simp add: room_for_def req_records_def rec_cost_def fits_rec_def fits_def)
  have none: "\<nexists>e. read_manifest_latest (env_man calm_store) Map.empty (o_snapshot_dir (e_opts sample_engine) @ ascii ''/MANIFEST'') = Inr e"
    by (simp add: read_manifest_latest_def)
  have mode: "commit_mode (e_opts sample_engine)"
    by (simp add: sample_engine_holds(3)) (simp add: commit_mode_def sample_opts_def)
  from run_holds [OF benign_calm_store sample_engine_holds(1) room] obtain st1 where
    st1: "run calm_store ?rs sample_engine = ([kOk, kOk], st1)" "engine_holds st1 ([(OpPut, [97], [1]), (OpPut, [98], [2])] @ req_records ?rs)"
    by auto
  note log = engine_holds_log [OF st1(2)]
  obtain s st0 where st0: "exec calm_store (RRemove [97]) sample_engine = (s, st0)" by fastforce
  have "exec calm_store RSync st0 = (kOk, st1)" using st1(1) st0 by (auto split: prod.splits)
  then have "e_durable st1 = length (f_data (l_file (e_log st1)))"
    by (auto simp: engine_sync_def engine_fsync_def status_ok_def Let_def split: if_splits)
  then have "e_durable st1 \<le> l_eof (e_log st1)" "take (l_eof (e_log st1)) (f_data (l_file (e_log st1))) = f_data (l_file (e_log st1))"
    using log(4) by simp_all
  then show ?thesis
    using crash_loses_at_most_lag [OF benign_calm_store sample_engine_holds(1) room none] st1(1) mode sample_engine_holds(2)
    unfolding recs by (auto simp: numeral_3_eq_3 dest!: spec [of _ "l_eof (e_log st1)"])
qed

end
