(* ===== verification/Filter_Correct.thy ===== *)
theory Filter_Correct
  imports Filter_Index
begin

text \<open>
  What the filter index computes. \<open>indexes fx cur names\<close> is the reachability relation of the
  index: the states that additions and removals lead to, with the scalar fields every id has
  (\<open>cur\<close>) and the field names seen so far. By rule induction over it, evaluating a filter
  expression on the bit sets is evaluating it on the scalar fields of the id.
\<close>

section \<open>Tables keyed up to an equality\<close>

text \<open>
  The key equality of a table has to be symmetric and transitive; a NaN shows that it need not
  be reflexive.
\<close>

locale key_eq =
  fixes eq :: "'v \<Rightarrow> 'v \<Rightarrow> bool"
  assumes eq_sym: "eq a b \<Longrightarrow> eq b a" and eq_trans: "eq a b \<Longrightarrow> eq b c \<Longrightarrow> eq a c"
begin

definition apart :: "('v \<times> bitset) list \<Rightarrow> bool" where
  "apart m \<longleftrightarrow> sorted_wrt (\<lambda>a b. \<not> eq (fst a) (fst b)) m"

definition compat :: "('v \<Rightarrow> bool) \<Rightarrow> bool" where
  "compat c \<longleftrightarrow> (\<forall>a b. eq a b \<longrightarrow> c a = c b)"

lemma compat_eq: "compat (\<lambda>w. eq w v)"
  unfolding compat_def by (meson eq_sym eq_trans)

lemma set_bucket_set_fst: "x \<in> set (bucket_set eq v i m) \<Longrightarrow> fst x = v \<or> fst x \<in> fst ` set m"
  by (induction m) (auto split: if_splits)

lemma apart_set: "apart m \<Longrightarrow> apart (bucket_set eq v i m)"
proof (induction m)
  case (Cons p m)
  obtain w bs where p: "p = (w, bs)" by (cases p)
  show ?case
  proof (cases "eq w v")
    case True
    then show ?thesis using Cons.prems by (simp add: p apart_def)
  next
    case False
    have "\<not> eq w (fst x)" if "x \<in> set (bucket_set eq v i m)" for x
      using set_bucket_set_fst [OF that] Cons.prems False by (auto simp: p apart_def)
    then show ?thesis using Cons False by (simp add: p apart_def)
  qed
qed (simp add: apart_def)

lemma apart_reset: "apart m \<Longrightarrow> apart (bucket_reset i m)"
  by (simp add: apart_def bucket_reset_def sorted_wrt_map split_def)

lemma any_set:
  "compat c \<Longrightarrow> bucket_any c j (bucket_set eq v i m) \<longleftrightarrow> (j = i \<and> c v) \<or> bucket_any c j m"
proof (induction m)
  case Nil
  then show ?case by (auto simp: bucket_any_def bitset.mem_ins bitset.mem_emp)
next
  case (Cons p m)
  obtain w bs where p: "p = (w, bs)" by (cases p)
  have "eq w v \<Longrightarrow> c w = c v" using Cons.prems by (simp add: compat_def)
  then show ?case using Cons by (auto simp: p bucket_any_def bitset.mem_ins)
qed

lemma contains_any: "apart m \<Longrightarrow> bucket_contains eq v i m \<longleftrightarrow> bucket_any (\<lambda>w. eq w v) i m"
proof (induction m)
  case (Cons p m)
  obtain w bs where p: "p = (w, bs)" by (cases p)
  show ?case
  proof (cases "eq w v")
    case True
    have "\<not> eq u v" if "(u, cs) \<in> set m" for u cs
    proof
      assume "eq u v"
      then have "eq w u" using True eq_sym eq_trans by blast
      then show False using Cons.prems that by (auto simp: p apart_def)
    qed
    then have "\<not> bucket_any (\<lambda>w. eq w v) i m" by (auto simp: bucket_any_def list_ex_iff)
    then show ?thesis using True by (simp add: p bucket_contains_def bucket_any_def)
  next
    case False
    then show ?thesis using Cons by (simp add: p bucket_contains_def bucket_any_def apart_def)
  qed
qed (simp add: bucket_contains_def bucket_any_def)

end

lemma any_reset: "bucket_any c j (bucket_reset i m) \<longleftrightarrow> j \<noteq> i \<and> bucket_any c j m"
  by (induction m) (auto simp: bucket_any_def bucket_reset_def bitset.mem_rem)

interpretation plain_table: key_eq "(=)"
  by unfold_locales auto

interpretation dbl_table: key_eq dbl_eq
  by unfold_locales (auto simp: dbl_cmp_def)

section \<open>Conditions on scalar values\<close>

text \<open>A condition on values, and whether an id has a value in a field that satisfies it.\<close>

definition cond_ok :: "(scalar_value \<Rightarrow> bool) \<Rightarrow> bool" where
  "cond_ok C \<longleftrightarrow> (\<forall>a b. dbl_eq a b \<longrightarrow> C (VDouble a) = C (VDouble b))"

definition field_any :: "(scalar_value \<Rightarrow> bool) \<Rightarrow> u64 \<Rightarrow> field_index \<Rightarrow> bool" where
  "field_any C i f \<longleftrightarrow> bucket_any (\<lambda>v. C (VInt v)) i (fi_ints f) \<or>
     bucket_any (\<lambda>v. C (VDouble v)) i (fi_doubles f) \<or> bucket_any (\<lambda>v. C (VStr v)) i (fi_strs f)"

definition field_inv :: "field_index \<Rightarrow> bool" where
  "field_inv f \<longleftrightarrow> plain_table.apart (fi_ints f) \<and> dbl_table.apart (fi_doubles f) \<and> plain_table.apart (fi_strs f)"

lemma field_inv_simps [simp]:
  "field_inv empty_field"
  "field_inv f \<Longrightarrow> field_inv (field_remove i f)"
  "field_inv f \<Longrightarrow> field_inv (field_add i v f)"
    apply (simp add: field_inv_def empty_field_def plain_table.apart_def dbl_table.apart_def)
   apply (simp add: field_inv_def field_remove_def plain_table.apart_reset dbl_table.apart_reset)
  apply (cases v; simp add: field_inv_def plain_table.apart_set dbl_table.apart_set)
  done

lemma field_any_empty [simp]: "\<not> field_any C i empty_field"
  by (simp add: field_any_def empty_field_def bucket_any_def)

lemma field_any_add:
  assumes "cond_ok C"
  shows "field_any C j (field_add i v f) \<longleftrightarrow> (j = i \<and> C v) \<or> field_any C j f"
proof -
  have "dbl_table.compat (\<lambda>v. C (VDouble v))" using assms by (simp add: cond_ok_def dbl_table.compat_def)
  then show ?thesis
    by (cases v) (auto simp: field_any_def plain_table.any_set dbl_table.any_set plain_table.compat_def)
qed

lemma field_any_remove: "field_any C j (field_remove i f) \<longleftrightarrow> j \<noteq> i \<and> field_any C j f"
  by (auto simp: field_any_def field_remove_def any_reset)

text \<open>Equality and order of scalar values, as the filter expressions mean them.\<close>

fun veq :: "scalar_value \<Rightarrow> scalar_value \<Rightarrow> bool" where
  "veq (VInt a) (VInt b) = (a = b)"
| "veq (VDouble a) (VDouble b) = dbl_eq a b"
| "veq (VStr a) (VStr b) = (a = b)"
| "veq _ _ = False"

fun vrange :: "filter_op \<Rightarrow> scalar_value \<Rightarrow> scalar_value \<Rightarrow> bool" where
  "vrange op (VInt a) (VInt b) = int64_cmp (range_cmp op) a b"
| "vrange op (VDouble a) (VDouble b) = dbl_cmp (range_cmp op) a b"
| "vrange op _ _ = False"

lemma cond_ok_veq: "cond_ok (\<lambda>w. veq w v)"
  by (cases v) (auto simp: cond_ok_def dbl_cmp_def)

lemma cond_ok_vrange: "cond_ok (\<lambda>w. vrange op w v)"
  by (cases v) (auto simp: cond_ok_def dbl_cmp_def)

lemma bucket_any_False [simp]: "\<not> bucket_any (\<lambda>v. False) i m"
  by (induction m) (auto simp: bucket_any_def)

lemma value_contains_any: "field_inv f \<Longrightarrow> value_contains f v i \<longleftrightarrow> field_any (\<lambda>w. veq w v) i f"
  by (cases v) (simp_all add: field_any_def field_inv_def plain_table.contains_any dbl_table.contains_any)

lemma range_matches_any: "range_matches op f v i \<longleftrightarrow> field_any (\<lambda>w. vrange op w v) i f"
  by (cases v) (simp_all add: range_matches_def field_any_def)

section \<open>Reachable indexes\<close>

inductive indexes :: "filter_index \<Rightarrow> (u64 \<rightharpoonup> scalar_field list) \<Rightarrow> bytes set \<Rightarrow> bool" where
  start: "indexes empty_filter Map.empty {}"
| added: "indexes fx cur names \<Longrightarrow>
    indexes (filter_add i ss fx) (cur(i \<mapsto> (case cur i of None \<Rightarrow> [] | Some old \<Rightarrow> old) @ ss)) (names \<union> sf_name ` set ss)"
| removed: "indexes fx cur names \<Longrightarrow> indexes (filter_remove i fx) (cur(i := None)) names"

definition fx_any :: "(scalar_value \<Rightarrow> bool) \<Rightarrow> u64 \<Rightarrow> bytes \<Rightarrow> filter_index \<Rightarrow> bool" where
  "fx_any C i name fx = (case find_field fx name of None \<Rightarrow> False | Some f \<Rightarrow> field_any C i f)"

definition fx_inv :: "filter_index \<Rightarrow> bool" where
  "fx_inv fx \<longleftrightarrow> (\<forall>name f. find_field fx name = Some f \<longrightarrow> field_inv f)"

lemma find_add_scalar:
  "find_field (add_scalar i s fx) name =
    (if name = sf_name s then Some (field_add i (sf_value s) (field_or_new fx name)) else find_field fx name)"
  by (simp add: find_field_def add_scalar_def update_conv')

lemma fx_inv_add_scalar: "fx_inv fx \<Longrightarrow> fx_inv (add_scalar i s fx)"
  by (auto simp: fx_inv_def find_add_scalar field_or_new_def split: option.splits if_splits)

lemma fx_any_add_scalar:
  "cond_ok C \<Longrightarrow> fx_any C j name (add_scalar i s fx) \<longleftrightarrow>
    (j = i \<and> sf_name s = name \<and> C (sf_value s)) \<or> fx_any C j name fx"
  by (auto simp: fx_any_def find_add_scalar field_any_add field_or_new_def split: option.splits)

lemma fold_add_scalar:
  "fx_inv fx \<Longrightarrow> fx_inv (fold (add_scalar i) ss fx)"
  "cond_ok C \<Longrightarrow> fx_any C j name (fold (add_scalar i) ss fx) \<longleftrightarrow>
    (j = i \<and> (\<exists>s \<in> set ss. sf_name s = name \<and> C (sf_value s))) \<or> fx_any C j name fx"
  "has_field (fold (add_scalar i) ss fx) name \<longleftrightarrow> name \<in> sf_name ` set ss \<or> has_field fx name"
  "fx_all (fold (add_scalar i) ss fx) = fx_all fx"
  by (induction ss arbitrary: fx)
     (auto simp: fx_inv_add_scalar fx_any_add_scalar has_field_def find_add_scalar, simp add: add_scalar_def)

lemma find_filter_add:
  "find_field (filter_add i ss fx) = find_field (fold (add_scalar i) ss fx)"
  by (simp add: filter_add_def find_field_def fun_eq_iff Let_def)

lemma find_filter_remove:
  "find_field (filter_remove i fx) name = map_option (field_remove i) (find_field fx name)"
  by (simp add: find_field_def filter_remove_def map_of_map)

lemma indexes_correct:
  assumes "indexes fx cur names"
  shows "fx_inv fx" and "bs_test j (fx_all fx) \<longleftrightarrow> cur j \<noteq> None" and "has_field fx name \<longleftrightarrow> name \<in> names"
    and "cond_ok C \<Longrightarrow> fx_any C j name fx \<longleftrightarrow>
      (\<exists>ss. cur j = Some ss \<and> (\<exists>s \<in> set ss. sf_name s = name \<and> C (sf_value s)))"
  using assms
proof (induction)
  case start
  {
    case 1
    then show ?case by (simp add: fx_inv_def find_field_def empty_filter_def)
  next
    case 2
    then show ?case by (simp add: empty_filter_def bitset.mem_emp)
  next
    case 3
    then show ?case by (simp add: has_field_def find_field_def empty_filter_def)
  next
    case 4
    then show ?case by (simp add: fx_any_def find_field_def empty_filter_def)
  }
next
  case (added fx cur names i ss)
  {
    case 1
    then show ?case using added.IH(1) fold_add_scalar(1) by (simp add: fx_inv_def find_filter_add)
  next
    case 2
    then show ?case
      using added.IH(2) by (simp add: filter_add_def Let_def bitset.mem_ins fold_add_scalar(4))
  next
    case 3
    then show ?case
      using added.IH(3) fold_add_scalar(3) [of i ss fx name] by (auto simp: has_field_def find_filter_add)
  next
    case 4
    have "fx_any C j name (filter_add i ss fx) = fx_any C j name (fold (add_scalar i) ss fx)"
      by (simp add: fx_any_def find_filter_add)
    then show ?case
      using added.IH(4) [OF 4] fold_add_scalar(2) [OF 4, of j name i ss fx] by (cases "cur i") auto
  }
next
  case (removed fx cur names i)
  {
    case 1
    then show ?case using removed.IH(1) by (auto simp: fx_inv_def find_filter_remove)
  next
    case 2
    then show ?case using removed.IH(2) by (simp add: filter_remove_def bitset.mem_rem)
  next
    case 3
    then show ?case using removed.IH(3) by (simp add: has_field_def find_filter_remove)
  next
    case 4
    have "fx_any C j name (filter_remove i fx) \<longleftrightarrow> j \<noteq> i \<and> fx_any C j name fx"
      by (simp add: fx_any_def find_filter_remove field_any_remove split: option.splits)
    then show ?case using removed.IH(4) [OF 4] by auto
  }
qed

section \<open>Filter expressions\<close>

definition sat_clause :: "bytes set \<Rightarrow> scalar_field list option \<Rightarrow> clause \<Rightarrow> bool" where
  "sat_clause names fs c =
     (case fs of
        None \<Rightarrow> False
      | Some ss \<Rightarrow>
          case cl_op c of
            FEq \<Rightarrow> \<exists>s \<in> set ss. sf_name s = cl_field c \<and> veq (sf_value s) (cl_value c)
          | FNe \<Rightarrow> cl_field c \<in> names \<and> \<not> (\<exists>s \<in> set ss. sf_name s = cl_field c \<and> veq (sf_value s) (cl_value c))
          | op \<Rightarrow> \<exists>s \<in> set ss. sf_name s = cl_field c \<and> vrange op (sf_value s) (cl_value c))"

lemma clause_matches_any:
  assumes "fx_inv fx"
  shows "clause_matches fx i c \<longleftrightarrow>
    (case cl_op c of
       FEq \<Rightarrow> fx_any (\<lambda>w. veq w (cl_value c)) i (cl_field c) fx
     | FNe \<Rightarrow> has_field fx (cl_field c) \<and> bs_test i (fx_all fx) \<and> \<not> fx_any (\<lambda>w. veq w (cl_value c)) i (cl_field c) fx
     | op \<Rightarrow> fx_any (\<lambda>w. vrange op w (cl_value c)) i (cl_field c) fx)"
  using assms
  by (cases "find_field fx (cl_field c)"; cases "cl_op c")
     (simp_all add: clause_matches_def fx_any_def fx_inv_def has_field_def range_matches_any value_contains_any)

lemma filter_matches_sat:
  assumes "indexes fx cur names"
  shows "filter_matches fx i expr \<longleftrightarrow> (\<forall>c \<in> set expr. sat_clause names (cur i) c)"
proof -
  note ix = indexes_correct [OF assms]
  have "clause_matches fx i c \<longleftrightarrow> sat_clause names (cur i) c" for c
    by (cases "cl_op c"; cases "cur i")
       (simp_all add: clause_matches_any [OF ix(1)] sat_clause_def ix(2,3) ix(4) [OF cond_ok_veq] ix(4) [OF cond_ok_vrange])
  then show ?thesis by (simp add: filter_matches_def list_all_iff)
qed

text \<open>
  C21: filters mean what they say. In every state that additions and removals of ids lead to, an
  id matches a filter expression exactly when its scalar fields satisfy every clause: an
  equality or range clause needs a field of that name and type with such a value, where
  integers compare as signed 64-bit numbers and doubles as IEEE numbers; a \<open>!=\<close> clause needs
  a present id, a field name seen by the index, and no equal value.
\<close>

theorem filter_matches_semantics:
  assumes "indexes fx cur names"
  shows "filter_matches fx i expr \<longleftrightarrow> (\<forall>c \<in> set expr. sat_clause names (cur i) c)"
  by (rule filter_matches_sat [OF assms])

lemma indexes_two:
  "indexes (filter_add 9 [b] (filter_add 7 [a] empty_filter)) [7 \<mapsto> [a], 9 \<mapsto> [b]] {sf_name a, sf_name b}"
proof -
  have "indexes (filter_add 7 [a] empty_filter) [7 \<mapsto> [a]] {sf_name a}"
    using indexes.added [OF indexes.start, of 7 "[a]"] by simp
  then show ?thesis using indexes.added [of _ _ _ 9 "[b]"] by (fastforce simp: insert_commute)
qed

theorem filter_matches_semantics_witness:
  "filter_matches (filter_add 9 [\<lparr>sf_name = [98], sf_value = VInt (-3)\<rparr>]
      (filter_add 7 [\<lparr>sf_name = [97], sf_value = VInt 5\<rparr>] empty_filter)) 9
     [\<lparr>cl_field = [98], cl_op = FLt, cl_value = VInt 0\<rparr>]"
  using filter_matches_semantics [OF indexes_two [of "\<lparr>sf_name = [98], sf_value = VInt (-3)\<rparr>"
      "\<lparr>sf_name = [97], sf_value = VInt 5\<rparr>"], of 9 "[\<lparr>cl_field = [98], cl_op = FLt, cl_value = VInt 0\<rparr>]"]
  by (simp add: sat_clause_def int64_cmp_def)

text \<open>
  \<open>!=\<close> does not need the field. An id that is present but has no field of the given name
  satisfies a \<open>!=\<close> clause on it as soon as the name is known to the index, although the
  comment in the code demands that the field be set.
\<close>

theorem ne_matches_without_field:
  assumes "indexes fx cur names" and "cur i = Some ss" and "cl_field c \<in> names" and "cl_op c = FNe"
    and "\<forall>s \<in> set ss. sf_name s \<noteq> cl_field c"
  shows "filter_matches fx i [c]"
proof -
  note ix = indexes_correct [OF assms(1)]
  have "\<not> fx_any (\<lambda>w. veq w (cl_value c)) i (cl_field c) fx"
    using assms(2,5) by (simp add: ix(4) [OF cond_ok_veq])
  then show ?thesis
    using assms(2-4) ix(2,3) by (simp add: filter_matches_def clause_matches_any [OF ix(1)])
qed

theorem ne_matches_without_field_witness:
  "filter_matches (filter_add 9 [\<lparr>sf_name = [98], sf_value = VInt 1\<rparr>]
      (filter_add 7 [\<lparr>sf_name = [97], sf_value = VInt 5\<rparr>] empty_filter)) 9
     [\<lparr>cl_field = [97], cl_op = FNe, cl_value = VInt 0\<rparr>]"
  by (rule ne_matches_without_field [OF indexes_two, where ss = "[\<lparr>sf_name = [98], sf_value = VInt 1\<rparr>]"]) simp_all

text \<open>
  adding does not replace. A second addition for an id keeps its earlier values: the id
  then satisfies an equality clause for the old value and one for the new value of the field.
\<close>

theorem add_keeps_old_values:
  assumes "indexes fx cur names" and "cur i = Some old" and "\<lparr>sf_name = name, sf_value = v\<rparr> \<in> set old"
    and "veq v v" and "veq w w"
  shows "filter_matches (filter_add i [\<lparr>sf_name = name, sf_value = w\<rparr>] fx) i
    [\<lparr>cl_field = name, cl_op = FEq, cl_value = v\<rparr>, \<lparr>cl_field = name, cl_op = FEq, cl_value = w\<rparr>]"
proof -
  note ix = indexes_correct [OF indexes.added [OF assms(1), of i "[\<lparr>sf_name = name, sf_value = w\<rparr>]"]]
  have "fx_any (\<lambda>u. veq u x) i name (filter_add i [\<lparr>sf_name = name, sf_value = w\<rparr>] fx)" if "x = v \<or> x = w" for x
    using that assms(2-5) by (auto simp: ix(4) [OF cond_ok_veq] intro: bexI [OF _ assms(3)])
  then show ?thesis by (simp add: filter_matches_def clause_matches_any [OF ix(1)])
qed

theorem add_keeps_old_values_witness:
  "filter_matches (filter_add 7 [\<lparr>sf_name = [97], sf_value = VInt 6\<rparr>]
      (filter_add 9 [\<lparr>sf_name = [98], sf_value = VInt 1\<rparr>]
        (filter_add 7 [\<lparr>sf_name = [97], sf_value = VInt 5\<rparr>] empty_filter))) 7
    [\<lparr>cl_field = [97], cl_op = FEq, cl_value = VInt 5\<rparr>, \<lparr>cl_field = [97], cl_op = FEq, cl_value = VInt 6\<rparr>]"
  by (rule add_keeps_old_values [OF indexes_two, where old = "[\<lparr>sf_name = [97], sf_value = VInt 5\<rparr>]"]) simp_all

section \<open>Bit sets\<close>

definition bs_apply :: "bool \<times> u64 \<Rightarrow> bitset \<Rightarrow> bitset" where
  "bs_apply p ws = (case p of (on, i) \<Rightarrow> if on then bs_set i ws else bs_reset i ws)"

definition set_apply :: "bool \<times> u64 \<Rightarrow> u64 set \<Rightarrow> u64 set" where
  "set_apply p s = (case p of (on, i) \<Rightarrow> if on then insert i s else s - {i})"

lemma bs_apply_refines:
  "{i. bs_test i ws} = s \<Longrightarrow> {i. bs_test i (bs_apply p ws)} = set_apply p s"
  by (cases p) (auto simp: bs_apply_def set_apply_def bitset.mem_ins bitset.mem_rem)

text \<open>
  the growing bit set is a set of 64-bit ids. After any sequence of insertions and
  removals, starting empty, the membership test answers exactly for the ids in the set that
  the same sequence builds.
\<close>

theorem bitset_refines_set: "{i. bs_test i (fold bs_apply ops [])} = fold set_apply ops {}"
proof -
  have "{i. bs_test i ws} = s \<Longrightarrow> {i. bs_test i (fold bs_apply ops ws)} = fold set_apply ops s" for ws s
    by (induction ops arbitrary: ws s) (simp_all add: bs_apply_refines)
  then show ?thesis by (simp add: bitset.mem_emp)
qed

end
