(* ===== verification/Hnsw_Search.thy ===== *)
theory Hnsw_Search
  imports Hnsw
begin

text \<open>
  What a search of the graph returns, whatever the edges are: live nodes of the layer that pass
  the filter, each once, with their true distances, at most as many as asked for, in order of
  distance. The proofs follow the loop with the invariant \<open>beam_inv\<close>.
\<close>

section \<open>What the library functions promise\<close>

text \<open>
  \<open>std::sort\<close> permutes its input, and if no distance is NaN it leaves no element after a smaller
  one (the comparison is by distance only). With a NaN the comparison is not the strict weak
  ordering that the standard asks for, and nothing is assumed about the order of the result; that
  even then the elements are only moved holds of the implementations, which swap and insert.
\<close>

definition lib_ok :: "hnsw_lib \<Rightarrow> bool" where
  "lib_ok L \<longleftrightarrow> (\<forall>xs. mset (hl_sort L xs) = mset xs) \<and>
     (\<forall>xs. (\<forall>x \<in> set xs. \<not> flt_nan (fst x)) \<longrightarrow> sorted_wrt (\<lambda>a b. \<not> flt_less (fst b) (fst a)) (hl_sort L xs))"

text \<open>The candidate on top of the expansion queue is a nearest one.\<close>

lemma nearest_nonempty:
  assumes "C \<noteq> []"
  shows "nearest C \<noteq> []"
proof -
  obtain c where c: "c \<in> set C" "\<forall>d \<in> set C. \<not> flt_less (fst d) (fst c)"
  proof (cases "\<exists>c \<in> set C. flt_nan (fst c)")
    case True
    then show ?thesis using that by (auto simp: flt_less_def)
  next
    case False
    have "Min ((\<lambda>c. flt_key (fst c)) ` set C) \<in> (\<lambda>c. flt_key (fst c)) ` set C" using assms by (intro Min_in) auto
    then obtain c where "c \<in> set C" "flt_key (fst c) = Min ((\<lambda>c. flt_key (fst c)) ` set C)" by auto
    then show ?thesis using that [of c] by (auto simp: flt_less_def not_less)
  qed
  obtain j where "j < length C" "C ! j = c" using c(1) by (auto simp: in_set_conv_nth)
  then have "j \<in> set (nearest C)" using c(2) by (simp add: nearest_def list_all_iff)
  then show ?thesis by auto
qed

lemma queue_top_nearest: "C \<noteq> [] \<Longrightarrow> c \<in> set C \<Longrightarrow> \<not> flt_less (fst c) (fst (C ! queue_top L C))"
  using nearest_nonempty [of C] hd_in_set [of "nearest C"]
  by (auto simp: queue_top_def Let_def nearest_def list_all_iff)

definition plain_lib :: "(fvec \<Rightarrow> fvec \<Rightarrow> u32) \<Rightarrow> hnsw_lib" where
  "plain_lib dist = \<lparr>hl_dist = dist, hl_top = (\<lambda>C. 0), hl_sort = sort_key (\<lambda>c. flt_key (fst c))\<rparr>"

lemma lib_ok_plain: "lib_ok (plain_lib dist)"
proof -
  have "sorted_wrt (\<lambda>a b. \<not> flt_less (fst b) (fst a)) (sort_key (\<lambda>c. flt_key (fst c)) xs)" for xs :: "cand list"
  proof (rule sorted_wrt_mono_rel)
    show "sorted_wrt (\<lambda>a b. flt_key (fst a) \<le> flt_key (fst b)) (sort_key (\<lambda>c. flt_key (fst c)) xs)"
      using sorted_sort_key [of "\<lambda>c. flt_key (fst c)" xs] by (simp add: sorted_wrt_map)
  qed (auto simp: flt_less_def)
  then show ?thesis by (simp add: lib_ok_def plain_lib_def)
qed

lemma sort_set: "lib_ok L \<Longrightarrow> set (hl_sort L xs) = set xs"
  by (metis lib_ok_def mset_eq_setD)

lemma sort_length: "lib_ok L \<Longrightarrow> length (hl_sort L xs) = length xs"
  by (metis lib_ok_def mset_eq_length)

lemma sort_single: "lib_ok L \<Longrightarrow> hl_sort L [x] = [x]"
  using sort_set [of L "[x]"] sort_length [of L "[x]"] by (cases "hl_sort L [x]") auto

lemma sort_distinct_snd: "lib_ok L \<Longrightarrow> distinct (map snd xs) \<Longrightarrow> distinct (map snd (hl_sort L xs))"
  by (metis lib_ok_def mset_eq_imp_distinct_iff mset_map)

section \<open>The result queue\<close>

lemma result_top_in: "R \<noteq> [] \<Longrightarrow> result_top R \<in> set R"
  by (induction R rule: result_top.induct) (auto simp: Let_def)

lemma result_push_set: "set (result_push ef c R) \<subseteq> insert c (set R)"
  using set_remove1_subset [of "result_top (c # R)" "c # R"] by (auto simp: result_push_def Let_def)

lemma result_push_distinct:
  assumes "distinct (map snd R)" and "snd c \<notin> snd ` set R"
  shows "distinct (map snd (result_push ef c R))"
proof -
  have "distinct (map snd (c # R))" using assms by simp
  moreover have "distinct (map snd (remove1 x (c # R)))" if "distinct (map snd (c # R))" for x
    using that by (metis distinct_map distinct_remove1 inj_on_subset set_remove1_subset)
  ultimately show ?thesis using assms(1) by (auto simp: result_push_def Let_def)
qed

lemma length_remove1_top: "R \<noteq> [] \<Longrightarrow> length (remove1 (result_top R) R) = length R - 1"
  using result_top_in by (simp add: length_remove1)

lemma result_push_length:
  "length R \<le> max ef 1 \<Longrightarrow> length (result_push ef c R) \<le> max ef 1"
  using length_remove1_top [of "c # R"] by (auto simp: result_push_def Let_def)

lemma result_push_nonempty: "0 < ef \<Longrightarrow> R \<noteq> [] \<Longrightarrow> result_push ef c R \<noteq> []"
  using length_remove1_top [of "c # R"] by (auto simp: result_push_def Let_def)

section \<open>The beam invariant\<close>

definition passes :: "(u64 \<Rightarrow> bool) option \<Rightarrow> u64 \<Rightarrow> bool" where
  "passes flt i = (case flt of None \<Rightarrow> True | Some p \<Rightarrow> p i)"

definition hit :: "hnsw_lib \<Rightarrow> node list \<Rightarrow> fvec \<Rightarrow> nat \<Rightarrow> cand \<Rightarrow> bool" where
  "hit L ns q layer c \<longleftrightarrow> snd c < length ns \<and> \<not> n_deleted (ns ! snd c) \<and> layer \<le> n_max_layer (ns ! snd c) \<and>
     fst c = hl_dist L q (n_vec (ns ! snd c))"

fun beam_inv :: "hnsw_lib \<Rightarrow> node list \<Rightarrow> fvec \<Rightarrow> nat \<Rightarrow> nat \<Rightarrow> (u64 \<Rightarrow> bool) option \<Rightarrow> search_state \<Rightarrow> bool" where
  "beam_inv L ns q ef layer flt (vis, C, R) \<longleftrightarrow> length vis = length ns \<and>
     (\<forall>c \<in> set C. hit L ns q layer c) \<and>
     (\<forall>c \<in> set R. hit L ns q layer c \<and> vis ! snd c \<and> passes flt (n_id (ns ! snd c))) \<and>
     distinct (map snd R) \<and> length R \<le> max ef 1 \<and> (flt = None \<longrightarrow> 0 < ef \<longrightarrow> R \<noteq> [])"

lemma mark_keeps: "vis ! k \<Longrightarrow> vis[nb := True] ! k"
  by (cases "nb < length vis") (auto simp: nth_list_update list_update_beyond)

lemma beam_push:
  assumes "beam_inv L ns q ef layer flt (vis, C, R)" and "nb < length ns" and "\<not> vis ! nb"
    and "hit L ns q layer (nd, nb)" and "passes flt (n_id (ns ! nb))" and "set C' \<subseteq> insert (nd, nb) (set C)"
  shows "beam_inv L ns q ef layer flt (vis[nb := True], C', result_push ef (nd, nb) R)"
proof -
  have old: "\<forall>c \<in> set R. hit L ns q layer c \<and> vis ! snd c \<and> passes flt (n_id (ns ! snd c))"
    and len: "length vis = length ns" and dist: "distinct (map snd R)"
    and lr: "length R \<le> max ef 1" and ne: "flt = None \<longrightarrow> 0 < ef \<longrightarrow> R \<noteq> []"
    using assms(1) by auto
  have "snd (nd, nb) \<notin> snd ` set R" using old assms(3) by auto
  then have "distinct (map snd (result_push ef (nd, nb) R))" by (rule result_push_distinct [OF dist])
  moreover have "\<forall>c \<in> set (result_push ef (nd, nb) R).
      hit L ns q layer c \<and> vis[nb := True] ! snd c \<and> passes flt (n_id (ns ! snd c))"
  proof
    fix c assume "c \<in> set (result_push ef (nd, nb) R)"
    then consider "c = (nd, nb)" | "c \<in> set R" using result_push_set [of ef "(nd, nb)" R] by blast
    then show "hit L ns q layer c \<and> vis[nb := True] ! snd c \<and> passes flt (n_id (ns ! snd c))"
      using old assms(2,4,5) len mark_keeps [of vis] by cases auto
  qed
  moreover have "\<forall>c \<in> set C'. hit L ns q layer c" using assms(1,4,6) by auto
  ultimately show ?thesis
    using len result_push_length [OF lr] result_push_nonempty [of ef R] ne by simp
qed

lemma beam_mark:
  assumes "beam_inv L ns q ef layer flt (vis, C, R)" and "set C' \<subseteq> insert c (set C)"
    and "hit L ns q layer c \<or> C' = C"
  shows "beam_inv L ns q ef layer flt (vis[nb := True], C', R)"
proof -
  have "\<forall>c \<in> set C'. hit L ns q layer c" using assms by auto
  then show ?thesis using assms(1) mark_keeps [of vis] by auto
qed

lemma expand_beam:
  "beam_inv L ns q ef layer flt s \<Longrightarrow> beam_inv L ns q ef layer flt (expand L ns q ef layer flt nbs s)"
proof (induction nbs arbitrary: s)
  case (Cons nb nbs)
  obtain vis C R where s: "s = (vis, C, R)" by (cases s)
  note inv = Cons.prems [unfolded s]
  show ?case
  proof (cases "nb \<ge> length vis \<or> vis ! nb")
    case True
    then show ?thesis using Cons.IH [OF inv] by (simp add: s)
  next
    case False
    then have nb: "nb < length ns" "\<not> vis ! nb" using inv by auto
    let ?nd = "hl_dist L q (n_vec (ns ! nb))"
    show ?thesis
    proof (cases "n_deleted (ns ! nb) \<or> layer > n_max_layer (ns ! nb)")
      case True
      then show ?thesis
        using False Cons.IH [OF beam_mark [OF inv, of C undefined nb]] by (auto simp: s Let_def)
    next
      case live: False
      then have h: "hit L ns q layer (?nd, nb)" using nb by (simp add: hit_def)
      let ?C = "if length C < ef \<or> C \<noteq> [] \<and> flt_less ?nd (fst (C ! queue_top L C)) then C @ [(?nd, nb)] else C"
      have C: "set ?C \<subseteq> insert (?nd, nb) (set C)" by auto
      show ?thesis
      proof (cases "passes flt (n_id (ns ! nb))")
        case True
        then show ?thesis
          using False live Cons.IH [OF beam_push [OF inv nb h True C]]
          by (cases flt) (simp_all add: s Let_def passes_def)
      next
        case filtered: False
        have "hit L ns q layer (?nd, nb) \<or> ?C = C" using h by blast
        then show ?thesis
          using False live filtered Cons.IH [OF beam_mark [OF inv C]]
          by (cases flt) (simp_all add: s Let_def passes_def)
      qed
    qed
  qed
qed simp

lemma queue_pop_subset: "set (queue_pop j C) \<subseteq> set C"
  using set_take_subset set_drop_subset by (fastforce simp: queue_pop_def)

lemma beam_pop: "beam_inv L ns q ef layer flt (vis, C, R) \<Longrightarrow> beam_inv L ns q ef layer flt (vis, queue_pop j C, R)"
  using queue_pop_subset [of j C] by auto

lemma layer_loop_step:
  assumes "C \<noteq> []" and "C ! queue_top L C = (cd, ci)"
  shows "layer_loop L ns q ef layer flt (vis, C, R) =
    (if length R \<ge> ef \<and> R \<noteq> [] \<and> flt_less (fst (result_top R)) cd then R
     else if layer > n_max_layer (ns ! ci) then layer_loop L ns q ef layer flt (vis, queue_pop (queue_top L C) C, R)
     else layer_loop L ns q ef layer flt
            (expand L ns q ef layer flt (n_nbrs (ns ! ci) ! layer) (vis, queue_pop (queue_top L C) C, R)))"
  using assms by (subst layer_loop.simps) (simp add: Let_def)

lemma layer_loop_done [simp]: "layer_loop L ns q ef layer flt (vis, [], R) = R"
  by (subst layer_loop.simps) simp

lemma layer_loop_beam:
  "beam_inv L ns q ef layer flt (vis, C, R) \<Longrightarrow>
    \<exists>vis'. beam_inv L ns q ef layer flt (vis', [], layer_loop L ns q ef layer flt (vis, C, R))"
proof (induction "unseen vis + length C" arbitrary: vis C R rule: less_induct)
  case less
  show ?case
  proof (cases "C = []")
    case True
    then show ?thesis using less.prems by auto
  next
    case False
    obtain cd ci where c: "C ! queue_top L C = (cd, ci)" by (cases "C ! queue_top L C")
    let ?D = "queue_pop (queue_top L C) C"
    note pop = beam_pop [OF less.prems, of "queue_top L C"]
    have len: "Suc (length ?D) = length C" by (rule length_queue_pop [OF False])
    obtain vis2 C2 R2 where ex: "expand L ns q ef layer flt (n_nbrs (ns ! ci) ! layer) (vis, ?D, R) = (vis2, C2, R2)"
      by (metis prod_cases3)
    have ex_inv: "beam_inv L ns q ef layer flt (vis2, C2, R2)"
      using expand_beam [OF pop, of "n_nbrs (ns ! ci) ! layer"] ex by simp
    have "\<exists>vis'. beam_inv L ns q ef layer flt (vis', [], layer_loop L ns q ef layer flt (vis, ?D, R))"
      by (rule less.hyps [OF _ pop]) (use len in simp)
    moreover have "\<exists>vis'. beam_inv L ns q ef layer flt (vis', [], layer_loop L ns q ef layer flt (vis2, C2, R2))"
      by (rule less.hyps [OF _ ex_inv]) (use len expand_measure [OF ex] in simp)
    moreover have "\<exists>vis'. beam_inv L ns q ef layer flt (vis', [], R)" using less.prems by auto
    ultimately show ?thesis unfolding layer_loop_step [OF False c] ex by (simp only: split: if_splits) blast
  qed
qed

section \<open>Searching a layer\<close>

lemma search_layer_hits:
  assumes "lib_ok L" and "entry < length ns"
  shows "\<forall>c \<in> set (search_layer L ns q entry ef layer flt). hit L ns q layer c \<and> passes flt (n_id (ns ! snd c))"
    and "distinct (map snd (search_layer L ns q entry ef layer flt))"
    and "length (search_layer L ns q entry ef layer flt) \<le> max ef 1"
    and "\<forall>n \<in> set ns. \<not> n_deleted n \<longrightarrow> \<not> flt_nan (hl_dist L q (n_vec n)) \<Longrightarrow>
      sorted_wrt (\<lambda>a b. \<not> flt_less (fst b) (fst a)) (search_layer L ns q entry ef layer flt)"
    and "\<not> n_deleted (ns ! entry) \<Longrightarrow> layer \<le> n_max_layer (ns ! entry) \<Longrightarrow> flt = None \<Longrightarrow> 0 < ef \<Longrightarrow>
      search_layer L ns q entry ef layer flt \<noteq> []"
proof -
  let ?e = "ns ! entry" and ?de = "hl_dist L q (n_vec (ns ! entry))"
  let ?R = "case flt of None \<Rightarrow> [(?de, entry)] | Some p \<Rightarrow> if p (n_id ?e) then [(?de, entry)] else []"
  let ?vis = "(replicate (length ns) False)[entry := True]"
  let ?r = "layer_loop L ns q ef layer flt (?vis, [(?de, entry)], ?R)"
  have sl: "search_layer L ns q entry ef layer flt = (if n_deleted ?e \<or> layer > n_max_layer ?e then [] else hl_sort L ?r)"
    by (simp add: search_layer_def Let_def)
  have res: "\<exists>vis'. beam_inv L ns q ef layer flt (vis', [], ?r)" if "\<not> (n_deleted ?e \<or> layer > n_max_layer ?e)"
    by (rule layer_loop_beam) (use that assms(2) in \<open>auto simp: hit_def passes_def split: option.splits\<close>)
  show "\<forall>c \<in> set (search_layer L ns q entry ef layer flt). hit L ns q layer c \<and> passes flt (n_id (ns ! snd c))"
    using res unfolding sl by (auto simp: sort_set [OF assms(1)])
  show "distinct (map snd (search_layer L ns q entry ef layer flt))"
    using res unfolding sl by (auto simp: sort_distinct_snd [OF assms(1)])
  show "length (search_layer L ns q entry ef layer flt) \<le> max ef 1"
    using res unfolding sl by (auto simp: sort_length [OF assms(1)])
  show "sorted_wrt (\<lambda>a b. \<not> flt_less (fst b) (fst a)) (search_layer L ns q entry ef layer flt)"
    if nan: "\<forall>n \<in> set ns. \<not> n_deleted n \<longrightarrow> \<not> flt_nan (hl_dist L q (n_vec n))"
  proof (cases "n_deleted ?e \<or> layer > n_max_layer ?e")
    case False
    have "\<forall>c \<in> set ?r. hit L ns q layer c" using res [OF False] by auto
    then have "\<forall>c \<in> set ?r. \<not> flt_nan (fst c)" using nan by (auto simp: hit_def)
    then show ?thesis using assms(1) False unfolding sl by (simp add: lib_ok_def)
  qed (simp add: sl)
  show "search_layer L ns q entry ef layer flt \<noteq> []"
    if "\<not> n_deleted ?e" "layer \<le> n_max_layer ?e" "flt = None" "0 < ef"
    using res that sort_length [OF assms(1), of ?r] unfolding sl by auto
qed

definition live_at :: "node list \<Rightarrow> nat \<Rightarrow> bool" where
  "live_at ns c \<longleftrightarrow> c < length ns \<and> \<not> n_deleted (ns ! c)"

lemma descend_live:
  "lib_ok L \<Longrightarrow> live_at ns ep \<Longrightarrow> live_at ns (descend L ns q flt ls ep)"
proof (induction ls arbitrary: ep)
  case (Cons l ls)
  let ?res = "search_layer L ns q ep 1 l flt"
  have "live_at ns (snd (hd ?res))" if "?res \<noteq> []"
    using search_layer_hits(1) [OF Cons.prems(1), of ep ns q 1 l flt] Cons.prems(2) hd_in_set [OF that]
    by (auto simp: live_at_def hit_def)
  then show ?case using Cons by (simp add: Let_def)
qed simp

end
