(* ===== verification/Hnsw_Graph.thy ===== *)
theory Hnsw_Graph
  imports Hnsw_Search
begin

text \<open>
  The shape of the graph. \<open>lists_ok F X ns\<close> says that every node has one neighbour list per
  layer and that each list outside the exceptions \<open>X\<close> satisfies \<open>F\<close>. With it the wiring
  operations are shown to keep two properties: lists hold distinct, existing nodes other than
  their owner, and no list is longer than the cap of its layer. None of them touches the ids,
  vectors, levels and tombstones of the nodes.
\<close>

section \<open>Data that wiring leaves alone\<close>

definition node_data :: "node \<Rightarrow> u64 \<times> fvec \<times> nat \<times> bool" where
  "node_data n = (n_id n, n_vec n, n_max_layer n, n_deleted n)"

definition same_data :: "node list \<Rightarrow> node list \<Rightarrow> bool" where
  "same_data ns ns' \<longleftrightarrow> map node_data ns' = map node_data ns"

lemma same_data_refl [simp]: "same_data ns ns"
  by (simp add: same_data_def)

lemma same_data_trans: "same_data a b \<Longrightarrow> same_data b c \<Longrightarrow> same_data a c"
  by (simp add: same_data_def)

lemma same_data_length: "same_data ns ns' \<Longrightarrow> length ns' = length ns"
  by (metis length_map same_data_def)

lemma same_data_nth:
  assumes "same_data ns ns'" and "i < length ns"
  shows "n_id (ns' ! i) = n_id (ns ! i)" and "n_vec (ns' ! i) = n_vec (ns ! i)"
    and "n_max_layer (ns' ! i) = n_max_layer (ns ! i)" and "n_deleted (ns' ! i) = n_deleted (ns ! i)"
proof -
  have "node_data (ns' ! i) = map node_data ns' ! i"
    using assms(2) same_data_length [OF assms(1)] by simp
  also have "\<dots> = map node_data ns ! i" using assms(1) by (simp only: same_data_def)
  finally have "node_data (ns' ! i) = node_data (ns ! i)" using assms(2) by simp
  then show "n_id (ns' ! i) = n_id (ns ! i)" "n_vec (ns' ! i) = n_vec (ns ! i)"
    "n_max_layer (ns' ! i) = n_max_layer (ns ! i)" "n_deleted (ns' ! i) = n_deleted (ns ! i)"
    by (simp_all add: node_data_def)
qed

lemma same_data_live: "same_data ns ns' \<Longrightarrow> live_at ns' c \<longleftrightarrow> live_at ns c"
  using same_data_length same_data_nth(4) by (auto simp: live_at_def)

section \<open>Neighbour lists\<close>

definition lists_ok :: "(nat \<Rightarrow> nat \<Rightarrow> nat list \<Rightarrow> bool) \<Rightarrow> (nat \<times> nat) set \<Rightarrow> node list \<Rightarrow> bool" where
  "lists_ok F X ns \<longleftrightarrow> (\<forall>i < length ns. length (n_nbrs (ns ! i)) = Suc (n_max_layer (ns ! i)) \<and>
     (\<forall>l \<le> n_max_layer (ns ! i). (i, l) \<notin> X \<longrightarrow> F i l (n_nbrs (ns ! i) ! l)))"

lemma lists_okD:
  "lists_ok F X ns \<Longrightarrow> i < length ns \<Longrightarrow> l \<le> n_max_layer (ns ! i) \<Longrightarrow> (i, l) \<notin> X \<Longrightarrow> F i l (n_nbrs (ns ! i) ! l)"
  by (simp add: lists_ok_def)

lemma set_nbrs_data: "same_data ns (set_nbrs ns i l xs)"
  unfolding same_data_def set_nbrs_def
  by (cases "i < length ns") (auto simp: map_update node_data_def list_update_id intro!: nth_equalityI simp: nth_list_update)

lemma set_nbrs_length [simp]: "length (set_nbrs ns i l xs) = length ns"
  by (simp add: set_nbrs_def)

lemma set_nbrs_nth:
  "i < length ns \<Longrightarrow> set_nbrs ns i l xs ! j =
    (if j = i then (ns ! i)\<lparr>n_nbrs := (n_nbrs (ns ! i))[l := xs]\<rparr> else ns ! j)"
  by (simp add: set_nbrs_def nth_list_update)

lemma set_nbrs_lists:
  assumes "lists_ok F X ns" and "i < length ns" and "(i, l) \<notin> Y \<Longrightarrow> F i l xs" and "X \<subseteq> insert (i, l) Y"
  shows "lists_ok F Y (set_nbrs ns i l xs)"
proof -
  have "F i la ((n_nbrs (ns ! i))[l := xs] ! la)" if "la \<le> n_max_layer (ns ! i)" "(i, la) \<notin> Y" for la
    using that assms by (cases "la = l") (auto simp: lists_ok_def nth_list_update)
  then show ?thesis using assms(1,2,4) by (auto simp: lists_ok_def set_nbrs_nth)
qed

definition nbr_list :: "nat \<Rightarrow> nat \<Rightarrow> nat list \<Rightarrow> bool" where
  "nbr_list n i xs \<longleftrightarrow> distinct xs \<and> i \<notin> set xs \<and> (\<forall>x \<in> set xs. x < n)"

definition well_linked :: "node list \<Rightarrow> bool" where
  "well_linked ns \<longleftrightarrow> lists_ok (\<lambda>i l. nbr_list (length ns) i) {} ns"

definition capped :: "nat \<Rightarrow> (nat \<times> nat) set \<Rightarrow> node list \<Rightarrow> bool" where
  "capped M X ns \<longleftrightarrow> lists_ok (\<lambda>i l xs. length xs \<le> layer_cap M l) X ns"

lemma well_linkedD:
  "well_linked ns \<Longrightarrow> i < length ns \<Longrightarrow> l \<le> n_max_layer (ns ! i) \<Longrightarrow> nbr_list (length ns) i (n_nbrs (ns ! i) ! l)"
  by (simp add: well_linked_def lists_ok_def)

lemma set_nbrs_linked:
  "well_linked ns \<Longrightarrow> i < length ns \<Longrightarrow> nbr_list (length ns) i xs \<Longrightarrow> well_linked (set_nbrs ns i l xs)"
  unfolding well_linked_def set_nbrs_length by (rule set_nbrs_lists) auto

section \<open>Selecting and pruning\<close>

lemma select_loop_props:
  assumes "length sel \<le> m" and "distinct (sel @ map snd cs)"
  shows "length (select_loop L ns m cs sel) \<le> m \<and> distinct (select_loop L ns m cs sel) \<and>
    set (select_loop L ns m cs sel) \<subseteq> set sel \<union> snd ` set cs"
  using assms
proof (induction L ns m cs sel rule: select_loop.induct)
  case (2 L ns m dc c cs sel)
  show ?case
  proof (cases "length sel \<ge> m")
    case True
    then show ?thesis using "2.prems" by auto
  next
    case False
    show ?thesis
    proof (cases "list_ex (\<lambda>s. flt_less (hl_dist L (n_vec (ns ! c)) (n_vec (ns ! s))) dc) sel")
      case True
      then show ?thesis using False "2.prems" "2.IH"(1) [OF False True] by auto
    next
      case far: False
      then show ?thesis using False "2.prems" "2.IH"(2) [OF False far] by auto
    qed
  qed
qed auto

lemma select_neighbors_props:
  assumes "distinct (map snd cs)"
  shows "length (select_neighbors_heuristic L ns cs m) \<le> m" and "distinct (select_neighbors_heuristic L ns cs m)"
    and "set (select_neighbors_heuristic L ns cs m) \<subseteq> snd ` set cs"
proof -
  let ?t = "take (min (length cs) (2 * m)) cs"
  have "distinct ([] @ map snd ?t)" using assms by (simp add: take_map [symmetric])
  from select_loop_props [of "[]" m ?t L ns, OF _ this] image_mono [OF set_take_subset [of "min (length cs) (2 * m)" cs], of snd]
  show "length (select_neighbors_heuristic L ns cs m) \<le> m" "distinct (select_neighbors_heuristic L ns cs m)"
    "set (select_neighbors_heuristic L ns cs m) \<subseteq> snd ` set cs"
    by (auto simp: select_neighbors_heuristic_def)
qed

lemma prune_select:
  assumes "lib_ok L" and "well_linked ns" and "c < length ns" and "l \<le> n_max_layer (ns ! c)"
  obtains sel where "prune_neighbors L c l m ns = set_nbrs ns c l sel" and "length sel \<le> m" and "nbr_list (length ns) c sel"
proof -
  let ?conn = "n_nbrs (ns ! c) ! l"
  let ?ord = "hl_sort L (map (\<lambda>x. (hl_dist L (n_vec (ns ! c)) (n_vec (ns ! x)), x)) ?conn)"
  have conn: "nbr_list (length ns) c ?conn" by (rule well_linkedD [OF assms(2-4)])
  have "distinct (map snd ?ord)"
    by (rule sort_distinct_snd [OF assms(1)]) (use conn in \<open>simp add: nbr_list_def comp_def\<close>)
  note sel = select_neighbors_props [OF this, of L ns m]
  have "snd ` set ?ord = set ?conn" by (simp add: sort_set [OF assms(1)] image_image)
  then have "nbr_list (length ns) c (select_neighbors_heuristic L ns ?ord m)"
    using sel(2,3) conn by (auto simp: nbr_list_def)
  then show ?thesis using sel(1) by (intro that) (simp_all add: prune_neighbors_def Let_def)
qed

lemma prune_ok:
  assumes "lib_ok L" and "well_linked ns" and "c < length ns" and "l \<le> n_max_layer (ns ! c)"
  shows "well_linked (prune_neighbors L c l m ns)" and "same_data ns (prune_neighbors L c l m ns)"
    and "m = layer_cap M l \<Longrightarrow> capped M X ns \<Longrightarrow> capped M (X - {(c, l)}) (prune_neighbors L c l m ns)"
proof -
  obtain sel where p: "prune_neighbors L c l m ns = set_nbrs ns c l sel" "length sel \<le> m" "nbr_list (length ns) c sel"
    by (rule prune_select [OF assms])
  show "well_linked (prune_neighbors L c l m ns)" using assms(2,3) p by (simp add: set_nbrs_linked)
  show "same_data ns (prune_neighbors L c l m ns)" by (simp add: p set_nbrs_data)
  show "capped M (X - {(c, l)}) (prune_neighbors L c l m ns)" if "m = layer_cap M l" "capped M X ns"
    using that assms(3) p(1,2) unfolding capped_def p(1) by (intro set_nbrs_lists [of _ X]) auto
qed

section \<open>Connecting\<close>

lemma add_edge_ok: "nbr_list n i xs \<Longrightarrow> b < n \<Longrightarrow> b \<noteq> i \<Longrightarrow> nbr_list n i (add_edge b xs)"
  by (auto simp: nbr_list_def add_edge_def)

lemma connect_ok:
  assumes "lib_ok L" and "well_linked ns" and "capped M {} ns" and "a < length ns" and "b < length ns"
    and "m = layer_cap M l"
  shows "well_linked (connect_bidirectional L a b l m ns)" and "capped M {} (connect_bidirectional L a b l m ns)"
    and "same_data ns (connect_bidirectional L a b l m ns)"
proof -
  let ?r = "connect_bidirectional L a b l m ns"
  have "well_linked ?r \<and> capped M {} ?r \<and> same_data ns ?r"
  proof (cases "a = b \<or> l > n_max_layer (ns ! a) \<or> l > n_max_layer (ns ! b)")
    case True
    then show ?thesis using assms by (auto simp: connect_bidirectional_def)
  next
    case False
    then have ab: "a \<noteq> b" "l \<le> n_max_layer (ns ! a)" "l \<le> n_max_layer (ns ! b)" by auto
    let ?na = "add_edge b (n_nbrs (ns ! a) ! l)" and ?nb = "add_edge a (n_nbrs (ns ! b) ! l)"
    let ?X = "(if length ?na > m then {(a, l)} else {})" and ?Y = "(if length ?nb > m then {(b, l)} else {})"
    define ns1 where "ns1 = set_nbrs ns a l ?na"
    define ns2 where "ns2 = set_nbrs ns1 b l ?nb"
    define ns3 where "ns3 = (if length ?na > m then prune_neighbors L a l m ns2 else ns2)"
    have na: "nbr_list (length ns) a ?na" "nbr_list (length ns) b ?nb"
      using well_linkedD [OF assms(2)] assms(4,5) ab by (auto intro: add_edge_ok)
    have wl1: "well_linked ns1" using assms(2,4) na(1) by (simp add: ns1_def set_nbrs_linked)
    have wl2: "well_linked ns2" using wl1 assms(5) na(2) by (simp add: ns2_def ns1_def set_nbrs_linked)
    have "capped M ?X ns1"
      using assms(3,4,6) unfolding capped_def ns1_def
      by (intro set_nbrs_lists [of _ "{}"]) (auto split: if_splits)
    then have cap2: "capped M (?X \<union> ?Y) ns2"
      using assms(5,6) unfolding capped_def ns2_def by (intro set_nbrs_lists [of _ ?X]) (auto simp: ns1_def split: if_splits)
    have data2: "same_data ns ns2"
      unfolding ns2_def ns1_def by (metis same_data_trans set_nbrs_data)
    have len2: "length ns2 = length ns" and lay2: "l \<le> n_max_layer (ns2 ! a)" "l \<le> n_max_layer (ns2 ! b)"
      using same_data_length [OF data2] same_data_nth(3) [OF data2] assms(4,5) ab by auto
    note p2 = prune_ok [OF assms(1) wl2, of a l m, unfolded len2, OF assms(4) lay2(1)]
    have wl3: "well_linked ns3" and data3: "same_data ns2 ns3" using p2(1,2) wl2 by (auto simp: ns3_def)
    have cap3: "capped M ?Y ns3"
    proof (cases "length ?na > m")
      case True
      have "({(a, l)} \<union> ?Y) - {(a, l)} = ?Y" using ab(1) by auto
      then show ?thesis using True cap2 p2(3) [OF assms(6), of "{(a, l)} \<union> ?Y"] by (simp add: ns3_def)
    qed (use cap2 in \<open>simp add: ns3_def\<close>)
    have len3: "length ns3 = length ns" and lay3: "l \<le> n_max_layer (ns3 ! b)"
      using same_data_length [OF data3] same_data_nth(3) [OF data3] assms(5) lay2 len2 by auto
    note p3 = prune_ok [OF assms(1) wl3, of b l m, unfolded len3, OF assms(5) lay3]
    have r: "?r = (if length ?nb > m then prune_neighbors L b l m ns3 else ns3)"
      using False by (simp add: connect_bidirectional_def Let_def ns3_def ns2_def ns1_def)
    have data: "same_data ns ns3" using data2 data3 by (rule same_data_trans)
    show ?thesis
      using wl3 cap3 data p3(1) p3(3) [OF assms(6), of ?Y] same_data_trans [OF data p3(2)] unfolding r by auto
  qed
  then show "well_linked ?r" "capped M {} ?r" "same_data ns ?r" by auto
qed

lemma fold_connect_ok:
  assumes "lib_ok L" and "m = layer_cap M l"
  shows "well_linked ns \<Longrightarrow> capped M {} ns \<Longrightarrow> a < length ns \<Longrightarrow> \<forall>b \<in> set bs. b < length ns \<Longrightarrow>
    well_linked (fold (\<lambda>b. connect_bidirectional L a b l m) bs ns) \<and>
    capped M {} (fold (\<lambda>b. connect_bidirectional L a b l m) bs ns) \<and>
    same_data ns (fold (\<lambda>b. connect_bidirectional L a b l m) bs ns)"
proof (induction bs arbitrary: ns)
  case (Cons b bs)
  note c = connect_ok [OF assms(1) Cons.prems(1,2,3), of b, OF _ assms(2)]
  have b: "b < length ns" using Cons.prems(4) by simp
  show ?case
    using Cons.IH [OF c(1,2) [OF b]] same_data_length [OF c(3) [OF b]] Cons.prems(3,4) same_data_trans [OF c(3) [OF b]]
    by auto
qed simp

lemma wire_ok:
  assumes "lib_ok L"
  shows "well_linked ns \<Longrightarrow> capped M {} ns \<Longrightarrow> idx < length ns \<Longrightarrow> ep < length ns \<Longrightarrow>
    well_linked (wire L M efc vec idx ls ep ns) \<and> capped M {} (wire L M efc vec idx ls ep ns) \<and>
    same_data ns (wire L M efc vec idx ls ep ns)"
proof (induction ls arbitrary: ep ns)
  case (Cons l ls)
  let ?nbrs = "search_layer L ns vec ep efc l None" and ?m = "layer_cap M l"
  let ?sel = "select_neighbors_heuristic L ns ?nbrs ?m"
  let ?ns = "fold (\<lambda>nb. connect_bidirectional L idx nb l ?m) ?sel ns"
  note hits = search_layer_hits(1,2) [OF assms Cons.prems(4), of vec efc l None]
  have sel: "\<forall>b \<in> set ?sel. b < length ns"
    using select_neighbors_props(3) [OF hits(2), of L ns ?m] hits(1) by (fastforce simp: hit_def)
  have ok: "well_linked ?ns" "capped M {} ?ns" "same_data ns ?ns"
    using fold_connect_ok [OF assms refl Cons.prems(1-3) sel] by auto
  have ep: "(if ?sel \<noteq> [] then hd ?sel else ep) < length ?ns"
    using sel Cons.prems(4) same_data_length [OF ok(3)] by auto
  show ?case
    using Cons.IH [OF ok(1,2) _ ep] Cons.prems(3) same_data_length [OF ok(3)] same_data_trans [OF ok(3)]
    by (simp add: Let_def)
qed simp

end
