(* ===== verification/Hnsw_Correct.thy ===== *)
theory Hnsw_Correct
  imports Hnsw_Graph
begin

text \<open>
  The invariant of the index and the refinement of its writing operations: the index is a map
  from ids to vectors (\<open>vec_of\<close>), which insertion, removal and update change as expected, for
  every distance function, every random level and every order of ties.
\<close>

section \<open>The invariant\<close>

definition hnsw_inv :: "hnsw \<Rightarrow> bool" where
  "hnsw_inv h \<longleftrightarrow> well_linked (h_nodes h) \<and> capped (h_M h) {} (h_nodes h) \<and> distinct (map fst (h_ids h)) \<and>
     (\<forall>i k. map_of (h_ids h) i = Some k \<longleftrightarrow> k < length (h_nodes h) \<and> n_id (h_nodes h ! k) = i) \<and>
     h_active h = length (filter (\<lambda>n. \<not> n_deleted n) (h_nodes h)) \<and>
     (h_entry h < 0 \<longrightarrow> (\<forall>n \<in> set (h_nodes h). n_deleted n)) \<and>
     (0 \<le> h_entry h \<longrightarrow> live_at (h_nodes h) (nat (h_entry h)))"

definition vec_of :: "hnsw \<Rightarrow> u64 \<rightharpoonup> fvec" where
  "vec_of h i = (case map_of (h_ids h) i of
     None \<Rightarrow> None
   | Some k \<Rightarrow> if n_deleted (h_nodes h ! k) then None else Some (n_vec (h_nodes h ! k)))"

lemma hnsw_invD:
  assumes "hnsw_inv h"
  shows "well_linked (h_nodes h)" and "capped (h_M h) {} (h_nodes h)" and "distinct (map fst (h_ids h))"
    and "map_of (h_ids h) i = Some k \<longleftrightarrow> k < length (h_nodes h) \<and> n_id (h_nodes h ! k) = i"
    and "h_active h = length (filter (\<lambda>n. \<not> n_deleted n) (h_nodes h))"
    and "h_entry h < 0 \<Longrightarrow> n \<in> set (h_nodes h) \<Longrightarrow> n_deleted n"
    and "0 \<le> h_entry h \<Longrightarrow> live_at (h_nodes h) (nat (h_entry h))"
  using assms by (auto simp: hnsw_inv_def)

lemma hnsw_inv_new: "hnsw_inv (new_hnsw dim M efc)"
  by (simp add: hnsw_inv_def new_hnsw_def well_linked_def capped_def lists_ok_def)

lemma count_update:
  "i < length xs \<Longrightarrow> length (filter P (xs[i := x])) + (if P (xs ! i) then 1 else 0) =
    length (filter P xs) + (if P x then 1 else 0)"
proof (induction xs arbitrary: i)
  case (Cons y xs)
  then show ?case by (cases i) (auto split: if_splits)
qed simp

lemma same_data_count:
  assumes "same_data ns ns'"
  shows "length (filter (\<lambda>n. \<not> n_deleted n) ns') = length (filter (\<lambda>n. \<not> n_deleted n) ns)"
proof -
  have "length (filter (\<lambda>n. \<not> n_deleted n) xs) = length (filter (\<lambda>t. \<not> snd (snd (snd t))) (map node_data xs))" for xs
    by (simp add: filter_map comp_def node_data_def)
  then show ?thesis using assms by (simp only: same_data_def)
qed

lemma same_data_ids:
  assumes "same_data ns ns'"
  shows "(k < length ns' \<and> n_id (ns' ! k) = i) \<longleftrightarrow> (k < length ns \<and> n_id (ns ! k) = i)"
  using same_data_length [OF assms] same_data_nth(1) [OF assms] by auto

lemma vec_of_same_data:
  assumes "hnsw_inv h" and "same_data (h_nodes h) (h_nodes h')" and "h_ids h' = h_ids h"
  shows "vec_of h' = vec_of h"
proof
  fix i
  show "vec_of h' i = vec_of h i"
  proof (cases "map_of (h_ids h) i")
    case (Some k)
    then have "k < length (h_nodes h)" using hnsw_invD(4) [OF assms(1), of i k] by simp
    then show ?thesis using Some same_data_nth(2,4) [OF assms(2)] by (simp add: vec_of_def assms(3))
  qed (simp add: vec_of_def assms(3))
qed

lemma vec_of_cong: "h_nodes h' = h_nodes h \<Longrightarrow> h_ids h' = h_ids h \<Longrightarrow> vec_of h' = vec_of h"
  by (rule ext) (simp add: vec_of_def split: option.splits)

section \<open>Inserting into the graph\<close>

lemma insert_node_ok:
  assumes "lib_ok L" and "hnsw_inv h" and "0 \<le> h_entry h" and "live_at (h_nodes h) idx"
  shows "hnsw_inv (insert_node L lvl vec idx h)" and "same_data (h_nodes h) (h_nodes (insert_node L lvl vec idx h))"
    and "h_ids (insert_node L lvl vec idx h) = h_ids h" and "h_active (insert_node L lvl vec idx h) = h_active h"
    and "0 \<le> h_entry (insert_node L lvl vec idx h)"
proof -
  note inv = hnsw_invD [OF assms(2)]
  let ?ep = "descend L (h_nodes h) vec None (layers_down (h_max_layer h) (int lvl + 1)) (nat (h_entry h))"
  define ns where "ns = wire L (h_M h) (h_efc h) vec idx (layers_down (min (int lvl) (h_max_layer h)) 0) ?ep (h_nodes h)"
  have "live_at (h_nodes h) ?ep" by (rule descend_live [OF assms(1) inv(7) [OF assms(3)]])
  then have ok: "well_linked ns" "capped (h_M h) {} ns" "same_data (h_nodes h) ns"
    using wire_ok [OF assms(1) inv(1,2)] assms(4) by (auto simp: live_at_def ns_def)
  have ins: "insert_node L lvl vec idx h =
      (if int lvl > h_max_layer h then h\<lparr>h_nodes := ns, h_max_layer := int lvl, h_entry := int idx\<rparr> else h\<lparr>h_nodes := ns\<rparr>)"
    by (simp add: insert_node_def Let_def ns_def)
  show "same_data (h_nodes h) (h_nodes (insert_node L lvl vec idx h))"
    "h_ids (insert_node L lvl vec idx h) = h_ids h" "h_active (insert_node L lvl vec idx h) = h_active h"
    "0 \<le> h_entry (insert_node L lvl vec idx h)"
    using ok(3) assms(3) by (simp_all add: ins)
  show "hnsw_inv (insert_node L lvl vec idx h)"
    using ok inv assms(3,4) same_data_count [OF ok(3)] same_data_ids [OF ok(3)] same_data_live [OF ok(3)]
    by (simp add: ins hnsw_inv_def)
qed

section \<open>Adding\<close>

lemma lists_ok_append:
  assumes "lists_ok F X ns" and "length (n_nbrs n) = Suc (n_max_layer n)" and "\<forall>l \<le> n_max_layer n. F (length ns) l (n_nbrs n ! l)"
  shows "lists_ok F X (ns @ [n])"
  using assms by (auto simp: lists_ok_def nth_append less_Suc_eq)

lemma lists_ok_mono: "lists_ok F X ns \<Longrightarrow> (\<And>i l xs. F i l xs \<Longrightarrow> G i l xs) \<Longrightarrow> lists_ok G X ns"
  by (auto simp: lists_ok_def)

lemma fresh_nbrs: "l \<le> lvl \<Longrightarrow> replicate (Suc lvl) [] ! l = []"
  by (simp del: replicate_Suc)

lemma add_node_inv:
  assumes "hnsw_inv h" and "map_of (h_ids h) i = None"
    and "n = \<lparr>n_id = i, n_vec = vec, n_nbrs = replicate (lvl + 1) [], n_max_layer = lvl, n_deleted = False\<rparr>"
    and "h1 = h\<lparr>h_nodes := h_nodes h @ [n], h_ids := AList.update i (length (h_nodes h)) (h_ids h), h_active := h_active h + 1\<rparr>"
  shows "0 \<le> h_entry h \<Longrightarrow> hnsw_inv h1"
    and "h_entry h < 0 \<Longrightarrow> hnsw_inv (h1\<lparr>h_entry := int (length (h_nodes h)), h_max_layer := int lvl\<rparr>)"
    and "vec_of h1 = (vec_of h)(i \<mapsto> vec)"
proof -
  note inv = hnsw_invD [OF assms(1)]
  have "lists_ok (\<lambda>i l. nbr_list (Suc (length (h_nodes h))) i) {} (h_nodes h)"
    using inv(1) unfolding well_linked_def by (rule lists_ok_mono) (auto simp: nbr_list_def)
  then have wl: "well_linked (h_nodes h @ [n])"
    unfolding well_linked_def length_append_singleton
    by (rule lists_ok_append) (auto simp: assms(3) fresh_nbrs nbr_list_def simp del: replicate_Suc)
  have cap: "capped (h_M h) {} (h_nodes h @ [n])"
    using inv(2) unfolding capped_def
    by (rule lists_ok_append) (auto simp: assms(3) fresh_nbrs simp del: replicate_Suc)
  have new: "n_id (h_nodes h ! k) \<noteq> i" if "k < length (h_nodes h)" for k
    using inv(4) [of i k] assms(2) that by auto
  have ids: "map_of (AList.update i (length (h_nodes h)) (h_ids h)) j = Some k \<longleftrightarrow>
      k < length (h_nodes h @ [n]) \<and> n_id ((h_nodes h @ [n]) ! k) = j" for j k
    using inv(4) [of j k] new by (auto simp: update_conv' nth_append assms(3) less_Suc_eq)
  have live: "live_at (h_nodes h @ [n]) k" if "live_at (h_nodes h) k \<or> k = length (h_nodes h)" for k
    using that by (auto simp: live_at_def nth_append assms(3))
  show "hnsw_inv h1" if "0 \<le> h_entry h"
    using that wl cap ids inv(3,5,7) live by (simp add: assms(4) hnsw_inv_def distinct_update) (simp add: assms(3))
  show "hnsw_inv (h1\<lparr>h_entry := int (length (h_nodes h)), h_max_layer := int lvl\<rparr>)" if "h_entry h < 0"
    using wl cap ids inv(3,5) live by (simp add: assms(4) hnsw_inv_def distinct_update) (simp add: assms(3))
  show "vec_of h1 = (vec_of h)(i \<mapsto> vec)"
  proof
    fix j
    show "vec_of h1 j = ((vec_of h)(i \<mapsto> vec)) j"
    proof (cases "j = i \<or> map_of (h_ids h) j = None")
      case True
      then show ?thesis by (auto simp: vec_of_def assms(3,4) update_conv' nth_append)
    next
      case False
      then obtain k where "map_of (h_ids h) j = Some k" "j \<noteq> i" by auto
      moreover have "k < length (h_nodes h)" using inv(4) [of j k] calculation(1) by simp
      ultimately show ?thesis by (simp add: vec_of_def assms(4) update_conv' nth_append)
    qed
  qed
qed

lemma add_item_ok:
  assumes "lib_ok L" and "hnsw_inv h" and "\<not> hnsw_contains h i"
  obtains h' where "add_item L lvl i vec h = (kOk, h')" and "hnsw_inv h'" and "vec_of h' = (vec_of h)(i \<mapsto> vec)"
    and "h_active h' = h_active h + 1" and "0 \<le> h_entry h'"
proof -
  let ?n = "\<lparr>n_id = i, n_vec = vec, n_nbrs = replicate (lvl + 1) [], n_max_layer = lvl, n_deleted = False\<rparr>"
  let ?h1 = "h\<lparr>h_nodes := h_nodes h @ [?n], h_ids := AList.update i (length (h_nodes h)) (h_ids h), h_active := h_active h + 1\<rparr>"
  have none: "map_of (h_ids h) i = None" using assms(3) by (simp add: hnsw_contains_def)
  note step = add_node_inv [OF assms(2) none refl refl, where vec = vec and lvl = lvl]
  show ?thesis
  proof (cases "h_entry h < 0")
    case True
    let ?h = "?h1\<lparr>h_entry := int (length (h_nodes h)), h_max_layer := int lvl\<rparr>"
    have "vec_of ?h = vec_of ?h1" by (rule vec_of_cong) simp_all
    then show ?thesis
      using True none step(2,3) by (intro that [of ?h]) (simp_all add: add_item_def Let_def)
  next
    case False
    have live: "live_at (h_nodes ?h1) (length (h_nodes h))" by (simp add: live_at_def)
    have inv1: "hnsw_inv ?h1" using False step(1) by simp
    have pos: "0 \<le> h_entry ?h1" using False by simp
    note ins = insert_node_ok [OF assms(1) inv1 pos live, of lvl vec]
    have "vec_of (insert_node L lvl vec (length (h_nodes h)) ?h1) = vec_of ?h1"
      using vec_of_same_data [OF inv1 ins(2,3)] .
    then show ?thesis
      using False none step(3) ins(1,4,5)
      by (intro that [of "insert_node L lvl vec (length (h_nodes h)) ?h1"]) (simp_all add: add_item_def Let_def)
  qed
qed

section \<open>Replacing a node\<close>

text \<open>Setting vector, level and tombstone of one node to new values, with empty lists or its own.\<close>

lemma lists_ok_update:
  assumes "lists_ok F X ns" and "k < length ns" and "length (n_nbrs n) = Suc (n_max_layer n)"
    and "\<forall>l \<le> n_max_layer n. (k, l) \<notin> X \<longrightarrow> F k l (n_nbrs n ! l)"
  shows "lists_ok F X (ns[k := n])"
  using assms by (auto simp: lists_ok_def nth_list_update)

lemma vec_of_update:
  assumes "hnsw_inv h" and "map_of (h_ids h) i = Some k" and "h_nodes h' = (h_nodes h)[k := n]" and "h_ids h' = h_ids h"
  shows "vec_of h' = (vec_of h)(i := if n_deleted n then None else Some (n_vec n))"
proof
  fix j
  have k: "k < length (h_nodes h)" "n_id (h_nodes h ! k) = i" using hnsw_invD(4) [OF assms(1), of i k] assms(2) by auto
  show "vec_of h' j = ((vec_of h)(i := if n_deleted n then None else Some (n_vec n))) j"
  proof (cases "map_of (h_ids h) j")
    case None
    then show ?thesis using assms(2) by (auto simp: vec_of_def assms(4))
  next
    case (Some k')
    then have "n_id (h_nodes h ! k') = j" using hnsw_invD(4) [OF assms(1), of j k'] by simp
    then have "j = i \<longleftrightarrow> k' = k" using Some k(2) assms(2) by (metis option.inject)
    then show ?thesis using Some k(1) by (auto simp: vec_of_def assms(3,4) nth_list_update)
  qed
qed

lemma ids_update:
  assumes "\<forall>i k. map_of ids i = Some k \<longleftrightarrow> k < length ns \<and> n_id (ns ! k) = i" and "k0 < length ns" and "n_id n = n_id (ns ! k0)"
  shows "\<forall>i k. map_of ids i = Some k \<longleftrightarrow> k < length (ns[k0 := n]) \<and> n_id (ns[k0 := n] ! k) = i"
proof (intro allI)
  fix i k
  have "map_of ids i = Some k \<longleftrightarrow> k < length ns \<and> n_id (ns ! k) = i" using assms(1) by blast
  then show "map_of ids i = Some k \<longleftrightarrow> k < length (ns[k0 := n]) \<and> n_id (ns[k0 := n] ! k) = i"
    using assms(2,3) by (cases "k = k0") simp_all
qed

section \<open>Removing\<close>

lemma pick_entry_nonneg: "0 \<le> ep \<Longrightarrow> 0 \<le> fst (pick_entry i ns (ep, mx))"
  by (induction i ns "(ep, mx)" arbitrary: ep mx rule: pick_entry.induct) auto

lemma pick_entry_live:
  "fst (pick_entry i ns (ep, mx)) = ep \<or>
    (\<exists>j < length ns. fst (pick_entry i ns (ep, mx)) = int (i + j) \<and> \<not> n_deleted (ns ! j))"
proof (induction ns arbitrary: i ep mx)
  case (Cons n ns)
  have lift: "fst (pick_entry (Suc i) ns (e, m)) = e \<or>
      (\<exists>j < length (n # ns). fst (pick_entry (Suc i) ns (e, m)) = int (i + j) \<and> \<not> n_deleted ((n # ns) ! j))" for e m
    using Cons.IH [of "Suc i" e m] by (metis Suc_less_eq add_Suc_shift length_Cons nth_Cons_Suc)
  show ?case
  proof (cases "\<not> n_deleted n \<and> (ep < 0 \<or> int (n_max_layer n) > mx)")
    case True
    then show ?thesis using lift [of "int i" "int (n_max_layer n)"]
      by (auto intro: exI [of _ 0])
  next
    case False
    then show ?thesis using lift [of ep mx] by auto
  qed
qed simp

lemma pick_entry_found:
  "\<exists>n \<in> set ns. \<not> n_deleted n \<Longrightarrow> 0 \<le> fst (pick_entry i ns (ep, mx))"
proof (induction ns arbitrary: i ep mx)
  case (Cons n ns)
  show ?case
  proof (cases "n_deleted n")
    case True
    then show ?thesis using Cons by simp
  next
    case False
    then show ?thesis
      using pick_entry_nonneg [of "int i" "Suc i" ns] pick_entry_nonneg [of ep "Suc i" ns mx] by auto
  qed
qed simp

lemma hnsw_remove_ok:
  assumes "hnsw_inv h" and "hnsw_contains h i"
  obtains h' where "hnsw_remove i h = (kOk, h')" and "hnsw_inv h'" and "vec_of h' = (vec_of h)(i := None)"
    and "h_active h' = (if vec_of h i = None then h_active h else h_active h - 1)"
proof -
  note inv = hnsw_invD [OF assms(1)]
  obtain k where k: "map_of (h_ids h) i = Some k" using assms(2) by (auto simp: hnsw_contains_def)
  then have kl: "k < length (h_nodes h)" using inv(4) [of i k] by simp
  show ?thesis
  proof (cases "n_deleted (h_nodes h ! k)")
    case True
    then have "vec_of h i = None" by (simp add: vec_of_def k)
    then show ?thesis using True k assms(1) by (intro that [of h]) (auto simp: hnsw_remove_def)
  next
    case False
    let ?n = "(h_nodes h ! k)\<lparr>n_deleted := True\<rparr>"
    let ?ns = "(h_nodes h)[k := ?n]"
    let ?h1 = "h\<lparr>h_nodes := ?ns, h_active := h_active h - 1\<rparr>"
    have wl: "well_linked ?ns"
      using inv(1) kl unfolding well_linked_def length_list_update
      by (intro lists_ok_update) (auto simp: lists_ok_def)
    have cap: "capped (h_M h) {} ?ns"
      using inv(2) kl unfolding capped_def by (intro lists_ok_update) (auto simp: lists_ok_def)
    have ids: "\<forall>i k'. map_of (h_ids h) i = Some k' \<longleftrightarrow> k' < length ?ns \<and> n_id (?ns ! k') = i"
      by (rule ids_update) (use inv(4) kl in simp_all)
    have act: "h_active h - 1 = length (filter (\<lambda>n. \<not> n_deleted n) ?ns)"
      using count_update [OF kl, of "\<lambda>n. \<not> n_deleted n" ?n] False inv(5) by simp
    have vec: "vec_of h' = (vec_of h)(i := None)" if "h_nodes h' = ?ns" "h_ids h' = h_ids h" for h'
      using vec_of_update [OF assms(1) k that] by simp
    have some: "vec_of h i = Some (n_vec (h_nodes h ! k))" using False by (simp add: vec_of_def k)
    show ?thesis
    proof (cases "h_entry h = int k")
      case True
      obtain ep mx where pe: "pick_entry 0 ?ns (-1, -1) = (ep, mx)" by (cases "pick_entry 0 ?ns (-1, -1)")
      let ?h = "?h1\<lparr>h_entry := ep, h_max_layer := mx\<rparr>"
      have "0 \<le> ep \<longrightarrow> live_at ?ns (nat ep)"
        using pick_entry_live [of 0 ?ns "-1" "-1"] pe by (auto simp: live_at_def)
      moreover have "ep < 0 \<longrightarrow> (\<forall>n \<in> set ?ns. n_deleted n)"
        using pick_entry_found [of ?ns 0 "-1" "-1"] pe by (metis fst_conv linorder_not_less)
      ultimately have "hnsw_inv ?h" using wl cap ids act inv(3) by (simp add: hnsw_inv_def)
      moreover have "hnsw_remove i h = (kOk, ?h)" using k False True pe by (simp add: hnsw_remove_def Let_def)
      ultimately show ?thesis using vec [of ?h] some by (intro that [of ?h]) simp_all
    next
      case other: False
      have "live_at ?ns (nat (h_entry h))" if "0 \<le> h_entry h"
        using inv(7) [OF that] other that by (auto simp: live_at_def nth_list_update)
      moreover have "0 \<le> h_entry h"
        using inv(6) [of "h_nodes h ! k"] False kl by (meson linorder_not_less nth_mem)
      ultimately have "hnsw_inv ?h1" using wl cap ids act inv(3) by (simp add: hnsw_inv_def)
      moreover have "hnsw_remove i h = (kOk, ?h1)" using k False other by (simp add: hnsw_remove_def Let_def)
      ultimately show ?thesis using vec [of ?h1] some by (intro that [of ?h1]) simp_all
    qed
  qed
qed

end
