(* ===== verification/Hnsw_Theorems.thy ===== *)
theory Hnsw_Theorems
  imports Hnsw_Correct
begin

text \<open>
  The index as its callers see it: the states that insertions, removals and updates lead to
  (\<open>hnsw_reaches\<close>), with the map from ids to vectors they represent, and what searches return
  in them. One theorem records a defect: updating the entry point cuts the rest of the graph off.
\<close>

section \<open>Updating\<close>

lemma detach_layer_ok:
  assumes "\<forall>x \<in> set nbs. x < length ns" and "well_linked ns" and "capped M {} ns"
  shows "well_linked (detach_layer idx l nbs ns) \<and> capped M {} (detach_layer idx l nbs ns) \<and>
    same_data ns (detach_layer idx l nbs ns)"
  using assms
proof (induction nbs arbitrary: ns)
  case (Cons nb nbs)
  let ?xs = "filter (\<lambda>x. x \<noteq> idx) (n_nbrs (ns ! nb) ! l)"
  let ?ns = "if l > n_max_layer (ns ! nb) then ns else set_nbrs ns nb l ?xs"
  have nb: "nb < length ns" using Cons.prems(1) by simp
  have one: "well_linked ?ns \<and> capped M {} ?ns \<and> same_data ns ?ns"
  proof (cases "l > n_max_layer (ns ! nb)")
    case False
    then have "nbr_list (length ns) nb ?xs"
      using well_linkedD [OF Cons.prems(2) nb, of l] by (auto simp: nbr_list_def)
    moreover have "length (n_nbrs (ns ! nb) ! l) \<le> layer_cap M l"
      using lists_okD [of _ "{}" ns nb l, OF Cons.prems(3) [unfolded capped_def] nb] False by simp
    then have "length ?xs \<le> layer_cap M l" by (rule order_trans [OF length_filter_le])
    then have "capped M {} (set_nbrs ns nb l ?xs)"
      using Cons.prems(3) nb unfolding capped_def by (intro set_nbrs_lists [of _ "{}"]) simp_all
    ultimately show ?thesis
      using False Cons.prems(2) nb by (simp add: set_nbrs_linked set_nbrs_data)
  qed (use Cons.prems in simp)
  have "\<forall>x \<in> set nbs. x < length ?ns" using Cons.prems(1) by (simp split: if_splits)
  note two = Cons.IH [OF this conjunct1 [OF one] conjunct1 [OF conjunct2 [OF one]]]
  have "detach_layer idx l (nb # nbs) ns = detach_layer idx l nbs ?ns" by (simp add: detach_layer_def)
  moreover have "same_data ns (detach_layer idx l nbs ?ns)"
    using conjunct2 [OF conjunct2 [OF one]] conjunct2 [OF conjunct2 [OF two]] by (rule same_data_trans)
  ultimately show ?case using two by simp
qed (simp add: detach_layer_def)

lemma detach_ok:
  assumes "well_linked ns" and "capped M {} ns" and "idx < length ns"
  shows "well_linked (detach idx ns)" and "capped M {} (detach idx ns)" and "same_data ns (detach idx ns)"
proof -
  let ?old = "ns ! idx"
  have old: "\<forall>x \<in> set (n_nbrs ?old ! l). x < length ns" if "l \<le> n_max_layer ?old" for l
    using well_linkedD [OF assms(1,3) that] by (simp add: nbr_list_def)
  have "well_linked ms \<and> capped M {} ms \<and> same_data ns ms \<Longrightarrow> \<forall>l \<in> set ls. l \<le> n_max_layer ?old \<Longrightarrow>
      well_linked (fold (\<lambda>l. detach_layer idx l (n_nbrs ?old ! l)) ls ms) \<and>
      capped M {} (fold (\<lambda>l. detach_layer idx l (n_nbrs ?old ! l)) ls ms) \<and>
      same_data ns (fold (\<lambda>l. detach_layer idx l (n_nbrs ?old ! l)) ls ms)" for ms ls
  proof (induction ls arbitrary: ms)
    case (Cons l ls)
    have len: "\<forall>x \<in> set (n_nbrs ?old ! l). x < length ms"
      using old [of l] Cons.prems same_data_length [of ns ms] by simp
    have "well_linked ms" "capped M {} ms" "same_data ns ms" using Cons.prems(1) by auto
    with detach_layer_ok [OF len] show ?case
      using Cons.IH [of "detach_layer idx l (n_nbrs ?old ! l) ms"] Cons.prems(2) same_data_trans by auto
  qed simp
  from this [of ns "[0..<n_max_layer ?old + 1]"] assms(1,2)
  show "well_linked (detach idx ns)" "capped M {} (detach idx ns)" "same_data ns (detach idx ns)"
    by (auto simp: detach_def Let_def simp del: upt_Suc)
qed

text \<open>The node that replaces the old one, before it is wired into the graph.\<close>

definition updated :: "nat \<Rightarrow> fvec \<Rightarrow> nat \<Rightarrow> hnsw \<Rightarrow> hnsw" where
  "updated lvl vec idx h =
     (let ns = detach idx (h_nodes h);
          n = (ns ! idx)\<lparr>n_vec := vec, n_deleted := False, n_max_layer := lvl, n_nbrs := replicate (lvl + 1) []\<rparr>
      in h\<lparr>h_nodes := ns[idx := n], h_active := h_active h + (if n_deleted (ns ! idx) then 1 else 0)\<rparr>)"

lemma updated_ok:
  assumes "hnsw_inv h" and "map_of (h_ids h) i = Some idx"
  shows "0 \<le> h_entry h \<Longrightarrow> hnsw_inv (updated lvl vec idx h)"
    and "h_entry h < 0 \<Longrightarrow> hnsw_inv ((updated lvl vec idx h)\<lparr>h_entry := int idx, h_max_layer := int lvl\<rparr>)"
    and "vec_of (updated lvl vec idx h) = (vec_of h)(i \<mapsto> vec)"
    and "h_active (updated lvl vec idx h) = h_active h + (if vec_of h i = None then 1 else 0)"
    and "live_at (h_nodes (updated lvl vec idx h)) idx"
proof -
  note inv = hnsw_invD [OF assms(1)]
  have idx: "idx < length (h_nodes h)" using inv(4) [of i idx] assms(2) by simp
  note det = detach_ok [OF inv(1,2) idx]
  define ns where "ns = detach idx (h_nodes h)"
  define n where "n = (ns ! idx)\<lparr>n_vec := vec, n_deleted := False, n_max_layer := lvl, n_nbrs := replicate (lvl + 1) []\<rparr>"
  let ?h = "updated lvl vec idx h"
  have len: "length ns = length (h_nodes h)" using same_data_length [OF det(3)] by (simp add: ns_def)
  have idx': "idx < length ns" using idx len by simp
  have up: "?h = h\<lparr>h_nodes := ns[idx := n], h_active := h_active h + (if n_deleted (ns ! idx) then 1 else 0)\<rparr>"
    by (simp add: updated_def ns_def n_def Let_def)
  have nb: "n_nbrs n = replicate (Suc lvl) []" "n_max_layer n = lvl" "n_deleted n = False" "n_vec n = vec" "n_id n = n_id (ns ! idx)"
    by (simp_all add: n_def)
  have wl: "well_linked (ns[idx := n])"
    using det(1) idx' unfolding well_linked_def length_list_update ns_def [symmetric]
    by (intro lists_ok_update) (auto simp: nb fresh_nbrs nbr_list_def simp del: replicate_Suc)
  have cap: "capped (h_M h) {} (ns[idx := n])"
    using det(2) idx' unfolding capped_def ns_def [symmetric]
    by (intro lists_ok_update) (auto simp: nb fresh_nbrs simp del: replicate_Suc)
  have "\<forall>i k. map_of (h_ids h) i = Some k \<longleftrightarrow> k < length ns \<and> n_id (ns ! k) = i"
    using inv(4) same_data_ids [OF det(3)] by (simp add: ns_def)
  then have ids: "\<forall>i k. map_of (h_ids h) i = Some k \<longleftrightarrow> k < length (ns[idx := n]) \<and> n_id (ns[idx := n] ! k) = i"
    by (rule ids_update [OF _ idx' nb(5)])
  have act: "h_active h + (if n_deleted (ns ! idx) then 1 else 0) = length (filter (\<lambda>n. \<not> n_deleted n) (ns[idx := n]))"
    using count_update [OF idx', of "\<lambda>n. \<not> n_deleted n" n] same_data_count [OF det(3)] inv(5) nb(3)
    by (simp add: ns_def split: if_splits)
  have live: "live_at (ns[idx := n]) k" if "live_at (h_nodes h) k \<or> k = idx" for k
    using that idx' nb(3) same_data_live [OF det(3), of k] by (auto simp: live_at_def ns_def nth_list_update)
  show "live_at (h_nodes ?h) idx" using live by (simp add: up)
  show "hnsw_inv ?h" if "0 \<le> h_entry h"
    using wl cap ids act inv(3,7) live that by (simp add: up hnsw_inv_def)
  show "hnsw_inv (?h\<lparr>h_entry := int idx, h_max_layer := int lvl\<rparr>)" if "h_entry h < 0"
    using wl cap ids act inv(3) live by (simp add: up hnsw_inv_def)
  let ?hd = "h\<lparr>h_nodes := ns\<rparr>"
  have inv0: "hnsw_inv ?hd"
    using det inv same_data_ids [OF det(3)] same_data_count [OF det(3)] same_data_live [OF det(3)] same_data_length [OF det(3)]
      same_data_nth(4) [OF det(3)]
    by (simp add: hnsw_inv_def ns_def) (metis in_set_conv_nth)
  have "vec_of ?hd = vec_of h" by (rule vec_of_same_data [OF assms(1)]) (simp_all add: ns_def det(3))
  moreover have "vec_of ?h = (vec_of ?hd)(i := if n_deleted n then None else Some (n_vec n))"
  proof -
    have "map_of (h_ids ?hd) i = Some idx" "h_nodes ?h = (h_nodes ?hd)[idx := n]" "h_ids ?h = h_ids ?hd"
      using assms(2) by (simp_all add: up)
    then show ?thesis by (rule vec_of_update [OF inv0])
  qed
  ultimately show "vec_of ?h = (vec_of h)(i \<mapsto> vec)" by (simp add: nb)
  have "vec_of h i = None \<longleftrightarrow> n_deleted (ns ! idx)"
    using same_data_nth(4) [OF det(3) idx] by (simp add: vec_of_def assms(2) ns_def)
  then show "h_active ?h = h_active h + (if vec_of h i = None then 1 else 0)" by (simp add: up)
qed

lemma update_item_unfold:
  "map_of (h_ids h) i = Some idx \<Longrightarrow> update_item L lvl i vec h =
    (if h_entry h < 0 then (kOk, (updated lvl vec idx h)\<lparr>h_entry := int idx, h_max_layer := int lvl\<rparr>)
     else (kOk, insert_node L lvl vec idx (updated lvl vec idx h)))"
  by (simp add: update_item_def updated_def Let_def)

lemma update_item_ok:
  assumes "lib_ok L" and "hnsw_inv h" and "hnsw_contains h i"
  obtains h' where "update_item L lvl i vec h = (kOk, h')" and "hnsw_inv h'" and "vec_of h' = (vec_of h)(i \<mapsto> vec)"
    and "h_active h' = h_active h + (if vec_of h i = None then 1 else 0)"
proof -
  obtain idx where k: "map_of (h_ids h) i = Some idx" using assms(3) by (auto simp: hnsw_contains_def)
  note up = updated_ok [OF assms(2) k, of lvl vec]
  show ?thesis
  proof (cases "h_entry h < 0")
    case True
    let ?h = "(updated lvl vec idx h)\<lparr>h_entry := int idx, h_max_layer := int lvl\<rparr>"
    have "vec_of ?h = vec_of (updated lvl vec idx h)" by (rule vec_of_cong) simp_all
    then show ?thesis using True up(2-4) by (intro that [of ?h]) (simp_all add: update_item_unfold [OF k])
  next
    case False
    let ?u = "updated lvl vec idx h"
    have pos: "0 \<le> h_entry ?u" using False by (simp add: updated_def Let_def)
    have inv: "hnsw_inv ?u" using False up(1) by simp
    note ins = insert_node_ok [OF assms(1) inv pos up(5), of lvl vec]
    have "vec_of (insert_node L lvl vec idx ?u) = vec_of ?u" by (rule vec_of_same_data [OF inv ins(2,3)])
    then show ?thesis
      using False up(3,4) ins(1,4) by (intro that [of "insert_node L lvl vec idx ?u"]) (simp_all add: update_item_unfold [OF k])
  qed
qed

section \<open>Reachable indexes\<close>

text \<open>\<open>m\<close> is the map the index represents, \<open>K\<close> the ids ever added (removed ones included).\<close>

inductive hnsw_reaches :: "hnsw_lib \<Rightarrow> hnsw \<Rightarrow> (u64 \<rightharpoonup> fvec) \<Rightarrow> u64 set \<Rightarrow> bool" for L where
  fresh: "hnsw_reaches L (new_hnsw dim M efc) Map.empty {}"
| added: "hnsw_reaches L h m K \<Longrightarrow> add_item L lvl i vec h = (s, h') \<Longrightarrow>
    hnsw_reaches L h' (if i \<in> K then m else m(i \<mapsto> vec)) (insert i K)"
| removed: "hnsw_reaches L h m K \<Longrightarrow> hnsw_remove i h = (s, h') \<Longrightarrow> hnsw_reaches L h' (m(i := None)) K"
| updated: "hnsw_reaches L h m K \<Longrightarrow> update_item L lvl i vec h = (s, h') \<Longrightarrow>
    hnsw_reaches L h' (if i \<in> K then m(i \<mapsto> vec) else m) K"

lemma insert_node_ids [simp]: "h_ids (insert_node L lvl vec idx h) = h_ids h"
  by (simp add: insert_node_def Let_def)

lemma contains_ops:
  "hnsw_contains (snd (add_item L lvl i vec h)) j \<longleftrightarrow> j = i \<or> hnsw_contains h j"
  "hnsw_contains (snd (hnsw_remove i h)) j \<longleftrightarrow> hnsw_contains h j"
  "hnsw_contains (snd (update_item L lvl i vec h)) j \<longleftrightarrow> hnsw_contains h j"
    apply (auto simp: hnsw_contains_def add_item_def Let_def update_conv')[1]
   apply (simp add: hnsw_contains_def hnsw_remove_def Let_def split: option.splits prod.splits)
  apply (simp add: hnsw_contains_def update_item_def Let_def split: option.splits)
  done

definition represents :: "hnsw \<Rightarrow> (u64 \<rightharpoonup> fvec) \<Rightarrow> u64 set \<Rightarrow> bool" where
  "represents h m K \<longleftrightarrow> hnsw_inv h \<and> vec_of h = m \<and> (\<forall>i. hnsw_contains h i \<longleftrightarrow> i \<in> K) \<and>
     finite (dom m) \<and> dom m \<subseteq> K \<and> hnsw_size h = card (dom m)"

lemma represents_add:
  assumes "lib_ok L" and "represents h m K" and "add_item L lvl i vec h = (s, h')"
  shows "represents h' (if i \<in> K then m else m(i \<mapsto> vec)) (insert i K) \<and> s = (if i \<in> K then kInvalidArgument else kOk)"
proof (cases "i \<in> K")
  case True
  then have "hnsw_contains h i" using assms(2) by (simp add: represents_def)
  then have "h' = h" "s = kInvalidArgument" using assms(3) by (auto simp: add_item_def hnsw_contains_def)
  then show ?thesis using True assms(2) by (simp add: insert_absorb)
next
  case False
  then have nc: "\<not> hnsw_contains h i" and inv: "hnsw_inv h" using assms(2) by (auto simp: represents_def)
  have "s = kOk" "hnsw_inv h'" "vec_of h' = (vec_of h)(i \<mapsto> vec)" "h_active h' = h_active h + 1"
    by (rule add_item_ok [OF assms(1) inv nc, of lvl vec]; simp add: assms(3))+
  moreover have "i \<notin> dom m" using False assms(2) by (auto simp: represents_def)
  ultimately show ?thesis
    using False assms(2) contains_ops(1) [of L lvl i vec h] by (auto simp: represents_def hnsw_size_def assms(3))
qed

lemma represents_remove:
  assumes "represents h m K" and "hnsw_remove i h = (s, h')"
  shows "represents h' (m(i := None)) K \<and> s = (if i \<in> K then kOk else kNotFound)"
proof (cases "i \<in> K")
  case True
  then have c: "hnsw_contains h i" and inv: "hnsw_inv h" using assms(1) by (auto simp: represents_def)
  have "s = kOk" "hnsw_inv h'" "vec_of h' = (vec_of h)(i := None)"
    "h_active h' = (if vec_of h i = None then h_active h else h_active h - 1)"
    by (rule hnsw_remove_ok [OF inv c]; simp add: assms(2))+
  moreover have "card (dom (m(i := None))) = (if m i = None then card (dom m) else card (dom m) - 1)"
    using assms(1) by (auto simp: represents_def domIff insert_absorb)
  ultimately show ?thesis
    using True assms contains_ops(2) [of i h] by (auto simp: represents_def hnsw_size_def)
next
  case False
  then have "\<not> hnsw_contains h i" "m i = None" using assms(1) by (auto simp: represents_def)
  then have "h' = h" "s = kNotFound" "m(i := None) = m"
    using assms(2) by (auto simp: hnsw_remove_def hnsw_contains_def fun_upd_idem)
  then show ?thesis using False assms(1) by simp
qed

lemma represents_update:
  assumes "lib_ok L" and "represents h m K" and "update_item L lvl i vec h = (s, h')"
  shows "represents h' (if i \<in> K then m(i \<mapsto> vec) else m) K \<and> s = (if i \<in> K then kOk else kNotFound)"
proof (cases "i \<in> K")
  case True
  then have c: "hnsw_contains h i" and inv: "hnsw_inv h" using assms(2) by (auto simp: represents_def)
  have "s = kOk" "hnsw_inv h'" "vec_of h' = (vec_of h)(i \<mapsto> vec)"
    "h_active h' = h_active h + (if vec_of h i = None then 1 else 0)"
    by (rule update_item_ok [OF assms(1) inv c, of lvl vec]; simp add: assms(3))+
  moreover have "card (dom (m(i \<mapsto> vec))) = card (dom m) + (if m i = None then 1 else 0)"
    using assms(2) by (auto simp: represents_def domIff insert_absorb card_insert_if)
  ultimately show ?thesis
    using True assms(2,3) contains_ops(3) [of L lvl i vec h] by (auto simp: represents_def hnsw_size_def)
next
  case False
  then have "\<not> hnsw_contains h i" using assms(2) by (auto simp: represents_def)
  then have "h' = h" "s = kNotFound" using assms(3) by (auto simp: update_item_def hnsw_contains_def)
  then show ?thesis using False assms(2) by simp
qed

lemma reaches_represents:
  assumes "lib_ok L" and "hnsw_reaches L h m K"
  shows "represents h m K"
  using assms(2)
proof (induction rule: hnsw_reaches.induct)
  case (fresh dim M efc)
  have "vec_of (new_hnsw dim M efc) = Map.empty" by (rule ext) (simp add: vec_of_def new_hnsw_def)
  then show ?case using hnsw_inv_new by (simp add: represents_def hnsw_contains_def hnsw_size_def new_hnsw_def)
next
  case (added h m K lvl i vec s h')
  then show ?case using represents_add [OF assms(1)] by blast
next
  case (removed h m K i s h')
  then show ?case using represents_remove by blast
next
  case (updated h m K lvl i vec s h')
  then show ?case using represents_update [OF assms(1)] by blast
qed

lemma entry_missing:
  assumes "hnsw_inv h" and "h_entry h < 0"
  shows "vec_of h = Map.empty"
proof
  fix j
  show "vec_of h j = None"
  proof (cases "map_of (h_ids h) j")
    case (Some k)
    then have "h_nodes h ! k \<in> set (h_nodes h)" using hnsw_invD(4) [OF assms(1), of j k] by simp
    then have "n_deleted (h_nodes h ! k)" by (rule hnsw_invD(6) [OF assms])
    then show ?thesis using Some by (simp add: vec_of_def)
  qed (simp add: vec_of_def)
qed

text \<open>A small index for the witnesses: two ids at distance 0 from everything.\<close>

definition zero_lib :: hnsw_lib where
  "zero_lib = plain_lib (\<lambda>a b. 0)"

definition sample_hnsw :: hnsw where
  "sample_hnsw = snd (add_item zero_lib 1 9 [2] (snd (add_item zero_lib 0 7 [1] (new_hnsw 1 16 200))))"

lemma lib_ok_zero: "lib_ok zero_lib"
  by (simp add: zero_lib_def lib_ok_plain)

lemma sample_hnsw_reached: "hnsw_reaches zero_lib sample_hnsw [7 \<mapsto> [1], 9 \<mapsto> [2]] {7, 9}"
proof -
  have "hnsw_reaches zero_lib (snd (add_item zero_lib 0 7 [1] (new_hnsw 1 16 200))) [7 \<mapsto> [1]] {7}"
    using hnsw_reaches.added [OF hnsw_reaches.fresh prod.collapse [symmetric], of zero_lib 0 7 "[1]"] by simp
  from hnsw_reaches.added [OF this prod.collapse [symmetric], of 1 9 "[2]"]
  show ?thesis by (simp add: sample_hnsw_def insert_commute)
qed

text \<open>
  C14: the index is a map from ids to vectors. In every state that insertions, removals and
  updates reach, whatever the distance function, the random levels and the order of ties: the
  live entries are exactly the map \<open>m\<close> that these operations build (an insertion of an id that
  was ever added is refused, also after its removal; an update revives a removed id), the size
  is the number of entries of \<open>m\<close>, and \<open>contains\<close> answers for the ids ever added.
\<close>

theorem hnsw_refines_map:
  assumes "lib_ok L" and "hnsw_reaches L h m K"
  shows "vec_of h = m \<and> hnsw_size h = card (dom m) \<and> (\<forall>i. hnsw_contains h i \<longleftrightarrow> i \<in> K) \<and> dom m \<subseteq> K \<and>
    (\<forall>lvl i vec. fst (add_item L lvl i vec h) = (if i \<in> K then kInvalidArgument else kOk)) \<and>
    (\<forall>i. fst (hnsw_remove i h) = (if i \<in> K then kOk else kNotFound)) \<and>
    (\<forall>lvl i vec. fst (update_item L lvl i vec h) = (if i \<in> K then kOk else kNotFound))"
proof -
  note rep = reaches_represents [OF assms]
  have "fst (add_item L lvl i vec h) = (if i \<in> K then kInvalidArgument else kOk)" for lvl i vec
    using represents_add [OF assms(1) rep, of lvl i vec] by (metis prod.collapse)
  moreover have "fst (hnsw_remove i h) = (if i \<in> K then kOk else kNotFound)" for i
    using represents_remove [OF rep, of i] by (metis prod.collapse)
  moreover have "fst (update_item L lvl i vec h) = (if i \<in> K then kOk else kNotFound)" for lvl i vec
    using represents_update [OF assms(1) rep, of lvl i vec] by (metis prod.collapse)
  ultimately show ?thesis using rep by (simp add: represents_def)
qed

theorem hnsw_refines_map_witness:
  "vec_of sample_hnsw = [7 \<mapsto> [1], 9 \<mapsto> [2]] \<and> hnsw_contains sample_hnsw 9"
  using hnsw_refines_map [OF lib_ok_zero sample_hnsw_reached] by simp

text \<open>
  C16: the graph stays well-formed and bounded. In every reachable state each node has a
  neighbour list for each of its layers; a list holds distinct existing nodes other than the
  node itself, at most \<open>2 * M\<close> on layer 0 and \<open>M\<close> on the others; the entry point is a live
  node, and it is missing only if there is no live node.
\<close>

theorem hnsw_graph_bounded:
  assumes "lib_ok L" and "hnsw_reaches L h m K"
  shows "(\<forall>i < length (h_nodes h). length (n_nbrs (h_nodes h ! i)) = Suc (n_max_layer (h_nodes h ! i)) \<and>
      (\<forall>l \<le> n_max_layer (h_nodes h ! i). nbr_list (length (h_nodes h)) i (n_nbrs (h_nodes h ! i) ! l) \<and>
         length (n_nbrs (h_nodes h ! i) ! l) \<le> (if l = 0 then 2 * h_M h else h_M h))) \<and>
    (if h_entry h < 0 then m = Map.empty else live_at (h_nodes h) (nat (h_entry h)))"
proof -
  have inv: "hnsw_inv h" and vec: "vec_of h = m"
    using reaches_represents [OF assms] by (auto simp: represents_def)
  note i = hnsw_invD [OF inv]
  have "m = Map.empty" if "h_entry h < 0" using entry_missing [OF inv that] vec by simp
  moreover have "length (n_nbrs (h_nodes h ! k) ! l) \<le> (if l = 0 then 2 * h_M h else h_M h)"
    if "k < length (h_nodes h)" "l \<le> n_max_layer (h_nodes h ! k)" for k l
    using lists_okD [OF i(2) [unfolded capped_def] that] by (simp add: layer_cap_def)
  moreover have "length (n_nbrs (h_nodes h ! k)) = Suc (n_max_layer (h_nodes h ! k))" if "k < length (h_nodes h)" for k
    using i(1) that by (simp add: well_linked_def lists_ok_def)
  ultimately show ?thesis using i(7) well_linkedD [OF i(1)] by simp
qed

lemma sample_hnsw_entry: "map_of (h_ids sample_hnsw) 9 = Some 1" "h_entry sample_hnsw = 1" "h_M sample_hnsw = 16"
  by (simp_all add: sample_hnsw_def add_item_def new_hnsw_def insert_node_def Let_def)

theorem hnsw_graph_bounded_witness:
  "live_at (h_nodes sample_hnsw) (nat (h_entry sample_hnsw)) \<and>
    length (n_nbrs (h_nodes sample_hnsw ! nat (h_entry sample_hnsw)) ! 0) \<le> 2 * h_M sample_hnsw"
proof -
  let ?ns = "h_nodes sample_hnsw" and ?e = "h_entry sample_hnsw"
  note bounded = hnsw_graph_bounded [OF lib_ok_zero sample_hnsw_reached]
  have "\<not> ?e < 0" using sample_hnsw_entry(2) by simp
  then have live: "live_at ?ns (nat ?e)" using conjunct2 [OF bounded] by (simp only: if_False)
  then have "nat ?e < length ?ns" by (simp add: live_at_def)
  from conjunct1 [OF bounded, rule_format, OF this, THEN conjunct2, rule_format, of 0] live
  show ?thesis by simp
qed

section \<open>Searching\<close>

lemma search_represents:
  assumes "lib_ok L" and "represents h m K"
  shows "length (search_top_k_filtered L q k ef flt h) \<le> k \<and>
    distinct (map sr_id (search_top_k_filtered L q k ef flt h)) \<and>
    (\<forall>r \<in> set (search_top_k_filtered L q k ef flt h).
       passes flt (sr_id r) \<and> (\<exists>v. m (sr_id r) = Some v \<and> sr_distance r = hl_dist L q v)) \<and>
    ((\<forall>v \<in> ran m. \<not> flt_nan (hl_dist L q v)) \<longrightarrow>
       sorted_wrt (\<lambda>a b. \<not> flt_less (sr_distance b) (sr_distance a)) (search_top_k_filtered L q k ef flt h)) \<and>
    (0 < k \<longrightarrow> m \<noteq> Map.empty \<longrightarrow> search_top_k L q k ef h \<noteq> [])"
proof (cases "k = 0 \<or> h_entry h < 0")
  case True
  have "m = Map.empty" if "h_entry h < 0"
    using that entry_missing [of h] assms(2) by (simp add: represents_def)
  with True show ?thesis by (auto simp: search_top_k_filtered_def)
next
  case False
  have inv: "hnsw_inv h" and vec: "vec_of h = m"
    using assms(2) by (auto simp: represents_def)
  let ?ns = "h_nodes h"
  define ep where "ep f = descend L ?ns q f (layers_down (h_max_layer h) 1) (nat (h_entry h))" for f
  define c where "c f = take k (search_layer L ?ns q (ep f) (max ef k) 0 f)" for f
  have res: "search_top_k_filtered L q k ef f h = map (\<lambda>(dc, c). \<lparr>sr_id = n_id (?ns ! c), sr_distance = dc\<rparr>) (c f)" for f
    using False by (simp add: search_top_k_filtered_def c_def ep_def Let_def)
  have live: "live_at ?ns (ep f)" for f
    unfolding ep_def using False by (intro descend_live [OF assms(1)] hnsw_invD(7) [OF inv]) simp
  note hits = search_layer_hits [OF assms(1), where entry = "ep f" and ns = ?ns and q = q and ef = "max ef k" and layer = 0 and flt = f for f]
  have ep: "ep f < length ?ns" for f using live by (simp add: live_at_def)
  have mem: "hit L ?ns q 0 x \<and> passes f (n_id (?ns ! snd x))" if "x \<in> set (c f)" for x f
  proof -
    have "x \<in> set (search_layer L ?ns q (ep f) (max ef k) 0 f)" using that unfolding c_def by (rule in_set_takeD)
    then show ?thesis using hits(1) [OF ep] by blast
  qed
  have entry: "m (n_id (?ns ! snd x)) = Some (n_vec (?ns ! snd x)) \<and> fst x = hl_dist L q (n_vec (?ns ! snd x))"
    if "x \<in> set (c f)" for x f
    using mem [OF that] hnsw_invD(4) [OF inv, of "n_id (?ns ! snd x)" "snd x"]
    by (simp add: vec [symmetric] vec_of_def hit_def)
  have "distinct (map snd (c flt))" using hits(2) [OF ep, of flt] by (simp add: c_def take_map [symmetric])
  moreover have "inj_on (\<lambda>x. n_id (?ns ! snd x)) (set (c flt))" if "inj_on snd (set (c flt))"
  proof (rule inj_onI)
    fix x y assume xy: "x \<in> set (c flt)" "y \<in> set (c flt)" and eq: "n_id (?ns ! snd x) = n_id (?ns ! snd y)"
    have "snd x < length ?ns" "snd y < length ?ns" using mem xy by (auto simp: hit_def)
    then have "snd x = snd y" using eq hnsw_invD(4) [OF inv] by (metis option.inject)
    then show "x = y" using that xy by (simp add: inj_on_def)
  qed
  ultimately have dist: "distinct (map (\<lambda>x. n_id (?ns ! snd x)) (c flt))" by (simp add: distinct_map)
  have sorted: "sorted_wrt (\<lambda>a b. \<not> flt_less (fst b) (fst a)) (c flt)" if nan: "\<forall>v \<in> ran m. \<not> flt_nan (hl_dist L q v)"
  proof -
    have "n_vec n \<in> ran m" if n: "n \<in> set ?ns" "\<not> n_deleted n" for n
    proof -
      obtain j where "j < length ?ns" "?ns ! j = n" using n(1) by (auto simp: in_set_conv_nth)
      then have "m (n_id n) = Some (n_vec n)"
        using n(2) hnsw_invD(4) [OF inv, of "n_id n" j] by (simp add: vec [symmetric] vec_of_def)
      then show ?thesis by (rule ranI)
    qed
    then show ?thesis using nan unfolding c_def by (intro sorted_wrt_take hits(4) [OF ep]) blast
  qed
  have "c None \<noteq> []"
    using hits(5) [OF ep, of None] live [of None] False by (simp add: c_def live_at_def less_max_iff_disj)
  then have "search_top_k L q k ef h \<noteq> []" by (simp add: search_top_k_def res)
  moreover have "length (c flt) \<le> k" by (simp add: c_def)
  moreover have "\<forall>r \<in> set (search_top_k_filtered L q k ef flt h).
      passes flt (sr_id r) \<and> (\<exists>v. m (sr_id r) = Some v \<and> sr_distance r = hl_dist L q v)"
    using mem entry by (fastforce simp: res)
  ultimately show ?thesis
    using dist sorted by (simp add: res split_def comp_def sorted_wrt_map)
qed

text \<open>
  C15: what a search returns. At most \<open>k\<close> results, no id twice, each a live entry that passes
  the filter with its distance to the query; in order of distance if no live entry has the
  distance NaN to the query (nothing is said about the order otherwise); and without a filter a
  search for at least one result in an index with a live entry finds something.
\<close>

theorem hnsw_search_sound:
  assumes "lib_ok L" and "hnsw_reaches L h m K"
  shows "length (search_top_k_filtered L q k ef flt h) \<le> k \<and>
    distinct (map sr_id (search_top_k_filtered L q k ef flt h)) \<and>
    (\<forall>r \<in> set (search_top_k_filtered L q k ef flt h).
       passes flt (sr_id r) \<and> (\<exists>v. m (sr_id r) = Some v \<and> sr_distance r = hl_dist L q v)) \<and>
    ((\<forall>v \<in> ran m. \<not> flt_nan (hl_dist L q v)) \<longrightarrow>
       sorted_wrt (\<lambda>a b. \<not> flt_less (sr_distance b) (sr_distance a)) (search_top_k_filtered L q k ef flt h)) \<and>
    (0 < k \<longrightarrow> m \<noteq> Map.empty \<longrightarrow> search_top_k L q k ef h \<noteq> [])"
  by (rule search_represents [OF assms(1) reaches_represents [OF assms]])

theorem hnsw_search_sound_witness:
  "length (search_top_k_filtered zero_lib [1] 5 10 (Some (\<lambda>i. i = 9)) sample_hnsw) \<le> 5 \<and>
    sr_id ` set (search_top_k_filtered zero_lib [1] 5 10 (Some (\<lambda>i. i = 9)) sample_hnsw) \<subseteq> {9} \<and>
    search_top_k zero_lib [1] 5 10 sample_hnsw \<noteq> []"
  using hnsw_search_sound [OF lib_ok_zero sample_hnsw_reached, of "[1]" 5 10 "Some (\<lambda>i. i = 9)"]
  by (auto simp: passes_def)

section \<open>Updating the entry point\<close>

text \<open>A live entry without neighbours on the layer is all that a search from it finds.\<close>

lemma search_isolated:
  assumes "lib_ok L" and "e < length ns" and "\<not> n_deleted (ns ! e)"
    and "\<forall>l \<le> n_max_layer (ns ! e). n_nbrs (ns ! e) ! l = []"
  shows "search_layer L ns q e ef layer None =
    (if layer > n_max_layer (ns ! e) then [] else [(hl_dist L q (n_vec (ns ! e)), e)])"
proof (cases "layer > n_max_layer (ns ! e)")
  case False
  let ?de = "hl_dist L q (n_vec (ns ! e))" and ?vis = "(replicate (length ns) False)[e := True]"
  have top: "queue_top L [(?de, e)] = 0" using queue_top_less [of "[(?de, e)]" L] by simp
  then have c: "[(?de, e)] ! queue_top L [(?de, e)] = (?de, e)" by simp
  have "layer_loop L ns q ef layer None (?vis, [(?de, e)], [(?de, e)]) = [(?de, e)]"
    by (subst layer_loop_step [OF _ c]) (use False assms(4) top in \<open>simp_all add: queue_pop_def flt_less_def\<close>)
  then show ?thesis using False assms(3) sort_single [OF assms(1)] by (simp add: search_layer_def Let_def)
qed (simp add: search_layer_def)

lemma descend_isolated:
  assumes "lib_ok L" and "e < length ns" and "\<not> n_deleted (ns ! e)"
    and "\<forall>l \<le> n_max_layer (ns ! e). n_nbrs (ns ! e) ! l = []"
  shows "descend L ns q None ls e = e"
  by (induction ls) (simp_all add: search_isolated [OF assms] Let_def)

lemma wire_isolated:
  assumes "lib_ok L" and "e < length ns" and "\<not> n_deleted (ns ! e)"
    and "\<forall>l \<le> n_max_layer (ns ! e). n_nbrs (ns ! e) ! l = []" and "2 \<le> M"
  shows "wire L M efc vec e ls e ns = ns"
proof (induction ls)
  case (Cons l ls)
  let ?sel = "select_neighbors_heuristic L ns (search_layer L ns vec e efc l None) (layer_cap M l)"
  have "0 < layer_cap M l" using assms(5) by (simp add: layer_cap_def)
  then have "?sel = [] \<or> ?sel = [e]"
    by (auto simp: search_isolated [OF assms(1-4)] select_neighbors_heuristic_def min_def)
  then show ?case using Cons by (auto simp: Let_def connect_bidirectional_def)
qed simp

text \<open>
  updating the entry point cuts off the rest of the graph. The update detaches the node
  from all its neighbours and then searches for new ones from the entry point, which is the
  node itself, now without edges. It ends up isolated but remains the entry point: afterwards
  every search finds this one id only, however many live entries the index has.
\<close>

theorem update_entry_cuts_graph:
  assumes "lib_ok L" and "hnsw_inv h" and "2 \<le> h_M h" and "map_of (h_ids h) i = Some idx" and "h_entry h = int idx" and "0 < k"
  shows "\<exists>h'. update_item L lvl i vec h = (kOk, h') \<and>
    search_top_k L q k ef h' = [\<lparr>sr_id = i, sr_distance = hl_dist L q vec\<rparr>]"
proof -
  let ?u = "updated lvl vec idx h"
  have pos: "0 \<le> h_entry h" using assms(5) by simp
  note up = updated_ok [OF assms(2,4), of lvl vec]
  have idx: "idx < length (h_nodes h)" "n_id (h_nodes h ! idx) = i"
    using hnsw_invD(4) [OF assms(2), of i idx] assms(4) by auto
  note det = detach_ok [OF hnsw_invD(1,2) [OF assms(2)] idx(1)]
  have len: "idx < length (h_nodes ?u)" using up(5) by (simp add: live_at_def)
  have node: "n_vec (h_nodes ?u ! idx) = vec" "n_id (h_nodes ?u ! idx) = i" "\<not> n_deleted (h_nodes ?u ! idx)"
    "n_max_layer (h_nodes ?u ! idx) = lvl" "n_nbrs (h_nodes ?u ! idx) = replicate (Suc lvl) []"
    using len idx same_data_length [OF det(3)] same_data_nth(1) [OF det(3) idx(1)] by (simp_all add: updated_def Let_def)
  have alone: "\<forall>l \<le> n_max_layer (h_nodes ?u ! idx). n_nbrs (h_nodes ?u ! idx) ! l = []"
    by (simp add: node fresh_nbrs del: replicate_Suc)
  have M: "2 \<le> h_M ?u" and entry: "h_entry ?u = int idx" using assms(3,5) by (simp_all add: updated_def Let_def)
  let ?h = "insert_node L lvl vec idx ?u"
  have upd: "update_item L lvl i vec h = (kOk, ?h)" using assms(4) pos by (simp add: update_item_unfold)
  have h': "h_nodes ?h = h_nodes ?u" "h_entry ?h = int idx"
    by (simp_all add: insert_node_def Let_def entry descend_isolated [OF assms(1) len node(3) alone]
        wire_isolated [OF assms(1) len node(3) alone M])
  have "search_layer L (h_nodes ?u) q idx (max ef k) 0 None = [(hl_dist L q vec, idx)]"
    by (simp add: search_isolated [OF assms(1) len node(3) alone] node)
  moreover have "take k [(hl_dist L q vec, idx)] = [(hl_dist L q vec, idx)]" using assms(6) by (cases k) simp_all
  ultimately have "search_top_k L q k ef ?h = [\<lparr>sr_id = i, sr_distance = hl_dist L q vec\<rparr>]"
    using assms(6) by (simp add: search_top_k_def search_top_k_filtered_def h' Let_def node
        descend_isolated [OF assms(1) len node(3) alone])
  with upd show ?thesis by blast
qed

theorem update_entry_cuts_graph_witness:
  "dom (vec_of sample_hnsw) = {7, 9} \<and> (\<exists>h'. update_item zero_lib 0 9 [3] sample_hnsw = (kOk, h') \<and>
    search_top_k zero_lib [1] 5 10 h' = [\<lparr>sr_id = 9, sr_distance = 0\<rparr>])"
proof
  have rep: "represents sample_hnsw [7 \<mapsto> [1], 9 \<mapsto> [2]] {7, 9}"
    by (rule reaches_represents [OF lib_ok_zero sample_hnsw_reached])
  then show "dom (vec_of sample_hnsw) = {7, 9}" by (auto simp: represents_def)
  have "hnsw_inv sample_hnsw" using rep by (simp add: represents_def)
  from update_entry_cuts_graph [OF lib_ok_zero this, of 9 1 5 0 "[3]" "[1]" 10]
  show "\<exists>h'. update_item zero_lib 0 9 [3] sample_hnsw = (kOk, h') \<and>
      search_top_k zero_lib [1] 5 10 h' = [\<lparr>sr_id = 9, sr_distance = 0\<rparr>]"
    by (simp add: sample_hnsw_entry zero_lib_def plain_lib_def)
qed

end
