(* ===== verification/Collection_Correct.thy ===== *)
theory Collection_Correct
  imports Collection Engine_Theorems Filter_Correct Hnsw_Theorems
begin

text \<open>
  The three parts of a collection agree. \<open>coll_inv\<close> ties the storage engine, the graph and the
  filter index to one abstract table of entries: the engine stores an encoding of every entry
  under the decimal form of its id, the graph holds its vector and the filter index its scalar
  fields. Every operation of the collection keeps the invariant, and so does closing and
  reopening it.
\<close>

section \<open>Keys\<close>

lemma extract_u64_plain:
  assumes "n < 2 ^ 64"
  shows "extract_u64 (to_string n) = Some (of_nat n, [])"
proof -
  have "extract_u64 (to_string n) = extract_u64 (32 # to_string n)"
    by (simp add: extract_u64_def is_space_def)
  then show ?thesis using extract_u64_to_string [OF assms, of "[]"] by simp
qed

lemma parse_key_of [simp]: "parse_id (key_of i) = Some i"
proof -
  have "unat i < 2 ^ 64" using unsigned_less [of i, where ?'a = nat] by simp
  then show ?thesis using extract_u64_plain [of "unat i"] by (simp add: parse_id_def key_of_def)
qed

lemma key_of_inj [simp]: "key_of i = key_of j \<longleftrightarrow> i = j"
  by (metis option.inject parse_key_of)

section \<open>The invariant\<close>

definition same_entry :: "entry_meta \<Rightarrow> entry_meta \<Rightarrow> bool" where
  "same_entry m' m \<longleftrightarrow> em_vec m' = em_vec m \<and> em_payload m' = em_payload m \<and> set (em_scalars m') = set (em_scalars m)"

definition stored_at :: "bytes option \<Rightarrow> nat \<Rightarrow> entry_meta option \<Rightarrow> bool" where
  "stored_at v dim e \<longleftrightarrow>
     (case e of
        None \<Rightarrow> v = None
      | Some m \<Rightarrow> length (em_vec m) = dim \<and> (\<exists>bs m'. v = Some bs \<and> decode_entry_meta bs = Inr m' \<and> same_entry m' m))"

definition stored :: "record_kv list \<Rightarrow> nat \<Rightarrow> (u64 \<rightharpoonup> entry_meta) \<Rightarrow> bool" where
  "stored es dim items \<longleftrightarrow> (\<forall>i. stored_at (store_of es (key_of i)) dim (items i)) \<and>
     dom (store_of es) \<subseteq> range key_of"

definition filtered :: "filter_index \<Rightarrow> (u64 \<rightharpoonup> entry_meta) \<Rightarrow> bool" where
  "filtered fx items \<longleftrightarrow> (\<exists>cur names. indexes fx cur names \<and>
     (\<forall>i. map_option set (cur i) = map_option (\<lambda>m. set (em_scalars m)) (items i)))"

definition vectors :: "(u64 \<rightharpoonup> entry_meta) \<Rightarrow> u64 \<rightharpoonup> fvec" where
  "vectors items i = map_option em_vec (items i)"

definition coll_inv :: "collection \<Rightarrow> record_kv list \<Rightarrow> (u64 \<rightharpoonup> entry_meta) \<Rightarrow> u64 set \<Rightarrow> bool" where
  "coll_inv c es items K \<longleftrightarrow> engine_holds (c_engine c) es \<and> represents (c_index c) (vectors items) K \<and>
     filtered (c_filter c) items \<and> stored es (c_dim c) items"

definition good_env :: "coll_env \<Rightarrow> bool" where
  "good_env V \<longleftrightarrow> benign_env (env_store V) \<and> lib_ok (env_hnsw V) \<and> name_sort (env_sort V)"

lemma vectors_upd [simp]:
  "vectors (items(i \<mapsto> m)) = (vectors items)(i \<mapsto> em_vec m)"
  "vectors (items(i := None)) = (vectors items)(i := None)"
  "vectors Map.empty = Map.empty"
  by (auto simp: vectors_def)

lemma stored_put:
  assumes "stored es dim items" and "decode_entry_meta bs = Inr m'" and "same_entry m' m" and "length (em_vec m) = dim"
    and "op \<noteq> OpDelete"
  shows "stored (es @ [(op, key_of i, bs)]) dim (items(i \<mapsto> m))"
proof -
  have "store_of (es @ [(op, key_of i, bs)]) = (store_of es)(key_of i \<mapsto> bs)" using assms(5) by simp
  moreover have "stored_at (Some bs) dim (Some m)" using assms(2-4) by (simp add: stored_at_def)
  ultimately show ?thesis using assms(1) by (simp add: stored_def)
qed

lemma stored_remove:
  assumes "stored es dim items"
  shows "stored (es @ [(OpDelete, key_of i, [])]) dim (items(i := None))"
proof -
  have "stored_at None dim None" by (simp add: stored_at_def)
  then show ?thesis using assms unfolding stored_def by auto
qed

lemma filtered_add:
  assumes "filtered fx items" and "items i = None" and "set ss = set (em_scalars m)"
  shows "filtered (filter_add i ss fx) (items(i \<mapsto> m))"
proof -
  obtain cur names where ix: "indexes fx cur names"
    and cur: "\<forall>i. map_option set (cur i) = map_option (\<lambda>m. set (em_scalars m)) (items i)"
    using assms(1) by (auto simp: filtered_def)
  have "cur i = None" using cur assms(2) by (metis map_option_is_None)
  then show ?thesis
    using indexes.added [OF ix, of i ss] cur assms(3) unfolding filtered_def
    by (intro exI [of _ "cur(i \<mapsto> ss)"] exI [of _ "names \<union> sf_name ` set ss"]) auto
qed

lemma filtered_remove:
  assumes "filtered fx items"
  shows "filtered (filter_remove i fx) (items(i := None))"
proof -
  obtain cur names where ix: "indexes fx cur names"
    and cur: "\<forall>i. map_option set (cur i) = map_option (\<lambda>m. set (em_scalars m)) (items i)"
    using assms(1) by (auto simp: filtered_def)
  then show ?thesis
    using indexes.removed [OF ix, of i] unfolding filtered_def
    by (intro exI [of _ "cur(i := None)"] exI [of _ names]) auto
qed

section \<open>Writing\<close>

definition entry_fits :: "coll_env \<Rightarrow> collection \<Rightarrow> u64 \<Rightarrow> entry_meta \<Rightarrow> bool" where
  "entry_fits V c i m \<longleftrightarrow> length (em_vec m) = c_dim c \<and> length (em_scalars m) < 65536 \<and>
     (\<exists>bs. encode_entry_meta (env_sort V) m = Inr bs \<and> log_accepts (e_log (c_engine c)) (key_of i) bs)"

text \<open>
  What a write leaves alone, by how much it may lengthen the log, and that with an \<open>fsync\<close> per
  write, as a collection has by default, the log is durable to its end.
\<close>

definition sync_each :: "options \<Rightarrow> bool" where
  "sync_each opts \<longleftrightarrow> o_sync_writes opts \<and> \<not> o_group_commit opts"

definition grew :: "collection \<Rightarrow> collection \<Rightarrow> nat \<Rightarrow> bool" where
  "grew c c' n \<longleftrightarrow> c_dim c' = c_dim c \<and> e_opts (c_engine c') = e_opts (c_engine c) \<and>
     l_legacy (e_log (c_engine c')) = l_legacy (e_log (c_engine c)) \<and>
     l_eof (e_log (c_engine c)) \<le> l_eof (e_log (c_engine c')) \<and>
     l_eof (e_log (c_engine c')) \<le> l_eof (e_log (c_engine c)) + n \<and>
     (sync_each (e_opts (c_engine c)) \<and> e_durable (c_engine c) = l_eof (e_log (c_engine c)) \<longrightarrow>
        e_durable (c_engine c') = l_eof (e_log (c_engine c')))"

lemma make_meta_self [simp]: "make_meta (em_vec m) (em_payload m) (em_scalars m) = m"
  by (simp add: make_meta_def)

lemma put_entry:
  assumes "good_env V" and "coll_inv c es items K" and "entry_fits V c i m"
  obtains bs st where "encode_entry_meta (env_sort V) m = Inr bs"
    and "engine_put_vector_v2 (env_store V) (key_of i) bs (c_engine c) = (kOk, st)"
    and "engine_holds st (es @ [(OpVectorPutV2, key_of i, bs)])"
    and "stored (es @ [(OpVectorPutV2, key_of i, bs)]) (c_dim c) (items(i \<mapsto> m))"
    and "grew c (c\<lparr>c_engine := st\<rparr>) (19 + length (key_of i) + length bs)"
proof -
  obtain bs where bs: "encode_entry_meta (env_sort V) m = Inr bs" and acc: "log_accepts (e_log (c_engine c)) (key_of i) bs"
    and len: "length (em_vec m) = c_dim c" "length (em_scalars m) < 65536"
    using assms(3) by (auto simp: entry_fits_def)
  have env: "benign_env (env_store V)" "name_sort (env_sort V)" using assms(1) by (auto simp: good_env_def)
  have inv: "engine_holds (c_engine c) es" "stored es (c_dim c) items" using assms(2) by (auto simp: coll_inv_def)
  obtain st where st: "engine_log_op OpVectorPutV2 (env_store V) (key_of i) bs (c_engine c) = (kOk, st)"
    "engine_holds st (es @ [(OpVectorPutV2, key_of i, bs)])"
    "grew c (c\<lparr>c_engine := st\<rparr>) (19 + length (key_of i) + length bs)"
    by (rule engine_log_op_holds [OF env(1) inv(1) acc, of OpVectorPutV2]) (auto simp: grew_def sync_each_def fsync_now_def)
  have "decode_entry_meta bs = Inr (m\<lparr>em_scalars := env_sort V (em_scalars m)\<rparr>)"
    by (rule decode_of_encode [OF env(2) bs len(2)])
  moreover have "same_entry (m\<lparr>em_scalars := env_sort V (em_scalars m)\<rparr>) m"
    using name_sort.srt_set [OF env(2)] by (simp add: same_entry_def)
  ultimately have "stored (es @ [(OpVectorPutV2, key_of i, bs)]) (c_dim c) (items(i \<mapsto> m))"
    by (rule stored_put [OF inv(2) _ _ len(1)]) simp
  then show ?thesis
    using bs st by (intro that) (simp_all add: engine_log_op_def engine_put_vector_v2_def)
qed

lemma collection_add_ok:
  assumes "good_env V" and "coll_inv c es items K" and "entry_fits V c i m" and "i \<notin> K"
  obtains c' bs where "collection_add V i (Some (em_vec m)) (em_payload m) (em_scalars m) c = (kOk, c')"
    and "coll_inv c' (es @ [(OpVectorPutV2, key_of i, bs)]) (items(i \<mapsto> m)) (insert i K)"
    and "encode_entry_meta (env_sort V) m = Inr bs" and "grew c c' (19 + length (key_of i) + length bs)"
proof -
  obtain bs st where put: "encode_entry_meta (env_sort V) m = Inr bs"
    "engine_put_vector_v2 (env_store V) (key_of i) bs (c_engine c) = (kOk, st)"
    "engine_holds st (es @ [(OpVectorPutV2, key_of i, bs)])"
    "stored (es @ [(OpVectorPutV2, key_of i, bs)]) (c_dim c) (items(i \<mapsto> m))"
    "grew c (c\<lparr>c_engine := st\<rparr>) (19 + length (key_of i) + length bs)"
    by (rule put_entry [OF assms(1-3)])
  have rep: "represents (c_index c) (vectors items) K" and fx: "filtered (c_filter c) items"
    using assms(2) by (auto simp: coll_inv_def)
  have L: "lib_ok (env_hnsw V)" using assms(1) by (simp add: good_env_def)
  obtain s h where add: "add_item (env_hnsw V) (env_levels V (c_draws c)) i (em_vec m) (c_index c) = (s, h)" by (rule prod.exhaust)
  have ok: "represents h (vectors (items(i \<mapsto> m))) (insert i K)" "s = kOk"
    using represents_add [OF L rep add] assms(4) by auto
  have "i \<notin> dom (vectors items)" using rep assms(4) by (auto simp: represents_def)
  then have "items i = None" by (simp add: domIff vectors_def)
  then have "filtered (filter_add i (em_scalars m) (c_filter c)) (items(i \<mapsto> m))" by (rule filtered_add [OF fx]) simp
  moreover have "\<not> hnsw_contains (c_index c) i" using rep assms(4) by (simp add: represents_def)
  ultimately show ?thesis
    using put add ok
    by (intro that [of "c\<lparr>c_engine := st, c_index := h, c_draws := c_draws c + 1, c_filter := filter_add i (em_scalars m) (c_filter c)\<rparr>" bs])
       (simp_all add: collection_add_def coll_inv_def status_ok_def grew_def)
qed

lemma collection_remove_ok:
  assumes "good_env V" and "coll_inv c es items K" and "log_accepts (e_log (c_engine c)) (key_of i) []"
  obtains c' where "collection_remove V i c = (if i \<in> K then kOk else kNotFound, c')"
    and "coll_inv c' (es @ [(OpDelete, key_of i, [])]) (items(i := None)) K" and "grew c c' (19 + length (key_of i))"
proof -
  have inv: "engine_holds (c_engine c) es" "stored es (c_dim c) items" "represents (c_index c) (vectors items) K"
    "filtered (c_filter c) items"
    using assms(2) by (auto simp: coll_inv_def)
  have env: "benign_env (env_store V)" using assms(1) by (simp add: good_env_def)
  obtain st where st: "engine_log_op OpDelete (env_store V) (key_of i) [] (c_engine c) = (kOk, st)"
    "engine_holds st (es @ [(OpDelete, key_of i, [])])" "grew c (c\<lparr>c_engine := st\<rparr>) (19 + length (key_of i))"
    by (rule engine_log_op_holds [OF env inv(1) assms(3), of OpDelete]) (auto simp: grew_def sync_each_def fsync_now_def)
  obtain s h where rem: "hnsw_remove i (c_index c) = (s, h)" by (rule prod.exhaust)
  show ?thesis
    using st represents_remove [OF inv(3) rem] filtered_remove [OF inv(4), of i] stored_remove [OF inv(2), of i] rem
    by (intro that [of "c\<lparr>c_engine := st, c_index := h, c_filter := filter_remove i (c_filter c)\<rparr>"])
       (simp_all add: collection_remove_def coll_inv_def status_ok_def engine_log_op_def grew_def)
qed

lemma collection_update_ok:
  assumes "good_env V" and "coll_inv c es items K" and "entry_fits V c i m" and "i \<in> K"
  obtains c' bs where "collection_update V i (Some (em_vec m)) (em_payload m) (em_scalars m) c = (kOk, c')"
    and "coll_inv c' (es @ [(OpVectorPutV2, key_of i, bs)]) (items(i \<mapsto> m)) K"
    and "encode_entry_meta (env_sort V) m = Inr bs" and "grew c c' (19 + length (key_of i) + length bs)"
proof -
  obtain bs st where put: "encode_entry_meta (env_sort V) m = Inr bs"
    "engine_put_vector_v2 (env_store V) (key_of i) bs (c_engine c) = (kOk, st)"
    "engine_holds st (es @ [(OpVectorPutV2, key_of i, bs)])"
    "stored (es @ [(OpVectorPutV2, key_of i, bs)]) (c_dim c) (items(i \<mapsto> m))"
    "grew c (c\<lparr>c_engine := st\<rparr>) (19 + length (key_of i) + length bs)"
    by (rule put_entry [OF assms(1-3)])
  have rep: "represents (c_index c) (vectors items) K" and fx: "filtered (c_filter c) items"
    using assms(2) by (auto simp: coll_inv_def)
  have L: "lib_ok (env_hnsw V)" using assms(1) by (simp add: good_env_def)
  obtain s h where upd: "update_item (env_hnsw V) (env_levels V (c_draws c)) i (em_vec m) (c_index c) = (s, h)" by (rule prod.exhaust)
  have ok: "represents h (vectors (items(i \<mapsto> m))) K" "s = kOk"
    using represents_update [OF L rep upd] assms(4) by auto
  have "filtered (filter_add i (em_scalars m) (filter_remove i (c_filter c))) ((items(i := None))(i \<mapsto> m))"
    by (rule filtered_add [OF filtered_remove [OF fx]]) simp_all
  moreover have "hnsw_contains (c_index c) i" using rep assms(4) by (simp add: represents_def)
  ultimately show ?thesis
    using put upd ok
    by (intro that [of "c\<lparr>c_engine := st, c_index := h, c_draws := c_draws c + 1,
          c_filter := filter_add i (em_scalars m) (filter_remove i (c_filter c))\<rparr>" bs])
       (simp_all add: collection_update_def coll_inv_def status_ok_def grew_def)
qed

end
