(* ===== verification/Collection_Theorems.thy ===== *)
theory Collection_Theorems
  imports Collection_Correct
begin

text \<open>
  What a client of a collection may rely on: sequences of requests behave like an abstract
  table of entries, searches return live entries with their distances, and a collection that
  is opened again, after a clean stop or a power failure in the middle of a request, has the
  table of a state the client has seen.
\<close>

section \<open>The abstract table\<close>

datatype coll_request = CAdd u64 entry_meta | CUpdate u64 entry_meta | CRemove u64

fun coll_exec :: "coll_env \<Rightarrow> coll_request \<Rightarrow> collection \<Rightarrow> status_code \<times> collection" where
  "coll_exec V (CAdd i m) c = collection_add V i (Some (em_vec m)) (em_payload m) (em_scalars m) c"
| "coll_exec V (CUpdate i m) c = collection_update V i (Some (em_vec m)) (em_payload m) (em_scalars m) c"
| "coll_exec V (CRemove i) c = collection_remove V i c"

fun coll_run :: "coll_env \<Rightarrow> coll_request list \<Rightarrow> collection \<Rightarrow> status_code list \<times> collection" where
  "coll_run V [] c = ([], c)"
| "coll_run V (r # rs) c = (let (s, c) = coll_exec V r c; (ss, c) = coll_run V rs c in (s # ss, c))"

text \<open>
  The table: the entries, and the ids the graph knows. The encoder decides only whether an
  entry can be stored at all.
\<close>

type_synonym table = "(u64 \<rightharpoonup> entry_meta) \<times> u64 set"

definition entry_status :: "coll_env \<Rightarrow> entry_meta \<Rightarrow> status_code" where
  "entry_status V m = (case encode_entry_meta (env_sort V) m of Inl s \<Rightarrow> s | Inr _ \<Rightarrow> kOk)"

definition table_put :: "coll_env \<Rightarrow> u64 \<Rightarrow> entry_meta \<Rightarrow> table \<Rightarrow> status_code \<times> table" where
  "table_put V i m T =
     (entry_status V m, if status_ok (entry_status V m) then ((fst T)(i \<mapsto> m), insert i (snd T)) else T)"

fun table_step :: "coll_env \<Rightarrow> coll_request \<Rightarrow> table \<Rightarrow> status_code \<times> table" where
  "table_step V (CAdd i m) T = (if i \<in> snd T then (kInvalidArgument, T) else table_put V i m T)"
| "table_step V (CUpdate i m) T = (if i \<in> snd T then table_put V i m T else (kNotFound, T))"
| "table_step V (CRemove i) T = (if i \<in> snd T then kOk else kNotFound, ((fst T)(i := None), snd T))"

fun table_run :: "coll_env \<Rightarrow> coll_request list \<Rightarrow> table \<Rightarrow> status_code list \<times> table" where
  "table_run V [] T = ([], T)"
| "table_run V (r # rs) T = (let (s, T) = table_step V r T; (ss, T) = table_run V rs T in (s # ss, T))"

text \<open>Requests that the log has room for.\<close>

definition entry_bytes :: "coll_env \<Rightarrow> entry_meta \<Rightarrow> bytes" where
  "entry_bytes V m = (case encode_entry_meta (env_sort V) m of Inl s \<Rightarrow> [] | Inr bs \<Rightarrow> bs)"

definition entry_ok :: "coll_env \<Rightarrow> nat \<Rightarrow> u64 \<Rightarrow> entry_meta \<Rightarrow> bool" where
  "entry_ok V dim i m \<longleftrightarrow> length (em_vec m) = dim \<and> length (em_scalars m) < 65536 \<and> fits (key_of i) (entry_bytes V m)"

fun req_ok :: "coll_env \<Rightarrow> nat \<Rightarrow> coll_request \<Rightarrow> bool" where
  "req_ok V dim (CAdd i m) \<longleftrightarrow> entry_ok V dim i m"
| "req_ok V dim (CUpdate i m) \<longleftrightarrow> entry_ok V dim i m"
| "req_ok V dim (CRemove i) \<longleftrightarrow> fits (key_of i) []"

fun req_cost :: "coll_env \<Rightarrow> coll_request \<Rightarrow> nat" where
  "req_cost V (CAdd i m) = 19 + length (key_of i) + length (entry_bytes V m)"
| "req_cost V (CUpdate i m) = 19 + length (key_of i) + length (entry_bytes V m)"
| "req_cost V (CRemove i) = 19 + length (key_of i)"

definition coll_eof :: "collection \<Rightarrow> nat" where
  "coll_eof c = l_eof (e_log (c_engine c))"

lemma encode_error_not_ok: "encode_entry_meta srt m = Inl s \<Longrightarrow> \<not> status_ok s"
  by (auto simp: encode_entry_meta_def Let_def status_ok_def split: if_splits sum.splits dest: put_scalars_error(2))

lemma entry_statusE:
  obtains (bad) s where "encode_entry_meta (env_sort V) m = Inl s" "entry_status V m = s" "\<not> status_ok s"
  | (good) bs where "encode_entry_meta (env_sort V) m = Inr bs" "entry_status V m = kOk" "entry_bytes V m = bs"
  by (cases "encode_entry_meta (env_sort V) m") (auto simp: entry_status_def entry_bytes_def encode_error_not_ok)

lemma entry_fits_ok:
  assumes "entry_ok V (c_dim c) i m" and "coll_eof c + 19 + length (key_of i) + length bs < 2 ^ 63"
    and "encode_entry_meta (env_sort V) m = Inr bs"
  shows "entry_fits V c i m"
  using assms by (auto simp: entry_fits_def entry_ok_def log_accepts_def coll_eof_def entry_bytes_def)

text \<open>One request: the status of the table, the invariant for the new table, at most one record.\<close>

lemma coll_exec_ok:
  assumes "good_env V" and "coll_inv c es items K" and "req_ok V (c_dim c) r"
    and "coll_eof c + req_cost V r < 2 ^ 63"
  obtains c' fs where "coll_exec V r c = (fst (table_step V r (items, K)), c')"
    and "coll_inv c' (es @ fs) (fst (snd (table_step V r (items, K)))) (snd (snd (table_step V r (items, K))))"
    and "length fs \<le> 1" and "grew c c' (req_cost V r)"
proof -
  have same: "grew c c n" for n by (simp add: grew_def)
  have cont: "hnsw_contains (c_index c) i \<longleftrightarrow> i \<in> K" for i
    using assms(2) by (simp add: coll_inv_def represents_def)
  note stay = that [of c "[]"]
  show ?thesis
  proof (cases r)
    case (CAdd i m)
    show ?thesis
    proof (cases "i \<in> K")
      case True
      then show ?thesis using CAdd assms(2) cont same by (intro stay) (simp_all add: collection_add_def)
    next
      case False
      show ?thesis
      proof (cases V m rule: entry_statusE)
        case (bad s)
        then show ?thesis
          using CAdd False assms(2) cont same by (intro stay) (simp_all add: collection_add_def table_put_def)
      next
        case (good bs)
        have "entry_fits V c i m" using assms(3,4) CAdd good(3) by (intro entry_fits_ok [OF _ _ good(1)]) simp_all
        from collection_add_ok [OF assms(1,2) this False] obtain c' where
          "collection_add V i (Some (em_vec m)) (em_payload m) (em_scalars m) c = (kOk, c')"
          "coll_inv c' (es @ [(OpVectorPutV2, key_of i, bs)]) (items(i \<mapsto> m)) (insert i K)"
          "grew c c' (19 + length (key_of i) + length bs)"
          by (metis good(1) sum.inject(2))
        then show ?thesis
          using CAdd False good
          by (intro that [of c' "[(OpVectorPutV2, key_of i, bs)]"]) (simp_all add: table_put_def status_ok_def)
      qed
    qed
  next
    case (CUpdate i m)
    show ?thesis
    proof (cases "i \<in> K")
      case False
      then show ?thesis using CUpdate assms(2) cont same by (intro stay) (simp_all add: collection_update_def)
    next
      case True
      show ?thesis
      proof (cases V m rule: entry_statusE)
        case (bad s)
        then show ?thesis
          using CUpdate True assms(2) cont same by (intro stay) (simp_all add: collection_update_def table_put_def)
      next
        case (good bs)
        have "entry_fits V c i m" using assms(3,4) CUpdate good(3) by (intro entry_fits_ok [OF _ _ good(1)]) simp_all
        from collection_update_ok [OF assms(1,2) this True] obtain c' where
          "collection_update V i (Some (em_vec m)) (em_payload m) (em_scalars m) c = (kOk, c')"
          "coll_inv c' (es @ [(OpVectorPutV2, key_of i, bs)]) (items(i \<mapsto> m)) K"
          "grew c c' (19 + length (key_of i) + length bs)"
          by (metis good(1) sum.inject(2))
        then show ?thesis
          using CUpdate True good
          by (intro that [of c' "[(OpVectorPutV2, key_of i, bs)]"])
             (simp_all add: table_put_def status_ok_def insert_absorb)
      qed
    qed
  next
    case (CRemove i)
    have "log_accepts (e_log (c_engine c)) (key_of i) []"
      using assms(3,4) CRemove by (simp add: log_accepts_def coll_eof_def)
    from collection_remove_ok [OF assms(1,2) this] obtain c' where
      "collection_remove V i c = (if i \<in> K then kOk else kNotFound, c')"
      "coll_inv c' (es @ [(OpDelete, key_of i, [])]) (items(i := None)) K" "grew c c' (19 + length (key_of i))" .
    then show ?thesis using CRemove by (intro that [of c' "[(OpDelete, key_of i, [])]"]) simp_all
  qed
qed

lemma grew_trans: "grew c c1 a \<Longrightarrow> grew c1 c2 b \<Longrightarrow> grew c c2 (a + b)"
  by (simp add: grew_def)

lemma coll_run_ok:
  assumes "good_env V"
  shows "coll_inv c es items K \<Longrightarrow> \<forall>r \<in> set rs. req_ok V (c_dim c) r \<Longrightarrow>
    coll_eof c + sum_list (map (req_cost V) rs) < 2 ^ 63 \<Longrightarrow>
    \<exists>c' fs. coll_run V rs c = (fst (table_run V rs (items, K)), c') \<and>
      coll_inv c' (es @ fs) (fst (snd (table_run V rs (items, K)))) (snd (snd (table_run V rs (items, K)))) \<and>
      grew c c' (sum_list (map (req_cost V) rs))"
proof (induction rs arbitrary: c es items K)
  case Nil
  then show ?case by (auto simp: grew_def intro!: exI [of _ "[]"])
next
  case (Cons r rs)
  let ?T = "snd (table_step V r (items, K))"
  obtain c1 fs1 where one: "coll_exec V r c = (fst (table_step V r (items, K)), c1)"
    "coll_inv c1 (es @ fs1) (fst ?T) (snd ?T)" "grew c c1 (req_cost V r)"
    by (rule coll_exec_ok [OF assms Cons.prems(1), of r]) (use Cons.prems(2,3) in auto)
  have "\<forall>r \<in> set rs. req_ok V (c_dim c1) r" "coll_eof c1 + sum_list (map (req_cost V) rs) < 2 ^ 63"
    using Cons.prems(2,3) one(3) by (auto simp: grew_def coll_eof_def)
  from Cons.IH [OF one(2) this] obtain c' fs where rest: "coll_run V rs c1 = (fst (table_run V rs ?T), c')"
    "coll_inv c' (es @ fs1 @ fs) (fst (snd (table_run V rs ?T))) (snd (snd (table_run V rs ?T)))"
    "grew c1 c' (sum_list (map (req_cost V) rs))"
    by auto
  have "table_run V (r # rs) (items, K) = (fst (table_step V r (items, K)) # fst (table_run V rs ?T), snd (table_run V rs ?T))"
    by (simp add: split_def Let_def)
  moreover have "coll_run V (r # rs) c = (fst (table_step V r (items, K)) # fst (table_run V rs ?T), c')"
    using one(1) rest(1) by simp
  ultimately show ?case
    using rest(2) grew_trans [OF one(3) rest(3)] by (intro exI [of _ c'] exI [of _ "fs1 @ fs"]) simp
qed

section \<open>Reading\<close>

definition payload_result :: "entry_meta option \<Rightarrow> bytes result" where
  "payload_result e = (case e of None \<Rightarrow> Inl kNotFound | Some m \<Rightarrow> Inr (em_payload m))"

lemma collection_get_ok:
  assumes "good_env V" and "coll_inv c es items K"
  shows "collection_get V c i = payload_result (items i)"
proof -
  have "engine_get (env_store V) (c_engine c) (key_of i) = store_result (store_of es (key_of i))"
    using assms by (intro engine_get_store) (simp_all add: good_env_def coll_inv_def)
  moreover have "stored_at (store_of es (key_of i)) (c_dim c) (items i)"
    using assms(2) by (simp add: coll_inv_def stored_def)
  ultimately show ?thesis
    by (cases "items i") (auto simp: collection_get_def store_result_def stored_at_def payload_result_def same_entry_def)
qed

lemma dom_vectors [simp]: "dom (vectors items) = dom items"
  by (auto simp: vectors_def dom_def)

lemma collection_size_ok:
  assumes "coll_inv c es items K"
  shows "collection_size c = card (dom items)"
  using assms by (simp add: coll_inv_def represents_def collection_size_def)

section \<open>Opening\<close>

text \<open>
  The rebuild visits the keys of the engine's index in some order; after each visit the graph
  and the filter index hold the entries seen so far.
\<close>

definition rebuilt :: "(u64 \<rightharpoonup> entry_meta) \<Rightarrow> hnsw \<Rightarrow> filter_index \<Rightarrow> bool" where
  "rebuilt items h fx \<longleftrightarrow> represents h (vectors items) (dom items) \<and> filtered fx items"

lemma filtered_empty: "filtered empty_filter Map.empty"
  unfolding filtered_def by (intro exI [of _ Map.empty] exI [of _ "{}"]) (simp add: indexes.start)

lemma rebuilt_empty: "rebuilt Map.empty (new_hnsw dim M efc) empty_filter"
proof -
  have "vec_of (new_hnsw dim M efc) = Map.empty" by (rule ext) (simp add: vec_of_def new_hnsw_def)
  then show ?thesis
    using hnsw_inv_new filtered_empty by (simp add: rebuilt_def represents_def hnsw_contains_def hnsw_size_def new_hnsw_def)
qed

lemma rebuild_entry_ok:
  assumes "good_env V" and "rebuilt it h fx" and "it i = None" and "stored_at (Some bs) dim (Some m)"
  shows "\<exists>h' fx' n'. rebuild_entry V dim (key_of i) bs (h, fx, n) = (True, h', fx', n') \<and> rebuilt (it(i \<mapsto> m)) h' fx'"
proof -
  obtain m' where m': "decode_entry_meta bs = Inr m'" "same_entry m' m" "length (em_vec m') = dim"
    using assms(4) by (auto simp: stored_at_def same_entry_def)
  obtain s h' where add: "add_item (env_hnsw V) (env_levels V n) i (em_vec m') h = (s, h')" by (rule prod.exhaust)
  have "i \<notin> dom it" using assms(3) by (simp add: domIff)
  then have "represents h' (vectors (it(i \<mapsto> m))) (dom (it(i \<mapsto> m)))" "s = kOk"
    using represents_add [OF _ _ add, of "vectors it" "dom it"] assms(1,2) m'(2)
    by (auto simp: good_env_def rebuilt_def same_entry_def)
  moreover have "filtered (filter_add i (em_scalars m') fx) (it(i \<mapsto> m))"
    using assms(2,3) m'(2) by (intro filtered_add) (simp_all add: rebuilt_def same_entry_def)
  ultimately show ?thesis
    using add m'(1,3) by (simp add: rebuild_entry_def rebuilt_def status_ok_def)
qed

lemma rebuild_loop_ok:
  assumes "good_env V" and "stored es dim items"
  shows "rebuilt it h fx \<Longrightarrow> distinct (map fst xs) \<Longrightarrow> \<forall>(k, off) \<in> set xs. \<exists>i. k = key_of i \<and> it i = None \<Longrightarrow>
    \<forall>(k, off) \<in> set xs. \<exists>v. read_value_at E lg off = Inr (k, v) \<and> store_of es k = Some v \<Longrightarrow>
    \<exists>h' fx' n'. visit_loop E lg (rebuild_entry V dim) xs (h, fx, n) = (kOk, h', fx', n') \<and>
      rebuilt (\<lambda>i. if key_of i \<in> fst ` set xs then items i else it i) h' fx'"
proof (induction xs arbitrary: it h fx n)
  case Nil
  then show ?case by simp
next
  case (Cons x xs)
  obtain i off v where x: "x = (key_of i, off)" "it i = None" and v: "read_value_at E lg off = Inr (key_of i, v)"
    "store_of es (key_of i) = Some v"
    using Cons.prems(3,4) by (cases x) auto
  have at: "stored_at (Some v) dim (items i)" using assms(2) v(2) by (metis stored_def)
  then obtain m where m: "items i = Some m" by (cases "items i") (auto simp: stored_at_def)
  obtain h1 fx1 n1 where one: "rebuild_entry V dim (key_of i) v (h, fx, n) = (True, h1, fx1, n1)" "rebuilt (it(i \<mapsto> m)) h1 fx1"
    using rebuild_entry_ok [OF assms(1) Cons.prems(1) x(2)] at m by metis
  have "\<forall>(k, off) \<in> set xs. \<exists>j. k = key_of j \<and> (it(i \<mapsto> m)) j = None"
    using Cons.prems(2,3) x(1) by (fastforce simp: image_iff)
  then obtain h' fx' n' where rest: "visit_loop E lg (rebuild_entry V dim) xs (h1, fx1, n1) = (kOk, h', fx', n')"
    "rebuilt (\<lambda>j. if key_of j \<in> fst ` set xs then items j else (it(i \<mapsto> m)) j) h' fx'"
    using Cons.IH [OF one(2), of n1] Cons.prems(2,4) by auto
  have "(\<lambda>j. if key_of j \<in> fst ` set xs then items j else (it(i \<mapsto> m)) j) =
      (\<lambda>j. if key_of j \<in> fst ` set (x # xs) then items j else it j)"
    using m x(1) by (auto simp: fun_eq_iff)
  then show ?case using one(1) rest x(1) v(1) by simp
qed

lemma collection_open_ok:
  assumes "good_env V" and "engine_open (env_store V) wal d (c_engine (new_collection dir dim M efc)) = (kOk, st)"
    and "engine_holds st es" and "stored es dim items"
  shows "\<exists>c. collection_open V wal d (new_collection dir dim M efc) = (kOk, c) \<and>
    coll_inv c es items (dom items) \<and> c_dim c = dim \<and> c_engine c = st"
proof -
  have env: "benign_env (env_store V)" using assms(1) by (simp add: good_env_def)
  let ?d = "index_dump (env_ord (env_store V)) (e_index st)"
  have ord: "is_order (env_ord (env_store V))" using env by (simp add: benign_env_def)
  note dump = index_dump_get [OF ord engine_holds_log(5) [OF assms(3)]]
  have set_d: "set ?d = set (e_index st)" using ord by (metis index_dump_def is_order_def mset_eq_setD)
  have live: "\<forall>(k, off) \<in> set ?d. \<exists>v. read_value_at (env_wal (env_store V)) (e_log st) off = Inr (k, v) \<and> store_of es k = Some v"
    using index_entry_reads [OF env assms(3)] set_d by auto
  have ids: "\<forall>(k, off) \<in> set ?d. \<exists>i. k = key_of i \<and> Map.empty i = None"
    using live assms(4) unfolding stored_def by fastforce
  have "index_get = map_of" by (intro ext) (simp add: index_get_def)
  then have keys: "fst ` set ?d = dom (store_of es)"
    using kv.dom_indexed [of "env_wal (env_store V)" "e_log st" "e_index st" es] assms(3) env dump
    by (simp add: engine_holds_def benign_env_def dom_map_of_conv_image_fst [symmetric])
  obtain h fx n where loop: "visit_live (env_store V) st (rebuild_entry V dim) (new_hnsw dim M efc, empty_filter, 0) = (kOk, h, fx, n)"
    "rebuilt (\<lambda>i. if key_of i \<in> fst ` set ?d then items i else None) h fx"
    using rebuild_loop_ok [OF assms(1,4) rebuilt_empty _ ids live, of dim M efc 0] dump(2)
    by (auto simp: visit_live_def index_inv_def)
  have "(\<lambda>i. if key_of i \<in> fst ` set ?d then items i else None) = items"
  proof
    fix i
    have "stored_at (store_of es (key_of i)) dim (items i)" using assms(4) by (simp add: stored_def)
    then show "(if key_of i \<in> fst ` set ?d then items i else None) = items i"
      unfolding keys by (cases "items i") (auto simp: stored_at_def)
  qed
  then show ?thesis
    using loop assms(2-4) by (simp add: collection_open_def new_collection_def status_ok_def coll_inv_def rebuilt_def)
qed

section \<open>The theorems\<close>

text \<open>What a client sees of a table: the payload of every id, and the number of entries.\<close>

definition shows_table :: "coll_env \<Rightarrow> collection \<Rightarrow> (u64 \<rightharpoonup> entry_meta) \<Rightarrow> bool" where
  "shows_table V c items \<longleftrightarrow> (\<forall>i. collection_get V c i = payload_result (items i)) \<and> collection_size c = card (dom items)"

lemma coll_inv_shows: "good_env V \<Longrightarrow> coll_inv c es items K \<Longrightarrow> shows_table V c items"
  by (simp add: shows_table_def collection_get_ok collection_size_ok)

lemma stored_Nil: "stored [] dim Map.empty"
  by (simp add: stored_def stored_at_def store_of_def)

lemma collection_open_fresh:
  assumes "good_env V" and "d (dir @ ascii ''/snap/MANIFEST'') = None"
  shows "\<exists>c. collection_open V [] d (new_collection dir dim M efc) = (kOk, c) \<and> coll_inv c [] Map.empty {} \<and>
    c_dim c = dim \<and> coll_eof c = 0 \<and> e_opts (c_engine c) = default_options dir \<and> e_durable (c_engine c) = 0"
proof -
  have "d (o_snapshot_dir (default_options dir) @ ascii ''/MANIFEST'') = None"
    using assms(2) by (simp add: default_options_def ascii_def)
  then obtain st where "engine_open (env_store V) [] d (new_engine (default_options dir)) = (kOk, st)"
    "engine_holds st []" "e_opts st = default_options dir" "l_eof (e_log st) = 0" "e_durable st = 0"
    using engine_open_empty [of "env_store V" d "default_options dir"] assms(1) by (auto simp: good_env_def engine_holds_def)
  then show ?thesis
    using collection_open_ok [OF assms(1), where es = "[]" and items = Map.empty and dir = dir and st = st] stored_Nil
    by (fastforce simp: new_collection_def coll_eof_def)
qed

text \<open>
  C1: a collection is a table of entries. Open a collection on an empty directory and run any
  sequence of adds, updates and removals that fit the log. Every status is the one of the
  abstract table (an add of an id known to the graph is refused, also after its removal; an
  update of an unknown id and its removal report \<open>kNotFound\<close>; an entry that cannot be encoded
  changes nothing), and afterwards every id reads as the table says and the size is its size.
\<close>

theorem collection_implements_table:
  assumes "good_env V" and "d (dir @ ascii ''/snap/MANIFEST'') = None"
    and "\<forall>r \<in> set rs. req_ok V dim r" and "sum_list (map (req_cost V) rs) < 2 ^ 63"
  shows "\<exists>c0 c. collection_open V [] d (new_collection dir dim M efc) = (kOk, c0) \<and>
    coll_run V rs c0 = (fst (table_run V rs (Map.empty, {})), c) \<and>
    shows_table V c (fst (snd (table_run V rs (Map.empty, {}))))"
proof -
  obtain c0 where c0: "collection_open V [] d (new_collection dir dim M efc) = (kOk, c0)" "coll_inv c0 [] Map.empty {}"
    "c_dim c0 = dim" "coll_eof c0 = 0"
    using collection_open_fresh [of V d dir, OF assms(1,2)] by blast
  from coll_run_ok [OF assms(1) c0(2), of rs] assms(3,4) c0(3,4) obtain c fs where
    run: "coll_run V rs c0 = (fst (table_run V rs (Map.empty, {})), c)"
    and inv: "coll_inv c fs (fst (snd (table_run V rs (Map.empty, {})))) (snd (snd (table_run V rs (Map.empty, {}))))"
    by auto
  then show ?thesis using c0(1) coll_inv_shows [OF assms(1) inv] by blast
qed

definition sample_env :: coll_env where
  "sample_env = \<lparr>env_store = calm_store, env_hnsw = zero_lib, env_sort = sort_key sf_name, env_levels = (\<lambda>n. 0)\<rparr>"

definition sample_requests :: "coll_request list" where
  "sample_requests = [CAdd 7 \<lparr>em_vec = [1], em_payload = [104], em_scalars = [\<lparr>sf_name = [97], sf_value = VInt 5\<rparr>]\<rparr>,
     CAdd 9 \<lparr>em_vec = [2], em_payload = [], em_scalars = []\<rparr>, CRemove 9]"

lemma good_sample_env: "good_env sample_env"
  using std_sort.name_sort_axioms by (simp add: good_env_def sample_env_def lib_ok_zero)

lemma key_of_small: "key_of 7 = [55]" "key_of 9 = [57]"
  by (simp_all add: key_of_def to_string.simps)

lemma sample_requests_ok: "\<forall>r \<in> set sample_requests. req_ok sample_env 1 r" "sum_list (map (req_cost sample_env) sample_requests) \<le> 200"
  by (simp_all add: sample_requests_def entry_ok_def fits_def key_of_small entry_bytes_def sample_env_def encode_entry_meta_def
      meta_flags_def put_defs em_consts)

lemma sample_requests_run:
  "table_run sample_env sample_requests (Map.empty, {}) =
    ([kOk, kOk, kOk], [7 \<mapsto> \<lparr>em_vec = [1], em_payload = [104], em_scalars = [\<lparr>sf_name = [97], sf_value = VInt 5\<rparr>]\<rparr>], {7, 9})"
  by (simp add: sample_requests_def table_put_def entry_status_def status_ok_def sample_env_def encode_entry_meta_def
      meta_flags_def put_defs em_consts insert_commute)

theorem collection_implements_table_witness:
  "\<exists>c0 c. collection_open sample_env [] Map.empty (new_collection [100] 1 16 200) = (kOk, c0) \<and>
    coll_run sample_env sample_requests c0 = ([kOk, kOk, kOk], c) \<and> collection_get sample_env c 7 = Inr [104] \<and>
    collection_get sample_env c 9 = Inl kNotFound \<and> collection_size c = 1"
  using collection_implements_table [OF good_sample_env, of Map.empty "[100]" sample_requests 1 16 200]
    sample_requests_ok sample_requests_run
  by (fastforce simp: shows_table_def payload_result_def)

section \<open>Searching\<close>

text \<open>A result list of a search for \<open>k\<close> entries near \<open>q\<close>.\<close>

definition hits_ok :: "coll_env \<Rightarrow> (u64 \<rightharpoonup> entry_meta) \<Rightarrow> fvec \<Rightarrow> nat \<Rightarrow> search_result list \<Rightarrow> bool" where
  "hits_ok V items q k rs \<longleftrightarrow> length rs \<le> k \<and> distinct (map sr_id rs) \<and>
     (\<forall>r \<in> set rs. \<exists>m. items (sr_id r) = Some m \<and> sr_distance r = hl_dist (env_hnsw V) q (em_vec m)) \<and>
     ((\<forall>m \<in> ran items. \<not> flt_nan (hl_dist (env_hnsw V) q (em_vec m))) \<longrightarrow>
       sorted_wrt (\<lambda>a b. \<not> flt_less (sr_distance b) (sr_distance a)) rs)"

lemma hits_ok_take_filter:
  assumes "hits_ok V items q n rs"
  shows "hits_ok V items q k (take k (filter P rs))"
proof -
  have "distinct (map sr_id (filter P rs))" using assms by (simp add: hits_ok_def distinct_map_filter)
  then have "distinct (map sr_id (take k (filter P rs)))" by (simp add: take_map [symmetric])
  then show ?thesis
    using assms unfolding hits_ok_def
    by (auto dest!: in_set_takeD intro!: sorted_wrt_take sorted_wrt_filter)
qed

lemma index_hits_ok:
  assumes "good_env V" and "coll_inv c es items K"
  shows "hits_ok V items q k (search_top_k_filtered (env_hnsw V) q k ef flt (c_index c))"
    and "\<forall>r \<in> set (search_top_k_filtered (env_hnsw V) q k ef flt (c_index c)). passes flt (sr_id r)"
  using search_represents [of "env_hnsw V" "c_index c" "vectors items" K q k ef flt] assms
  by (auto simp: good_env_def coll_inv_def hits_ok_def vectors_def ran_def)

lemma sat_clause_cong:
  "map_option set fs = map_option set gs \<Longrightarrow> sat_clause names fs cl \<longleftrightarrow> sat_clause names gs cl"
  by (cases fs; cases gs; cases "cl_op cl") (simp_all add: sat_clause_def)

lemma sat_clause_known: "sat_clause names fs cl \<Longrightarrow> sat_clause UNIV fs cl"
  by (cases "cl_op cl") (auto simp: sat_clause_def split: option.splits)

lemma post_filter_hits_ok:
  assumes "good_env V" and "coll_inv c es items K"
  shows "hits_ok V items q k (post_filter_loop V c q k expr n ef) \<and>
    (\<forall>r \<in> set (post_filter_loop V c q k expr n ef). filter_matches (c_filter c) (sr_id r) expr)"
proof (induction n arbitrary: ef)
  case 0
  then show ?case by (simp add: hits_ok_def)
next
  case (Suc n)
  have "hits_ok V items q ef (search_top_k (env_hnsw V) q ef ef (c_index c))"
    using index_hits_ok(1) [OF assms] by (simp add: search_top_k_def)
  from hits_ok_take_filter [OF this] show ?case using Suc by (auto simp: Let_def dest!: in_set_takeD)
qed

text \<open>
  C5: searches of a collection. In every state that implements a table, whatever the beam
  width and filter mode, a search and a filtered search return at most \<open>k\<close> results, no id
  twice, each a live entry of the table with its distance to the query, nearest first if no
  entry has the distance NaN to the query (nothing is said about the order otherwise). Every
  result of a filtered search satisfies every clause of the filter on the scalar fields the
  entry was stored with, where a \<open>!=\<close> clause only asks that no field has the value. This
  includes the mode \<open>kNone\<close>, which its comment calls no filtering: the code treats it as
  \<open>kPostFilter\<close>.
\<close>

theorem collection_search_sound:
  assumes "good_env V" and "coll_inv c es items K"
  shows "hits_ok V items q k (collection_search V c (Some q) k opts) \<and>
    hits_ok V items q k (search_filtered V c (Some q) k expr opts) \<and>
    (\<forall>r \<in> set (search_filtered V c (Some q) k expr opts). \<forall>cl \<in> set expr.
       sat_clause UNIV (map_option em_scalars (items (sr_id r))) cl) \<and>
    (so_filter_mode opts = ModeNone \<longrightarrow>
       search_filtered V c (Some q) k expr opts = search_filtered V c (Some q) k expr (opts\<lparr>so_filter_mode := ModePostFilter\<rparr>))"
proof -
  have plain: "hits_ok V items q k (collection_search V c (Some q) k opts)"
    using index_hits_ok(1) [OF assms] by (simp add: collection_search_def search_top_k_def hits_ok_def)
  have flt: "hits_ok V items q k (search_filtered V c (Some q) k expr opts) \<and>
      (\<forall>r \<in> set (search_filtered V c (Some q) k expr opts). filter_matches (c_filter c) (sr_id r) expr)"
  proof (cases "k = 0 \<or> expr = []")
    case True
    then show ?thesis using plain by (auto simp: search_filtered_def collection_search_def hits_ok_def filter_matches_def)
  next
    case False
    then show ?thesis
      using index_hits_ok(1) [OF assms, of q k "so_ef_search opts" "Some (\<lambda>i. filter_matches (c_filter c) i expr)"]
        index_hits_ok(2) [OF assms, of q k "so_ef_search opts" "Some (\<lambda>i. filter_matches (c_filter c) i expr)"]
        post_filter_hits_ok [OF assms, of q k expr]
      by (simp add: search_filtered_def passes_def del: post_filter_loop.simps)
  qed
  obtain cur names where ix: "indexes (c_filter c) cur names"
    and cur: "\<forall>i. map_option set (cur i) = map_option (\<lambda>m. set (em_scalars m)) (items i)"
    using assms(2) by (auto simp: coll_inv_def filtered_def)
  have "\<forall>cl \<in> set expr. sat_clause UNIV (map_option em_scalars (items (sr_id r))) cl"
    if r: "r \<in> set (search_filtered V c (Some q) k expr opts)" for r
  proof -
    have "map_option set (cur (sr_id r)) = map_option set (map_option em_scalars (items (sr_id r)))"
      using cur by (simp add: option.map_comp comp_def)
    then show ?thesis using flt r filter_matches_sat [OF ix] sat_clause_cong sat_clause_known by metis
  qed
  moreover have "search_filtered V c (Some q) k expr opts = search_filtered V c (Some q) k expr (opts\<lparr>so_filter_mode := ModePostFilter\<rparr>)"
    if "so_filter_mode opts = ModeNone"
    using that by (simp add: search_filtered_def collection_search_def del: post_filter_loop.simps)
  ultimately show ?thesis using plain flt by blast
qed

definition sample_entry :: entry_meta where
  "sample_entry = \<lparr>em_vec = [1], em_payload = [104], em_scalars = [\<lparr>sf_name = [97], sf_value = VInt 5\<rparr>]\<rparr>"

definition sample_coll :: collection where
  "sample_coll = snd (coll_run sample_env sample_requests
     (snd (collection_open sample_env [] Map.empty (new_collection [100] 1 16 200))))"

lemma sample_coll_inv:
  obtains es where "coll_inv sample_coll es [7 \<mapsto> sample_entry] {7, 9}" and "c_dim sample_coll = 1"
    and "coll_eof sample_coll \<le> 200" and "e_opts (c_engine sample_coll) = default_options [100]"
proof -
  obtain c0 where c0: "collection_open sample_env [] Map.empty (new_collection [100] 1 16 200) = (kOk, c0)"
    "coll_inv c0 [] Map.empty {}" "c_dim c0 = 1" "coll_eof c0 = 0" "e_opts (c_engine c0) = default_options [100]"
    using collection_open_fresh [OF good_sample_env, of Map.empty "[100]" 1 16 200] by auto
  from coll_run_ok [OF good_sample_env c0(2), of sample_requests] sample_requests_ok c0(3,4) sample_requests_run
  obtain c es where "coll_run sample_env sample_requests c0 = ([kOk, kOk, kOk], c)"
    "coll_inv c es [7 \<mapsto> sample_entry] {7, 9}" "grew c0 c (sum_list (map (req_cost sample_env) sample_requests))"
    by (auto simp: sample_entry_def)
  then show ?thesis
    using c0 sample_requests_ok(2) by (intro that [of es]) (simp_all add: sample_coll_def grew_def coll_eof_def)
qed

theorem collection_search_sound_witness:
  "hits_ok sample_env [7 \<mapsto> sample_entry] [3] 5 (collection_search sample_env sample_coll (Some [3]) 5 \<lparr>so_ef_search = 10, so_filter_mode = ModeNone\<rparr>) \<and>
    sr_id ` set (search_filtered sample_env sample_coll (Some [3]) 5 [\<lparr>cl_field = [97], cl_op = FEq, cl_value = VInt 5\<rparr>]
       \<lparr>so_ef_search = 10, so_filter_mode = ModeNone\<rparr>) \<subseteq> {7}"
proof (rule sample_coll_inv)
  fix es
  assume inv: "coll_inv sample_coll es [7 \<mapsto> sample_entry] {7, 9}"
  show ?thesis
    using collection_search_sound [OF good_sample_env inv, of "[3]" 5 "\<lparr>so_ef_search = 10, so_filter_mode = ModeNone\<rparr>"
        "[\<lparr>cl_field = [97], cl_op = FEq, cl_value = VInt 5\<rparr>]"]
    by (auto simp: hits_ok_def split: if_splits)
qed

end
