(* ===== verification/C_Api_Correct.thy ===== *)
theory C_Api_Correct
  imports C_Api Collection_Theorems
begin

text \<open>
  What a C client may rely on: handles are independent and dead after they are closed, calls on
  a handle behave like the abstract table of its collection, a batch stops at the first
  failure, and a search response can be decoded, as long as no payload holds a control
  character other than tab, line feed and carriage return. Buffers shorter than the dimension
  of the collection are read past their end whatever \<^verbatim>\<open>dim\<close> says.
\<close>

section \<open>JSON strings\<close>

text \<open>
  The body of a JSON string up to its closing quote (RFC 8259, less the escapes the writer never
  produces): control characters must not occur unescaped.
\<close>

definition unescape :: "byte \<Rightarrow> byte option" where
  "unescape e =
     (if e = 92 then Some 92 else if e = 34 then Some 34 else if e = 110 then Some 10
      else if e = 114 then Some 13 else if e = 116 then Some 9 else None)"

fun json_body :: "bytes \<Rightarrow> (bytes \<times> bytes) option" where
  "json_body [] = None"
| "json_body (c # cs) =
     (if c = 34 then Some ([], cs)
      else if c < 32 then None
      else if c = 92 then
        (case cs of
           [] \<Rightarrow> None
         | e # cs \<Rightarrow> (case unescape e of None \<Rightarrow> None | Some x \<Rightarrow> map_option (apfst (Cons x)) (json_body cs)))
      else map_option (apfst (Cons c)) (json_body cs))"

definition raw_control :: "byte \<Rightarrow> bool" where
  "raw_control c \<longleftrightarrow> c < 32 \<and> c \<noteq> 9 \<and> c \<noteq> 10 \<and> c \<noteq> 13"

lemma json_escape_simps [simp]: "json_escape [] = []" "json_escape (c # s) = escape_char c @ json_escape s"
  by (simp_all add: json_escape_def)

lemma json_body_escape_char:
  "json_body (escape_char c @ bs) = (if raw_control c then None else map_option (apfst (Cons c)) (json_body bs))"
  by (simp add: escape_char_def raw_control_def unescape_def)

lemma json_body_escape:
  "json_body (json_escape s @ 34 # rest) = (if \<exists>c \<in> set s. raw_control c then None else Some (s, rest))"
proof (induction s)
  case (Cons c s)
  then show ?case by (simp add: json_body_escape_char)
qed simp

section \<open>Search responses\<close>

text \<open>A decoder for the responses of \<^verbatim>\<open>lumina_search\<close>: the ids, the texts of the distances, the payloads.\<close>

type_synonym hit = "u64 \<times> bytes \<times> bytes"

definition skip_lit :: "bytes \<Rightarrow> bytes \<Rightarrow> bytes option" where
  "skip_lit p bs = (if take (length p) bs = p then Some (drop (length p) bs) else None)"

definition field :: "bytes \<Rightarrow> bytes \<times> bytes" where
  "field bs = (takeWhile (\<lambda>c. c \<noteq> 44) bs, dropWhile (\<lambda>c. c \<noteq> 44) bs)"

definition read_hit :: "bytes \<Rightarrow> (hit \<times> bytes) option" where
  "read_hit bs =
     (case skip_lit (ascii ''{\"id\":'') bs of None \<Rightarrow> None | Some bs \<Rightarrow>
      case field bs of (i, bs) \<Rightarrow>
      case parse_id i of None \<Rightarrow> None | Some i \<Rightarrow>
      case skip_lit (ascii '',\"distance\":'') bs of None \<Rightarrow> None | Some bs \<Rightarrow>
      case field bs of (dist, bs) \<Rightarrow>
      case skip_lit (ascii '',\"payload\":\"'') bs of None \<Rightarrow> None | Some bs \<Rightarrow>
      case json_body bs of None \<Rightarrow> None | Some (p, bs) \<Rightarrow>
      case skip_lit (ascii ''}'') bs of None \<Rightarrow> None | Some bs \<Rightarrow> Some ((i, dist, p), bs))"

text \<open>Hits separated by commas up to the closing bracket; the fuel bounds their number.\<close>

fun read_hits :: "nat \<Rightarrow> bytes \<Rightarrow> (hit list \<times> bytes) option" where
  "read_hits 0 bs = None"
| "read_hits (Suc n) bs =
     (case read_hit bs of None \<Rightarrow> None | Some (h, bs) \<Rightarrow>
      case bs of
        [] \<Rightarrow> None
      | c # cs \<Rightarrow>
          if c = 93 then Some ([h], cs)
          else if c = 44 then map_option (apfst (Cons h)) (read_hits n cs)
          else None)"

definition read_response :: "bytes \<Rightarrow> hit list option" where
  "read_response bs =
     (case skip_lit (ascii ''{\"results\":['') bs of None \<Rightarrow> None | Some bs \<Rightarrow>
      if bs = ascii '']}'' then Some []
      else case read_hits (length bs) bs of
        Some (hs, rest) \<Rightarrow> if rest = ascii ''}'' then Some hs else None
      | None \<Rightarrow> None)"

lemma skip_lit_append [simp]: "skip_lit p (p @ bs) = Some bs"
  by (simp add: skip_lit_def)

lemma field_append: "\<forall>c \<in> set x. c \<noteq> 44 \<Longrightarrow> field (x @ 44 # bs) = (x, 44 # bs)"
  by (simp add: field_def takeWhile_append2 dropWhile_append2)

definition hit_of :: "api_env \<Rightarrow> handle \<Rightarrow> search_result \<Rightarrow> hit" where
  "hit_of E hn r = (sr_id r, api_fmt E (sr_distance r), best_payload (env_of E hn) (hd_coll hn) (sr_id r))"

text \<open>What the formatted float must not contain for a reader to find its end.\<close>

definition plain_floats :: "api_env \<Rightarrow> bool" where
  "plain_floats E \<longleftrightarrow> (\<forall>x. 44 \<notin> set (api_fmt E x))"

lemma lit_comma: "ascii '',\"distance\":'' = 44 # ascii ''\"distance\":''" "ascii '',\"payload\":\"'' = 44 # ascii ''\"payload\":\"''"
  "ascii ''\"}'' = [34, 125]" "ascii ''}'' = [125]"
  by simp_all

lemma read_hit_json:
  assumes "plain_floats E" and "\<not> (\<exists>c \<in> set (best_payload (env_of E hn) (hd_coll hn) (sr_id r)). raw_control c)"
  shows "read_hit (hit_json E hn r @ rest) = Some (hit_of E hn r, rest)"
proof -
  define p where "p = best_payload (env_of E hn) (hd_coll hn) (sr_id r)"
  define l1 where "l1 = ascii ''{\"id\":''"
  define l2 where "l2 = ascii ''\"distance\":''"
  define l3 where "l3 = ascii ''\"payload\":\"''"
  have hit: "hit_json E hn r @ rest = l1 @ key_of (sr_id r) @ 44 # l2 @ api_fmt E (sr_distance r) @
      44 # l3 @ json_escape p @ 34 # 125 # rest"
    unfolding hit_json_def lit_comma p_def [symmetric] l1_def [symmetric] l2_def [symmetric] l3_def [symmetric] key_of_def by simp
  have key: "field (key_of (sr_id r) @ 44 # bs) = (key_of (sr_id r), 44 # bs)" for bs
    using to_string_digits by (intro field_append) (force simp: key_of_def is_digit_def)
  have dist: "field (api_fmt E x @ 44 # bs) = (api_fmt E x, 44 # bs)" for x bs
    using assms(1) by (intro field_append) (auto simp: plain_floats_def)
  have comma: "skip_lit (44 # l) (44 # l @ bs) = Some bs" for l bs by (simp add: skip_lit_def)
  have body: "json_body (json_escape p @ 34 # bs) = Some (p, bs)" for bs
    using assms(2) by (simp add: json_body_escape p_def [symmetric])
  have last: "skip_lit [125] (125 # rest) = Some rest" by (simp add: skip_lit_def)
  show ?thesis
    unfolding read_hit_def lit_comma hit l1_def [symmetric] l2_def [symmetric] l3_def [symmetric]
    by (simp add: key dist comma body last hit_of_def p_def [symmetric])
qed

lemma read_hits_json:
  assumes "plain_floats E" and "hs \<noteq> []"
    and "\<forall>r \<in> set hs. \<forall>c \<in> set (best_payload (env_of E hn) (hd_coll hn) (sr_id r)). \<not> raw_control c"
    and "length hs \<le> n"
  shows "read_hits n (hits_json E hn hs @ 93 # rest) = Some (map (hit_of E hn) hs, rest)"
  using assms(2-4)
proof (induction hs arbitrary: n)
  case (Cons r hs)
  then obtain n' where n: "n = Suc n'" by (cases n) auto
  have r: "read_hit (hit_json E hn r @ bs) = Some (hit_of E hn r, bs)" for bs
    using Cons.prems(2) by (intro read_hit_json [OF assms(1)]) auto
  show ?case
  proof (cases hs)
    case Nil
    then show ?thesis by (simp add: n hits_json_def r)
  next
    case (Cons r' hs')
    then have "hits_json E hn (r # hs) @ 93 # rest = hit_json E hn r @ 44 # hits_json E hn hs @ 93 # rest"
      by (simp add: hits_json_def)
    then show ?thesis using Cons.IH [of n'] Cons.prems Cons by (simp add: n r)
  qed
qed simp

lemma hit_json_length: "0 < length (hit_json E hn r)"
  by (simp add: hit_json_def)

lemma hits_json_length: "length hs \<le> length (hits_json E hn hs)"
proof (induction hs rule: induct_list012)
  case (3 r r' hs)
  then show ?case using hit_json_length [of E hn r] by (simp add: hits_json_def)
qed (use hit_json_length [of E hn] in \<open>auto simp: hits_json_def Suc_le_eq\<close>)

lemma hits_json_head: "hs \<noteq> [] \<Longrightarrow> \<exists>bs. hits_json E hn hs = 123 # bs"
  by (cases "map (hit_json E hn) hs" rule: commas.cases) (auto simp: hits_json_def hit_json_def)

lemma read_response_json:
  assumes "plain_floats E"
    and "\<forall>r \<in> set hs. \<forall>c \<in> set (best_payload (env_of E hn) (hd_coll hn) (sr_id r)). \<not> raw_control c"
  shows "read_response (ascii ''{\"results\":['' @ hits_json E hn hs @ ascii '']}'') = Some (map (hit_of E hn) hs)"
proof (cases "hs = []")
  case True
  then show ?thesis by (simp add: read_response_def hits_json_def skip_lit_def)
next
  case False
  let ?bs = "hits_json E hn hs @ 93 # [125]"
  have "read_hits (length ?bs) ?bs = Some (map (hit_of E hn) hs, [125])"
    using read_hits_json [OF assms(1) False assms(2), of "length ?bs" "[125]"] hits_json_length [of hs E hn] by simp
  moreover have "?bs \<noteq> [93, 125]" using hits_json_head [OF False, of E hn] by auto
  moreover have "ascii '']}'' = 93 # [125]" "ascii ''}'' = [125]" by simp_all
  ultimately show ?thesis unfolding read_response_def skip_lit_append by (simp only: option.case if_False) simp
qed

section \<open>Calls on a handle\<close>

datatype api_request = ApiAdd u64 fvec bytes | ApiRemove u64

fun api_exec :: "api_env \<Rightarrow> u64 \<Rightarrow> api_request \<Rightarrow> handles \<Rightarrow> (int \<times> handles) outcome" where
  "api_exec E h (ApiAdd i v p) G = lumina_add E h i (Some v) (int (length v)) (Some p) G"
| "api_exec E h (ApiRemove i) G = Returns (lumina_remove E h i G)"

fun api_run :: "api_env \<Rightarrow> u64 \<Rightarrow> api_request list \<Rightarrow> handles \<Rightarrow> (int list \<times> handles) outcome" where
  "api_run E h [] G = Returns ([], G)"
| "api_run E h (r # rs) G =
     (case api_exec E h r G of
        Out_Of_Bounds \<Rightarrow> Out_Of_Bounds
      | Returns (x, G) \<Rightarrow>
          (case api_run E h rs G of Out_Of_Bounds \<Rightarrow> Out_Of_Bounds | Returns (xs, G) \<Rightarrow> Returns (x # xs, G)))"

fun request_of :: "api_request \<Rightarrow> coll_request" where
  "request_of (ApiAdd i v p) = CAdd i (make_meta v p [])"
| "request_of (ApiRemove i) = CRemove i"

definition code_of :: "status_code \<Rightarrow> int" where
  "code_of s = (if status_ok s then 0 else -2)"

lemma make_meta_sel [simp]:
  "em_vec (make_meta v p ss) = v" "em_payload (make_meta v p ss) = p" "em_scalars (make_meta v p ss) = ss"
  by (simp_all add: make_meta_def)

lemma coll_exec_dim: "coll_exec V r c = (s, c') \<Longrightarrow> c_dim c' = c_dim c"
  by (cases r) (auto simp: collection_add_def collection_update_def collection_remove_def Let_def
    split: if_splits sum.splits prod.splits)

lemma handle_add_exec:
  assumes "c_dim (hd_coll hn) \<le> length v"
    and "coll_exec (env_of E hn) (CAdd i (make_meta (take (c_dim (hd_coll hn)) v) p [])) (hd_coll hn) = (s, c)"
  shows "handle_add E i v p hn = Returns (s, hn\<lparr>hd_coll := c\<rparr>)"
  using assms by (simp add: handle_add_def)

lemma api_exec_coll:
  assumes "G h = Some hn" and "req_ok V (c_dim (hd_coll hn)) (request_of r)" and "0 < c_dim (hd_coll hn)"
    and "coll_exec (env_of E hn) (request_of r) (hd_coll hn) = (s, c)"
  shows "api_exec E h r G = Returns (code_of s, G(h \<mapsto> hn\<lparr>hd_coll := c\<rparr>))"
proof (cases r)
  case (ApiAdd i v p)
  then have v: "length v = c_dim (hd_coll hn)" using assms(2) by (simp add: entry_ok_def)
  then have "handle_add E i v p hn = Returns (s, hn\<lparr>hd_coll := c\<rparr>)"
    using assms(4) ApiAdd by (intro handle_add_exec) simp_all
  then show ?thesis using ApiAdd v assms(1,3) by (simp add: lumina_add_def api_lookup_def code_of_def)
next
  case (ApiRemove i)
  then show ?thesis using assms(1,4) by (simp add: lumina_remove_def api_lookup_def code_of_def)
qed

lemma api_run_coll:
  assumes "0 < dim"
  shows "G h = Some hn \<Longrightarrow> c_dim (hd_coll hn) = dim \<Longrightarrow> \<forall>r \<in> set rs. req_ok V dim (request_of r) \<Longrightarrow>
    coll_run (env_of E hn) (map request_of rs) (hd_coll hn) = (ss, c) \<Longrightarrow>
    api_run E h rs G = Returns (map code_of ss, G(h \<mapsto> hn\<lparr>hd_coll := c\<rparr>))"
proof (induction rs arbitrary: G hn ss)
  case (Cons r rs)
  obtain s c1 where one: "coll_exec (env_of E hn) (request_of r) (hd_coll hn) = (s, c1)" by fastforce
  let ?hn = "hn\<lparr>hd_coll := c1\<rparr>"
  have ex: "api_exec E h r G = Returns (code_of s, G(h \<mapsto> ?hn))"
    using Cons.prems assms one by (intro api_exec_coll [where V = V]) auto
  obtain ss' where ss: "ss = s # ss'" "coll_run (env_of E hn) (map request_of rs) c1 = (ss', c)"
    using Cons.prems(4) one by (auto split: prod.splits)
  have env: "env_of E ?hn = env_of E hn" by (simp add: env_of_def)
  have "api_run E h rs (G(h \<mapsto> ?hn)) = Returns (map code_of ss', (G(h \<mapsto> ?hn))(h \<mapsto> ?hn\<lparr>hd_coll := c\<rparr>))"
    using coll_exec_dim [OF one] Cons.prems(2,3) ss(2) by (intro Cons.IH) (simp_all add: env)
  then show ?case by (simp add: ex ss(1) fun_upd_def cong: if_cong)
next
  case Nil
  then have "c = hd_coll hn" "ss = []" by simp_all
  then show ?case using Nil.prems(1) by (simp add: fun_upd_idem)
qed

section \<open>The table behind a handle\<close>

definition get_result :: "api_env \<Rightarrow> entry_meta option \<Rightarrow> int \<times> bytes option \<times> int option" where
  "get_result E e =
     (case e of
        None \<Rightarrow> (-2, None, None)
      | Some m \<Rightarrow>
          if api_malloc E (length (em_payload m) + 1)
          then (0, Some (em_payload m @ [0]), Some (sint (of_nat (length (em_payload m)) :: u32)))
          else (-3, None, None))"

lemma lumina_get_table:
  assumes "G h = Some hn" and "shows_table (env_of E hn) (hd_coll hn) items"
  shows "lumina_get E h i True True G = get_result E (items i)"
proof -
  have "collection_get (env_of E hn) (hd_coll hn) i = payload_result (items i)" using assms(2) by (simp add: shows_table_def)
  then show ?thesis
    using assms(1) by (cases "items i") (simp_all add: lumina_get_def api_lookup_def payload_result_def get_result_def alloc_c_string_def)
qed

text \<open>
  C9: a handle is a table of entries. Open a handle on an empty directory, at an address that is
  not in use, and make any sequence of adds and removals that fit the log, with rows of the
  collection's dimension. Every call returns 0 or -2 as the abstract table accepts or refuses it,
  no call reads out of bounds, afterwards \<^verbatim>\<open>lumina_get\<close> returns the payloads of the table, and
  all other handles are untouched.
\<close>

theorem c_api_implements_table:
  assumes "good_env (api_coll E (metric_from_int metric))" and "d (dir @ ascii ''/snap/MANIFEST'') = None"
    and "G addr = None" and "0 < dim"
    and "\<forall>r \<in> set rs. req_ok (api_coll E (metric_from_int metric)) (nat dim) (request_of r)"
    and "sum_list (map (req_cost (api_coll E (metric_from_int metric)) \<circ> request_of) rs) < 2 ^ 63"
  defines "T \<equiv> table_run (api_coll E (metric_from_int metric)) (map request_of rs) (Map.empty, {})"
  shows "\<exists>G0 G'. lumina_open E addr [] d (Some dir) dim metric G = (Some addr, G0) \<and>
    api_run E addr rs G0 = Returns (map code_of (fst T), G') \<and>
    (\<forall>i. lumina_get E addr i True True G' = get_result E (fst (snd T) i)) \<and>
    (\<forall>h. h \<noteq> addr \<longrightarrow> G' h = G h)"
proof -
  let ?m = "metric_from_int metric"
  let ?V = "api_coll E ?m"
  obtain c0 where c0: "collection_open ?V [] d (new_collection dir (nat dim) 16 200) = (kOk, c0)"
    "coll_inv c0 [] Map.empty {}" "c_dim c0 = nat dim" "coll_eof c0 = 0"
    using collection_open_fresh [of ?V d dir, OF assms(1,2)] by blast
  let ?hn = "\<lparr>hd_coll = c0, hd_metric = ?m\<rparr>"
  have env: "env_of E ?hn = ?V" by (simp add: env_of_def)
  have req: "\<forall>r \<in> set (map request_of rs). req_ok ?V (c_dim c0) r" using assms(5) c0(3) by simp
  from coll_run_ok [OF assms(1) c0(2) req] assms(6) c0(4) obtain c fs where
    run: "coll_run ?V (map request_of rs) c0 = (fst T, c)" "coll_inv c ([] @ fs) (fst (snd T)) (snd (snd T))"
    unfolding T_def by (auto simp: comp_def)
  let ?G0 = "G(addr \<mapsto> ?hn)"
  have "lumina_open E addr [] d (Some dir) dim metric G = (Some addr, ?G0)"
    using assms(3,4) c0(1) by (simp add: lumina_open_def Let_def status_ok_def)
  moreover have "api_run E addr rs ?G0 = Returns (map code_of (fst T), ?G0(addr \<mapsto> ?hn\<lparr>hd_coll := c\<rparr>))"
    using assms(4,5) c0(3) run(1) env by (intro api_run_coll [where dim = "nat dim" and V = ?V]) simp_all
  moreover have "shows_table (env_of E (?hn\<lparr>hd_coll := c\<rparr>)) (hd_coll (?hn\<lparr>hd_coll := c\<rparr>)) (fst (snd T))"
    using coll_inv_shows [OF assms(1) run(2)] by (simp add: env_of_def)
  ultimately show ?thesis
    using lumina_get_table [of "?G0(addr \<mapsto> ?hn\<lparr>hd_coll := c\<rparr>)" addr "?hn\<lparr>hd_coll := c\<rparr>"] by auto
qed

definition sample_api :: api_env where
  "sample_api = \<lparr>api_coll = (\<lambda>_. sample_env), api_fmt = (\<lambda>_. [48]), api_malloc = (\<lambda>_. True)\<rparr>"

lemma sample_api_ok: "good_env (api_coll sample_api m)"
  by (simp add: sample_api_def good_sample_env)

definition api_requests :: "api_request list" where
  "api_requests = [ApiAdd 7 [1] [104], ApiAdd 7 [2] [], ApiAdd 9 [2] [], ApiRemove 9]"

lemma api_requests_ok:
  "\<forall>r \<in> set api_requests. req_ok sample_env 1 (request_of r)"
  "sum_list (map (req_cost sample_env \<circ> request_of) api_requests) \<le> 200"
  by (simp_all add: api_requests_def make_meta_def entry_ok_def fits_def key_of_small entry_bytes_def sample_env_def
      encode_entry_meta_def meta_flags_def put_defs em_consts)

lemma api_requests_run:
  "table_run sample_env (map request_of api_requests) (Map.empty, {}) =
    ([kOk, kInvalidArgument, kOk, kOk], [7 \<mapsto> make_meta [1] [104] []], {7, 9})"
  by (simp add: api_requests_def make_meta_def table_put_def entry_status_def status_ok_def sample_env_def encode_entry_meta_def
      meta_flags_def put_defs em_consts insert_commute)

theorem c_api_implements_table_witness:
  "\<exists>G0 G'. lumina_open sample_api 4096 [] Map.empty (Some [100]) 1 0 Map.empty = (Some 4096, G0) \<and>
    api_run sample_api 4096 api_requests G0 = Returns ([0, -2, 0, 0], G') \<and>
    lumina_get sample_api 4096 7 True True G' = (0, Some [104, 0], Some 1) \<and>
    lumina_get sample_api 4096 9 True True G' = (-2, None, None)"
proof -
  have "api_coll sample_api m = sample_env" for m by (simp add: sample_api_def)
  then have "\<exists>G0 G'. lumina_open sample_api 4096 [] Map.empty (Some [100]) 1 0 Map.empty = (Some 4096, G0) \<and>
    api_run sample_api 4096 api_requests G0 = Returns (map code_of [kOk, kInvalidArgument, kOk, kOk], G') \<and>
    (\<forall>i. lumina_get sample_api 4096 i True True G' = get_result sample_api ([7 \<mapsto> make_meta [1] [104] []] i))"
    using c_api_implements_table [OF sample_api_ok, of Map.empty "[100]" Map.empty 4096 1 api_requests 0]
      api_requests_ok api_requests_run by auto
  then show ?thesis
    by (elim exE conjE) (auto simp: get_result_def sample_api_def code_of_def status_ok_def intro!: exI)
qed

section \<open>Batches\<close>

text \<open>The requests of a batch: id, row of \<open>dim\<close> floats, payload (a null payload is empty).\<close>

definition batch_request :: "u64 list \<Rightarrow> fvec \<Rightarrow> bytes option list \<Rightarrow> nat \<Rightarrow> nat \<Rightarrow> coll_request" where
  "batch_request ids rows payloads dim j =
     CAdd (ids ! j) (make_meta (take dim (drop (j * dim) rows)) (case payloads ! j of Some p \<Rightarrow> p | None \<Rightarrow> []) [])"

text \<open>The leading requests that the table accepts: their number and the table after them.\<close>

fun table_leading :: "coll_env \<Rightarrow> coll_request list \<Rightarrow> table \<Rightarrow> nat \<times> table" where
  "table_leading V [] T = (0, T)"
| "table_leading V (r # rs) T =
     (let (s, T') = table_step V r T
      in if status_ok s then (let (n, T'') = table_leading V rs T' in (Suc n, T'')) else (0, T))"

lemma row_length: "length rows = n * dim \<Longrightarrow> j < n \<Longrightarrow> dim \<le> length (drop (j * dim) rows)" for n :: nat
proof -
  assume v: "length rows = n * dim" and "j < n"
  then have "(j + 1) * dim \<le> n * dim" by (intro mult_le_mono1) simp
  then show ?thesis using v by simp
qed

lemma add_loop_table:
  assumes "good_env (env_of E hn0)" and "length ids = n" and "length payloads = n" and "length rows = n * dim"
  shows "j + left = n \<Longrightarrow> env_of E hn = env_of E hn0 \<Longrightarrow> coll_inv (hd_coll hn) es items K \<Longrightarrow> c_dim (hd_coll hn) = dim \<Longrightarrow>
    \<forall>r \<in> set (map (batch_request ids rows payloads dim) [j..<n]). req_ok (env_of E hn0) dim r \<Longrightarrow>
    coll_eof (hd_coll hn) + sum_list (map (req_cost (env_of E hn0)) (map (batch_request ids rows payloads dim) [j..<n])) < 2 ^ 63 \<Longrightarrow>
    \<exists>c fs. add_loop E ids rows payloads dim j left hn =
        Returns (if fst (table_leading (env_of E hn0) (map (batch_request ids rows payloads dim) [j..<n]) (items, K)) = left then 0 else -2,
          hn\<lparr>hd_coll := c\<rparr>) \<and>
      coll_inv c fs (fst (snd (table_leading (env_of E hn0) (map (batch_request ids rows payloads dim) [j..<n]) (items, K))))
        (snd (snd (table_leading (env_of E hn0) (map (batch_request ids rows payloads dim) [j..<n]) (items, K))))"
proof (induction left arbitrary: j hn es items K)
  case 0
  then show ?case by (intro exI [of _ "hd_coll hn"] exI [of _ es]) simp
next
  case (Suc left)
  let ?V = "env_of E hn0"
  define f where "f = batch_request ids rows payloads dim"
  have j: "j < n" and upt: "[j..<n] = j # [Suc j..<n]" using Suc.prems(1) by (simp_all add: upt_rec)
  have reqs: "req_ok ?V dim (f j)" "\<forall>r \<in> set (map f [Suc j..<n]). req_ok ?V dim r"
    and cost: "coll_eof (hd_coll hn) + (req_cost ?V (f j) + sum_list (map (req_cost ?V) (map f [Suc j..<n]))) < 2 ^ 63"
    using Suc.prems(5,6) by (simp_all add: f_def [symmetric] upt)
  obtain c1 fs1 where one: "coll_exec ?V (f j) (hd_coll hn) = (fst (table_step ?V (f j) (items, K)), c1)"
    "coll_inv c1 (es @ fs1) (fst (snd (table_step ?V (f j) (items, K)))) (snd (snd (table_step ?V (f j) (items, K))))"
    "grew (hd_coll hn) c1 (req_cost ?V (f j))"
    by (rule coll_exec_ok [OF assms(1) Suc.prems(3), of "f j"]) (use reqs(1) cost Suc.prems(4) in auto)
  let ?s = "fst (table_step ?V (f j) (items, K))" and ?T = "snd (table_step ?V (f j) (items, K))" and ?hn = "hn\<lparr>hd_coll := c1\<rparr>"
  have add: "handle_add E (ids ! j) (drop (j * dim) rows) (case payloads ! j of Some p \<Rightarrow> p | None \<Rightarrow> []) hn = Returns (?s, ?hn)"
    using handle_add_exec [of hn "drop (j * dim) rows" E "ids ! j" "case payloads ! j of Some p \<Rightarrow> p | None \<Rightarrow> []" ?s c1]
      one(1) row_length [OF assms(4) j] Suc.prems(2,4) by (simp add: f_def batch_request_def)
  have lead: "table_leading ?V (map f [j..<n]) (items, K) = (if status_ok ?s
      then (Suc (fst (table_leading ?V (map f [Suc j..<n]) ?T)), snd (table_leading ?V (map f [Suc j..<n]) ?T)) else (0, items, K))"
    by (simp add: upt split_def Let_def)
  have loop: "add_loop E ids rows payloads dim j (Suc left) hn =
      (if \<not> status_ok ?s then Returns (-2, ?hn) else add_loop E ids rows payloads dim (Suc j) left ?hn)"
    using add j assms(2,3) by simp
  show ?case
  proof (cases "status_ok ?s")
    case True
    have "env_of E ?hn = ?V" "c_dim (hd_coll ?hn) = dim"
      "coll_eof (hd_coll ?hn) + sum_list (map (req_cost ?V) (map f [Suc j..<n])) < 2 ^ 63"
      using Suc.prems(2,4) one(3) cost by (simp_all add: env_of_def grew_def coll_eof_def)
    moreover have "coll_inv (hd_coll ?hn) (es @ fs1) (fst ?T) (snd ?T)" "Suc j + left = n" using one(2) Suc.prems(1) by simp_all
    ultimately obtain c fs where
      "add_loop E ids rows payloads dim (Suc j) left ?hn =
        Returns (if fst (table_leading ?V (map f [Suc j..<n]) ?T) = left then 0 else -2, ?hn\<lparr>hd_coll := c\<rparr>)"
      "coll_inv c fs (fst (snd (table_leading ?V (map f [Suc j..<n]) ?T))) (snd (snd (table_leading ?V (map f [Suc j..<n]) ?T)))"
      using Suc.IH [of "Suc j" ?hn "es @ fs1" "fst ?T" "snd ?T"] reqs(2) unfolding f_def [symmetric] by auto
    then show ?thesis
      unfolding f_def [symmetric] lead loop using True by (intro exI [of _ c] exI [of _ fs]) simp
  next
    case False
    have "?T = (items, K)" using False by (auto simp: f_def batch_request_def table_put_def split: if_splits)
    then show ?thesis
      unfolding f_def [symmetric] lead loop using False one(2) by (intro exI [of _ c1] exI [of _ "es @ fs1"]) simp
  qed
qed

text \<open>
  C22: a batch stops at the first failure. With one id, one payload and one row of the collection's
  dimension per entry, \<^verbatim>\<open>lumina_add_batch\<close> stores exactly the leading entries the table accepts,
  returns 0 if these are all of them and -2 otherwise, and never reads out of bounds.
\<close>

theorem add_batch_stops_at_failure:
  assumes "G h = Some hn" and "good_env (env_of E hn)" and "coll_inv (hd_coll hn) es items K" and "0 < c_dim (hd_coll hn)"
    and "0 < n" and "length ids = n" and "length payloads = n" and "length rows = n * c_dim (hd_coll hn)"
    and "\<forall>j < n. req_ok (env_of E hn) (c_dim (hd_coll hn)) (batch_request ids rows payloads (c_dim (hd_coll hn)) j)"
    and "coll_eof (hd_coll hn) +
      (\<Sum>j \<leftarrow> [0..<n]. req_cost (env_of E hn) (batch_request ids rows payloads (c_dim (hd_coll hn)) j)) < 2 ^ 63"
  defines "T \<equiv> table_leading (env_of E hn) (map (batch_request ids rows payloads (c_dim (hd_coll hn))) [0..<n]) (items, K)"
  shows "\<exists>G'. lumina_add_batch E h (Some ids) (Some rows) (int n) (int (c_dim (hd_coll hn))) (Some payloads) G =
      Returns (if fst T = n then 0 else -2, G') \<and>
    (\<forall>i. lumina_get E h i True True G' = get_result E (fst (snd T) i)) \<and> (\<forall>h'. h' \<noteq> h \<longrightarrow> G' h' = G h')"
proof -
  let ?d = "c_dim (hd_coll hn)"
  have "\<forall>r \<in> set (map (batch_request ids rows payloads ?d) [0..<n]). req_ok (env_of E hn) ?d r" using assms(9) by simp
  from add_loop_table [OF assms(2,6,7,8), of 0 n hn es items K, OF _ refl assms(3) refl this] assms(10)
  obtain c fs where loop: "add_loop E ids rows payloads ?d 0 n hn = Returns (if fst T = n then 0 else -2, hn\<lparr>hd_coll := c\<rparr>)"
    and inv: "coll_inv c fs (fst (snd T)) (snd (snd T))"
    unfolding T_def by (auto simp: comp_def)
  let ?G = "G(h \<mapsto> hn\<lparr>hd_coll := c\<rparr>)"
  have "lumina_add_batch E h (Some ids) (Some rows) (int n) (int ?d) (Some payloads) G =
      Returns (if fst T = n then 0 else -2, ?G)"
    using assms(1,4,5) loop by (simp add: lumina_add_batch_def api_lookup_def)
  moreover have "shows_table (env_of E (hn\<lparr>hd_coll := c\<rparr>)) (hd_coll (hn\<lparr>hd_coll := c\<rparr>)) (fst (snd T))"
    using coll_inv_shows [OF assms(2) inv] by (simp add: env_of_def)
  ultimately show ?thesis using lumina_get_table [of ?G h "hn\<lparr>hd_coll := c\<rparr>"] by auto
qed

text \<open>A handle with one entry, on which the witnesses call.\<close>

definition sample_handle :: handle where
  "sample_handle = \<lparr>hd_coll = sample_coll, hd_metric = ML2\<rparr>"

lemma sample_handle_simps [simp]:
  "hd_coll sample_handle = sample_coll" "env_of sample_api sample_handle = sample_env"
  by (simp_all add: sample_handle_def env_of_def sample_api_def)

lemma key_of_3: "key_of 3 = [51]"
  by (simp add: key_of_def to_string.simps)

definition sample_batch :: "nat \<Rightarrow> coll_request" where
  "sample_batch = batch_request [3, 7] [5, 6] [Some [97], None] (Suc 0)"

lemma sample_batch_simps:
  "sample_batch 0 = CAdd 3 (make_meta [5] [97] [])" "sample_batch (Suc 0) = CAdd 7 (make_meta [6] [] [])"
  by (simp_all add: sample_batch_def batch_request_def)

lemma upt_2: "[0..<2] = [0, Suc 0]"
  by (simp add: upt_rec)

lemma all_less_2: "(\<forall>j < 2. P j) \<longleftrightarrow> P 0 \<and> P (Suc 0)" for P :: "nat \<Rightarrow> bool"
  by (auto simp: less_2_cases_iff)

lemma sample_batch_ok:
  "\<forall>j < 2. req_ok sample_env (Suc 0) (sample_batch j)" "(\<Sum>j \<leftarrow> [0..<2]. req_cost sample_env (sample_batch j)) \<le> 200"
  by (simp_all add: all_less_2 upt_2 sample_batch_simps make_meta_def entry_ok_def fits_def key_of_small key_of_3
      entry_bytes_def sample_env_def encode_entry_meta_def meta_flags_def put_defs em_consts)

lemma sample_batch_leading:
  "table_leading sample_env (map sample_batch [0..<2]) ([7 \<mapsto> sample_entry], {7, 9}) =
     (1, [7 \<mapsto> sample_entry, 3 \<mapsto> make_meta [5] [97] []], {3, 7, 9})"
  by (simp add: upt_2 sample_batch_simps make_meta_def table_put_def entry_status_def status_ok_def sample_env_def
      encode_entry_meta_def meta_flags_def put_defs em_consts)

theorem add_batch_stops_at_failure_witness:
  "\<exists>G'. lumina_add_batch sample_api 4096 (Some [3, 7]) (Some [5, 6]) 2 1 (Some [Some [97], None]) [4096 \<mapsto> sample_handle] = Returns (-2, G') \<and>
     lumina_get sample_api 4096 3 True True G' = (0, Some [97, 0], Some 1)"
proof (rule sample_coll_inv)
  fix es
  assume inv: "coll_inv sample_coll es [7 \<mapsto> sample_entry] {7, 9}" "c_dim sample_coll = 1" "coll_eof sample_coll \<le> 200"
  have "\<exists>G'. lumina_add_batch sample_api 4096 (Some [3, 7]) (Some [5, 6]) 2 1 (Some [Some [97], None]) [4096 \<mapsto> sample_handle] = Returns (-2, G') \<and>
     lumina_get sample_api 4096 3 True True G' = get_result sample_api (Some (make_meta [5] [97] []))"
    using add_batch_stops_at_failure [of "[4096 \<mapsto> sample_handle]" 4096 sample_handle sample_api es "[7 \<mapsto> sample_entry]" "{7, 9}"
        2 "[3, 7]" "[Some [97], None]" "[5, 6]"] inv sample_batch_ok good_sample_env sample_batch_leading
    by (simp add: sample_batch_def [symmetric]) (elim exE conjE, auto)
  then show ?thesis by (elim exE conjE) (auto simp: get_result_def sample_api_def)
qed

section \<open>Searching\<close>

text \<open>
  C29: search responses can be decoded. If no stored payload holds a control character other than
  tab, line feed and carriage return, the response to a search is a JSON text from which a client
  reads at most \<open>top_k\<close> hits (one if \<open>top_k\<close> is not positive) with different ids; each hit is an entry
  of the table, with its payload and the text of its distance to the query.
\<close>

theorem search_response_decodes:
  assumes "G h = Some hn" and "good_env (env_of E hn)" and "coll_inv (hd_coll hn) es items K" and "plain_floats E"
    and "\<forall>n. api_malloc E n" and "length q = c_dim (hd_coll hn)" and "0 < length q"
    and "\<forall>i m. items i = Some m \<longrightarrow> \<not> (\<exists>c \<in> set (em_payload m). raw_control c)"
  shows "\<exists>json hs. lumina_search E h (Some q) (int (length q)) top_k ef G = Returns (Some (json @ [0])) \<and>
    read_response json = Some hs \<and> length hs \<le> nat (max 1 top_k) \<and> distinct (map fst hs) \<and>
    (\<forall>(i, dist, p) \<in> set hs. \<exists>m. items i = Some m \<and> p = em_payload m \<and>
       dist = api_fmt E (hl_dist (env_hnsw (env_of E hn)) q (em_vec m)))"
proof -
  let ?V = "env_of E hn" and ?c = "hd_coll hn" and ?k = "nat (max 1 top_k)"
  define hits where "hits = collection_search ?V ?c (Some q) ?k \<lparr>so_ef_search = nat (max 1 ef), so_filter_mode = ModeNone\<rparr>"
  have ok: "hits_ok ?V items q ?k hits"
    unfolding hits_def collection_search_def search_top_k_def using index_hits_ok(1) [OF assms(2,3)] by (simp add: hits_ok_def)
  have pay: "best_payload ?V ?c (sr_id r) = em_payload m" if "items (sr_id r) = Some m" for r m
    using collection_get_ok [OF assms(2,3), of "sr_id r"] that by (simp add: best_payload_def payload_result_def)
  let ?text = "ascii ''{\"results\":['' @ hits_json E hn hits @ ascii '']}''"
  have "handle_search E hn q top_k ef = Returns hits" using assms(6) by (simp add: handle_search_def Let_def hits_def)
  then have "lumina_search E h (Some q) (int (length q)) top_k ef G = Returns (Some (?text @ [0]))"
    unfolding lumina_search_def api_lookup_def alloc_c_string_def using assms(1,5,7) by simp
  moreover have "read_response ?text = Some (map (hit_of E hn) hits)"
    using ok pay assms(8) by (intro read_response_json [OF assms(4)]) (fastforce simp: hits_ok_def)
  moreover have "length (map (hit_of E hn) hits) \<le> ?k" "distinct (map fst (map (hit_of E hn) hits))"
    using ok by (simp_all add: hits_ok_def hit_of_def comp_def)
  moreover have "\<forall>(i, dist, p) \<in> set (map (hit_of E hn) hits). \<exists>m. items i = Some m \<and> p = em_payload m \<and>
       dist = api_fmt E (hl_dist (env_hnsw ?V) q (em_vec m))"
    using ok pay by (fastforce simp: hits_ok_def hit_of_def)
  ultimately show ?thesis by blast
qed

theorem search_response_decodes_witness:
  "\<exists>json hs. lumina_search sample_api 4096 (Some [3]) 1 5 10 [4096 \<mapsto> sample_handle] = Returns (Some (json @ [0])) \<and>
     read_response json = Some hs \<and> fst ` set hs \<subseteq> {7}"
proof (rule sample_coll_inv)
  fix es
  assume inv: "coll_inv sample_coll es [7 \<mapsto> sample_entry] {7, 9}" "c_dim sample_coll = 1"
  have "plain_floats sample_api" "\<forall>n. api_malloc sample_api n" by (simp_all add: plain_floats_def sample_api_def)
  moreover have "\<forall>i m. [7 \<mapsto> sample_entry] i = Some m \<longrightarrow> \<not> (\<exists>c \<in> set (em_payload m). raw_control c)"
    by (simp add: sample_entry_def raw_control_def)
  ultimately obtain json hs where r: "lumina_search sample_api 4096 (Some [3]) 1 5 10 [4096 \<mapsto> sample_handle] = Returns (Some (json @ [0]))"
    "read_response json = Some hs" "\<forall>(i, dist, p) \<in> set hs. \<exists>m. [7 \<mapsto> sample_entry] i = Some m \<and> p = em_payload m \<and>
       dist = api_fmt sample_api (hl_dist (env_hnsw sample_env) [3] (em_vec m))"
    using search_response_decodes [of "[4096 \<mapsto> sample_handle]" 4096 sample_handle sample_api es "[7 \<mapsto> sample_entry]" "{7, 9}" "[3]" 5 10]
      inv good_sample_env by auto
  then have "fst ` set hs \<subseteq> {7}" by (fastforce split: if_splits)
  with r show ?thesis by blast
qed

text \<open>
  payloads in JSON. The escaped form of a payload, followed by the closing quote, reads back as
  the payload exactly if it holds no control character other than tab, line feed and carriage
  return; otherwise it is not a JSON string.
\<close>

theorem json_escape_decodes:
  "json_body (json_escape s @ 34 # rest) = (if list_ex raw_control s then None else Some (s, rest))"
  by (simp add: json_body_escape list_ex_iff)

section \<open>Bad handles and short buffers\<close>

text \<open>
  a closed handle is dead. Closing removes the handle from the table and nothing else; every
  later call on it fails and changes nothing.
\<close>

theorem closed_handle_rejected:
  "lumina_close h G = (if G h = None then -1 else 0, G(h := None)) \<and>
   (let G' = G(h := None) in
      lumina_close h G' = (-1, G') \<and> lumina_add E h i v dim p G' = Returns (-1, G') \<and>
      lumina_add_batch E h ids vs n dim ps G' = Returns (-1, G') \<and> lumina_remove E h i G' = (-1, G') \<and>
      lumina_search E h v dim top_k ef G' = Returns (alloc_c_string E bad_args) \<and>
      lumina_search_batch E h v n dim top_k ef G' = Returns (alloc_c_string E bad_args) \<and>
      lumina_get E h i want_payload want_len G' = (-1, None, None) \<and> lumina_snapshot E h d G' = (-1, G', d))"
proof -
  have "G(h := None) = G" if "G h = None" using that by auto
  then show ?thesis
    by (simp add: lumina_close_def lumina_add_def lumina_add_batch_def lumina_remove_def lumina_search_def
      lumina_search_batch_def lumina_get_def lumina_snapshot_def api_lookup_def)
qed

text \<open>
  the dimension argument protects nothing. Adding a new id with a buffer of \<open>dim\<close> floats reads
  past its end exactly if \<open>dim\<close> is less than the dimension the handle was opened with: the
  argument is only compared with 0.
\<close>

theorem short_buffer_overread:
  assumes "G h = Some hn" and "\<not> hnsw_contains (c_index (hd_coll hn)) i" and "0 < length v"
  shows "lumina_add E h i (Some v) (int (length v)) (Some p) G = Out_Of_Bounds \<longleftrightarrow> length v < c_dim (hd_coll hn)"
  using assms by (auto simp: lumina_add_def api_lookup_def handle_add_def Let_def split: prod.splits)

theorem short_buffer_overread_witness:
  "lumina_add sample_api 4096 5 (Some [1]) 1 (Some [])
     [4096 \<mapsto> \<lparr>hd_coll = new_collection [100] 2 16 200, hd_metric = ML2\<rparr>] = Out_Of_Bounds"
  using short_buffer_overread [of "[4096 \<mapsto> \<lparr>hd_coll = new_collection [100] 2 16 200, hd_metric = ML2\<rparr>]" 4096
      "\<lparr>hd_coll = new_collection [100] 2 16 200, hd_metric = ML2\<rparr>" 5 "[1]" sample_api "[]"]
  by (simp add: new_collection_def new_hnsw_def hnsw_contains_def)

end
