(* ===== verification/Engine_Snapshot.thy ===== *)
theory Engine_Snapshot
  imports Engine_Theorems
begin

text \<open>
  Snapshots of the engine: an open that loads a snapshot and replays only the tail of the log
  reaches the same store as a full replay. The exception is a snapshot of a store that never
  wrote a record, whose watermark lies before the file header.
\<close>

section \<open>Opening an undamaged file\<close>

lemma log_open_whole:
  assumes "benign E" and "wf_log lg es" and "0 < l_eof lg" and "l_eof lg < 2 ^ 63"
  shows "log_open E (f_data (l_file lg)) new_log = (kOk, opened (l_legacy lg) (f_data (l_file lg)))"
proof -
  let ?l = "l_legacy lg" and ?r = "(OpPut, [], []) :: record_kv" and ?disk = "f_data (l_file lg)"
  let ?head = "if ?l then [] else file_header"
  have data: "?disk = ?head @ log_bytes ?l es" and fit: "\<forall>r \<in> set (es @ [?r]). fits_rec r"
    and len: "length ?disk = l_eof lg"
    using assms(2,3) by (auto simp: wf_log_def log_head_def fits_rec_def fits_def)
  have zero: "?disk = ?head @ log_bytes ?l es @ take 0 (encode_frame ?l ?r)" using data by simp
  have "log_open E ?disk new_log = repair_truncate_tail E (opened ?l ?disk)"
  proof (cases ?l)
    case True
    have "?disk \<noteq> []" using len assms(3) by auto
    then show ?thesis
      using True data legacy_first_byte [of es 0 ?r] by (simp add: log_open_legacy [OF assms(1)])
  next
    case False
    then show ?thesis using log_open_v2 [OF assms(1), of ?disk "log_bytes ?l es"] data by simp
  qed
  moreover have "0 < length (encode_frame ?l ?r)" by simp
  ultimately show ?thesis
    using repair_opened_torn [OF assms(1) fit _ refl zero, unfolded len, OF _ assms(4)] data by simp
qed

section \<open>Taking a snapshot\<close>

lemma plain_snap_filename: "plain_name (snap_filename seq)"
proof -
  have "\<forall>c \<in> set (to_string (unat seq)). \<not> is_space c" using to_string_digits digit_not_space by blast
  moreover have "\<forall>c \<in> set (ascii ''snap-'') \<union> set (ascii ''.snap''). \<not> is_space c" by (simp add: is_space_def)
  ultimately show ?thesis unfolding plain_name_def snap_filename_def by (auto simp del: ascii_simps)
qed

lemma snapshot_paths_differ:
  "dir @ ascii ''/MANIFEST'' \<noteq> dir @ ascii ''/'' @ snap_filename seq"
  "dir @ ascii ''/MANIFEST'' \<noteq> dir @ ascii ''/'' @ snap_filename seq @ ascii ''.tmp''"
  "dir @ ascii ''/MANIFEST'' @ ascii ''.tmp'' \<noteq> dir @ ascii ''/'' @ snap_filename seq"
  "dir @ ascii ''/'' @ snap_filename seq \<noteq> dir @ ascii ''/'' @ snap_filename seq @ ascii ''.tmp''"
  by (simp_all add: snap_filename_def)

lemma index_snapshot_fits:
  assumes "benign_env V" and "engine_holds st es" and "length (e_index st) \<le> kMaxEntries"
  shows "snapshot_fits (l_eof (e_log st)) (index_dump (env_ord V) (e_index st))"
proof -
  have ord: "is_order (env_ord V)" using assms(1) by (simp add: benign_env_def)
  have set: "set (index_dump (env_ord V) (e_index st)) = set (e_index st)"
    using ord by (metis index_dump_def is_order_def mset_eq_setD)
  have ent: "length k \<le> kMaxKeyLen \<and> off < 2 ^ 64" if mem: "(k, off) \<in> set (e_index st)" for k off
  proof -
    obtain v where rd: "read_value_at (env_wal V) (e_log st) off = Inr (k, v)" and "store_of es k = Some v"
      using index_entry_reads [OF assms(1,2) mem] by auto
    then have "length k \<le> kMaxKeyLen"
      using store_of_keys_fit [of es k v] engine_holds_log(1) [OF assms(2)] by (simp add: wf_log_def kMaxKeyLen_def)
    moreover have "off < 2 ^ 64"
    proof -
      have "index_get (e_index st) k = Some off"
        using engine_holds_log(5) [OF assms(2)] mem by (simp add: index_get_def index_inv_def)
      then obtain i where "i < length es" "off = record_offset (e_log st) es i"
        using kv.offset_fold_sound [where f = "record_offset (e_log st) es" and es = es and k = k] assms(2)
        by (auto simp: engine_holds_def kv.indexed_def kv.tagged_def split: option.splits)
      moreover have "record_offset (e_log st) es i \<le> record_offset (e_log st) es (length es)"
        by (metis append_take_drop_id le_add1 length_append log_bytes_simps(3) nat_add_left_cancel_le
            record_offset_def take_all_iff order_refl)
      ultimately show ?thesis
        using record_offset_end [OF engine_holds_log(1) [OF assms(2)]] engine_holds_log(3) [OF assms(2)] by simp
    qed
    ultimately show ?thesis by simp
  qed
  then show ?thesis
    using assms(3) engine_holds_log(3) [OF assms(2)] set
      index_dump_get(3) [OF ord engine_holds_log(5) [OF assms(2)]]
    by (auto simp: snapshot_fits_def)
qed

lemma engine_snapshot_ok:
  assumes "benign_env V" and "engine_holds st es" and "length (e_index st) \<le> kMaxEntries"
    and "\<forall>l \<in> set (manifest_old d (manifest_path st)). parse_line l \<noteq> None"
  obtains st' d' entry buf where "engine_snapshot V d st = (kOk, st', d')" and "engine_holds st' es"
    and "e_log st' = e_log st" and "e_opts st' = e_opts st" and "e_index st' = e_index st"
    and "read_manifest_latest (env_man V) d' (manifest_path st) = Inr entry"
    and "d' (o_snapshot_dir (e_opts st) @ ascii ''/'' @ m_filename entry) = Some buf"
    and "parse_snapshot buf = Inr \<lparr>sn_wal_offset = l_eof (e_log st), sn_index = index_dump (env_ord V) (e_index st)\<rparr>"
proof -
  let ?seq = "of_nat (sys_time (env_snap V)) * 1000 + (e_snap_seq st mod 1000) :: u64"
  let ?dir = "o_snapshot_dir (e_opts st)"
  let ?final = "?dir @ ascii ''/'' @ snap_filename ?seq"
  let ?tmp = "?final @ ascii ''.tmp''"
  let ?st1 = "st\<lparr>e_durable := l_eof (e_log st)\<rparr>"
  let ?st' = "?st1\<lparr>e_snap_seq := e_snap_seq st + 1\<rparr>"
  let ?entry = "\<lparr>m_seq = ?seq, m_wal_offset = of_nat (l_eof (e_log st)), m_filename = snap_filename ?seq\<rparr>"
  note lg = engine_holds_log [OF assms(2)]
  have E: "benign (env_snap V)" "benign (env_man V)" "is_order (env_ord V)" "sys_mkdir (env_snap V)" "sys_rename (env_snap V)"
    "sys_stream (env_man V)"
    using assms(1) by (auto simp: benign_env_def benign_def)
  obtain buf where wr: "write_snapshot (env_snap V) ?tmp (l_eof (e_log st)) (index_dump (env_ord V) (e_index st)) d =
      (kOk, d(?tmp \<mapsto> buf))"
    and parse: "parse_snapshot buf = Inr \<lparr>sn_wal_offset = l_eof (e_log st), sn_index = index_dump (env_ord V) (e_index st)\<rparr>"
    using write_snapshot_benign [OF E(1) index_snapshot_fits [OF assms(1-3)] index_dump_get(2) [OF E(3) lg(5)]] by blast
  let ?d1 = "d(?tmp := None, ?final := Some buf)"
  let ?mp = "manifest_path st"
  let ?d' = "(?d1(?mp @ ascii ''.tmp'' := None))(?mp \<mapsto> manifest_text (manifest_old ?d1 ?mp @ [manifest_line ?entry]))"
  have fs: "engine_fsync V st = (kOk, ?st1)"
    using engine_fsync_ok [OF assms(1) lg(2)] lg(4) by simp
  have snap: "engine_snapshot V d st = (kOk, ?st', ?d')"
    using E wr write_manifest_benign [OF E(2), of ?mp ?entry ?d1]
    by (simp add: engine_snapshot_def fs status_ok_def Let_def log_size_def manifest_path_def)
  have old: "manifest_old ?d1 ?mp = manifest_old d ?mp"
    using snapshot_paths_differ [of ?dir ?seq] by (simp add: manifest_old_def manifest_path_def)
  have "read_manifest_latest (env_man V) ?d' ?mp = Inr ?entry"
    by (rule read_manifest_text [of _ _ d ?mp]) (use E(6) assms(4) old plain_snap_filename in simp_all)
  moreover have "?d' (?dir @ ascii ''/'' @ m_filename ?entry) = Some buf"
    using snapshot_paths_differ [of ?dir ?seq] by (auto simp: manifest_path_def)
  moreover have "engine_holds ?st' es" using assms(2) by (simp add: engine_holds_def)
  ultimately show ?thesis using snap parse by (intro that [of ?st' ?d' ?entry buf]) simp_all
qed

section \<open>Reopening\<close>

lemma engine_open_snapshot:
  assumes "benign_env V" and "log_open (env_wal V) wal new_log = (kOk, lg)"
    and "read_manifest_latest (env_man V) d (o_snapshot_dir opts @ ascii ''/MANIFEST'') = Inr entry"
    and "d (o_snapshot_dir opts @ ascii ''/'' @ m_filename entry) = Some buf"
    and "parse_snapshot buf = Inr meta" and "sn_wal_offset meta \<le> l_eof lg"
  shows "engine_open V wal d (new_engine opts) =
    (let (s, m) = iterate_from (env_wal V) lg (sn_wal_offset meta) apply_cb (sn_index meta)
     in (s, (new_engine opts)\<lparr>e_log := lg, e_index := m\<rparr>))"
proof -
  have "read_snapshot (env_snap V) d (o_snapshot_dir opts @ ascii ''/'' @ m_filename entry) = Inr meta"
    using read_snapshot_benign [of "env_snap V" d, OF _ assms(4)] assms(1,5) by (simp add: benign_env_def)
  then show ?thesis
    using assms(2,3,6)
    by (simp add: engine_open_def new_engine_def manifest_path_def status_ok_def index_load_def log_size_def Let_def)
qed

lemma snapshot_tail_indexed:
  assumes "benign_env V" and "engine_holds st es" and "log_holds lg (es @ fs)"
    and "l_legacy lg = l_legacy (e_log st)" and "0 < l_eof (e_log st)" and "0 < l_eof lg"
  shows "\<exists>m. iterate_from (env_wal V) lg (l_eof (e_log st)) apply_cb (index_dump (env_ord V) (e_index st)) = (kOk, m) \<and>
    kv.indexed lg m (es @ fs)"
proof -
  let ?m0 = "index_dump (env_ord V) (e_index st)"
  have ord: "is_order (env_ord V)" "benign (env_wal V)" using assms(1) by (auto simp: benign_env_def)
  note dump = index_dump_get [OF ord(1) engine_holds_log(5) [OF assms(2)]]
  have wf: "wf_log lg (es @ fs)" "wf_log (e_log st) es"
    using assms(3) engine_holds_log(1) [OF assms(2)] by (auto simp: log_holds_def)
  have head: "log_head lg = log_head (e_log st)" using assms(4-6) by (simp add: log_head_def)
  have off: "l_eof (e_log st) = length (log_head lg @ log_bytes (l_legacy lg) es)"
    using wf(2) head assms(4) by (auto simp: wf_log_def)
  have tags: "take (length es) (kv.tagged lg (es @ fs)) = kv.tagged (e_log st) es"
    "drop (length es) (kv.tagged lg (es @ fs)) = rec_offs (l_legacy lg) (l_eof (e_log st)) fs"
    by (simp_all add: tagged_rec_offs rec_offs_append head assms(4) off)
  have "index_get ?m0 = fold offset_step (kv.tagged (e_log st) es) Map.empty"
    using dump(1) assms(2) by (simp add: engine_holds_def kv.indexed_def)
  then have "kv.indexed lg (fold hash_index.replay1 (rec_offs (l_legacy lg) (l_eof (e_log st)) fs) ?m0) (es @ fs)"
    using kv.replay_tail_indexed [OF assms(3) dump(2), of "length es"] tags by simp
  moreover have "iterate_from (env_wal V) lg (l_eof (e_log st)) apply_cb ?m0 =
      (kOk, fold hash_index.replay1 (rec_offs (l_legacy lg) (l_eof (e_log st)) fs) ?m0)"
    unfolding off by (simp only: iterate_from_wf [OF ord(2) wf(1)] visit_replay)
  ultimately show ?thesis by blast
qed

text \<open>A snapshot of \<open>st\<close> serves every later log that extends the one of \<open>st\<close>.\<close>

lemma reopen_from_snapshot:
  assumes "benign_env V" and "engine_holds st es" and "0 < l_eof (e_log st)"
    and "read_manifest_latest (env_man V) d1 (manifest_path st) = Inr entry"
    and "d1 (o_snapshot_dir (e_opts st) @ ascii ''/'' @ m_filename entry) = Some buf"
    and "parse_snapshot buf = Inr \<lparr>sn_wal_offset = l_eof (e_log st), sn_index = index_dump (env_ord V) (e_index st)\<rparr>"
    and "engine_holds st2 (es @ fs)" and "l_legacy (e_log st2) = l_legacy (e_log st)"
    and "l_eof (e_log st) \<le> l_eof (e_log st2)"
  shows "\<exists>st3. engine_open V (f_data (l_file (e_log st2))) d1 (new_engine (e_opts st)) = (kOk, st3) \<and> engine_holds st3 (es @ fs)"
proof -
  let ?wal = "f_data (l_file (e_log st2))" and ?lg = "opened (l_legacy (e_log st2)) (f_data (l_file (e_log st2)))"
  note h2 = engine_holds_log [OF assms(7)]
  have pos: "0 < l_eof (e_log st2)" using assms(3,9) by simp
  have open': "log_open (env_wal V) ?wal new_log = (kOk, ?lg)"
    using log_open_whole [OF _ h2(1) pos h2(3)] assms(1) by (simp add: benign_env_def)
  have "?wal = (if l_legacy (e_log st2) then [] else file_header) @ log_bytes (l_legacy (e_log st2)) (es @ fs)"
    using h2(1) pos by (auto simp: wf_log_def log_head_def)
  then have lgh: "log_holds ?lg (es @ fs)"
    using wf_opened [of "es @ fs" "l_legacy (e_log st2)"] h2 by (simp add: log_holds_def wf_log_def [of "e_log st2"] opened_def)
  have eof: "l_eof ?lg = l_eof (e_log st2)" "l_legacy ?lg = l_legacy (e_log st)"
    using h2(4) assms(8) by (simp_all add: opened_def)
  obtain m where it: "iterate_from (env_wal V) ?lg (l_eof (e_log st)) apply_cb (index_dump (env_ord V) (e_index st)) = (kOk, m)"
    and ix: "kv.indexed ?lg m (es @ fs)"
    using snapshot_tail_indexed [OF assms(1,2) lgh eof(2) assms(3)] eof(1) pos by auto
  let ?st3 = "(new_engine (e_opts st))\<lparr>e_log := ?lg, e_index := m\<rparr>"
  have "engine_open V ?wal d1 (new_engine (e_opts st)) = (kOk, ?st3)"
    using engine_open_snapshot [where d = d1 and opts = "e_opts st" and entry = entry, OF assms(1) open' _ assms(5,6)]
      assms(4,9) it eof(1) by (simp add: manifest_path_def)
  moreover have "engine_holds ?st3 (es @ fs)" using ix by (simp add: engine_holds_def new_engine_def)
  ultimately show ?thesis by blast
qed

text \<open>
  recovery from a snapshot equals a full replay. Take a snapshot of an engine whose log is
  not empty, run any requests that fit, and reopen the files. The snapshot and the open
  succeed, and the reopened engine, which replayed only the records after the snapshot, holds
  the whole history: every key reads as it did before the engine was closed.
\<close>

theorem snapshot_reopen_complete:
  assumes "benign_env V" and "engine_holds st es" and "0 < l_eof (e_log st)"
    and "length (e_index st) \<le> kMaxEntries"
    and "\<forall>l \<in> set (manifest_old d (manifest_path st)). parse_line l \<noteq> None"
    and "room_for st (req_records rs)"
  shows "\<exists>st1 d1 st2 st3. engine_snapshot V d st = (kOk, st1, d1) \<and>
    run V rs st1 = (replicate (length rs) kOk, st2) \<and>
    engine_open V (f_data (l_file (e_log st2))) d1 (new_engine (e_opts st)) = (kOk, st3) \<and>
    engine_holds st3 (es @ req_records rs) \<and> (\<forall>key. engine_get V st3 key = engine_get V st2 key)"
proof -
  obtain st1 d1 entry buf where snap: "engine_snapshot V d st = (kOk, st1, d1)" "engine_holds st1 es"
    "e_log st1 = e_log st" "e_opts st1 = e_opts st" "e_index st1 = e_index st"
    "read_manifest_latest (env_man V) d1 (manifest_path st) = Inr entry"
    "d1 (o_snapshot_dir (e_opts st) @ ascii ''/'' @ m_filename entry) = Some buf"
    "parse_snapshot buf = Inr \<lparr>sn_wal_offset = l_eof (e_log st), sn_index = index_dump (env_ord V) (e_index st)\<rparr>"
    by (rule engine_snapshot_ok [OF assms(1,2,4,5)])
  have "room_for st1 (req_records rs)" using assms(6) snap(3) by (simp add: room_for_def)
  from run_holds [OF assms(1) snap(2) this] snap(3) obtain st2 where
    run: "run V rs st1 = (replicate (length rs) kOk, st2)" "engine_holds st2 (es @ req_records rs)"
      "l_legacy (e_log st2) = l_legacy (e_log st)"
    and mono: "l_eof (e_log st) \<le> l_eof (e_log st2)" by fastforce
  obtain st3 where st3: "engine_open V (f_data (l_file (e_log st2))) d1 (new_engine (e_opts st)) = (kOk, st3)"
    and holds3: "engine_holds st3 (es @ req_records rs)"
    using reopen_from_snapshot [OF assms(1-3) snap(6-8) run(2,3) mono] by blast
  then show ?thesis
    using snap(1) run st3 engine_get_store [OF assms(1) holds3] engine_get_store [OF assms(1) run(2)] by auto
qed

lemma sample_engine_small: "0 < l_eof (e_log sample_engine)" "length (e_index sample_engine) \<le> kMaxEntries"
proof -
  let ?es = "[(OpPut, [97], [1]), (OpPut, [98], [2])] :: record_kv list"
  note h = engine_holds_log [OF sample_engine_holds(1)]
  show "0 < l_eof (e_log sample_engine)" using h(1) by (auto simp: wf_log_def)
  have "index_size (e_index sample_engine) = card (dom (store_of ?es))"
    using kv.dom_indexed [of calm_env "e_log sample_engine" "e_index sample_engine" ?es] sample_engine_holds(1)
    by (simp add: index_size_card [OF h(5)] engine_holds_def)
  then show "length (e_index sample_engine) \<le> kMaxEntries"
    by (simp add: index_size_def kMaxEntries_def store_of_def)
qed

theorem snapshot_reopen_complete_witness:
  "\<exists>st1 d1 st2 st3. engine_snapshot calm_store Map.empty sample_engine = (kOk, st1, d1) \<and>
    run calm_store [RRemove [97], RPut [99] [3]] st1 = (replicate (length [RRemove [97], RPut [99] [3]]) kOk, st2) \<and>
    engine_open calm_store (f_data (l_file (e_log st2))) d1 (new_engine (e_opts sample_engine)) = (kOk, st3) \<and>
    engine_holds st3 ([(OpPut, [97], [1]), (OpPut, [98], [2])] @ req_records [RRemove [97], RPut [99] [3]]) \<and>
    (\<forall>key. engine_get calm_store st3 key = engine_get calm_store st2 key)"
proof (rule snapshot_reopen_complete)
  show "room_for sample_engine (req_records [RRemove [97], RPut [99] [3]])"
    using sample_engine_holds(4) by (simp add: room_for_def req_records_def rec_cost_def fits_rec_def fits_def)
qed (simp_all add: sample_engine_holds sample_engine_small manifest_old_def)

section \<open>The snapshot of an empty log\<close>

text \<open>
  a snapshot of an engine that has not written a record yet blocks every later open. Its
  watermark is 0, the first append then writes the file header, and from then on the replay
  from the watermark starts before the first frame and is refused: the open fails with
  \<open>kInvalidArgument\<close>, although log, manifest and snapshot are intact.
\<close>

theorem empty_snapshot_blocks_open:
  assumes "benign_env V" and "engine_holds st []" and "l_eof (e_log st) = 0" and "\<not> l_legacy (e_log st)"
    and "\<forall>l \<in> set (manifest_old d (manifest_path st)). parse_line l \<noteq> None"
    and "room_for st (req_records rs)" and "req_records rs \<noteq> []"
  shows "\<exists>st1 d1 st2 st3. engine_snapshot V d st = (kOk, st1, d1) \<and>
    run V rs st1 = (replicate (length rs) kOk, st2) \<and>
    engine_open V (f_data (l_file (e_log st2))) d1 (new_engine (e_opts st)) = (kInvalidArgument, st3)"
proof -
  have "index_get (e_index st) = Map.empty"
    using assms(2) by (simp add: engine_holds_def kv.indexed_def kv.tagged_def)
  then have "index_size (e_index st) = 0" by (simp add: index_size_card [OF engine_holds_log(5) [OF assms(2)]])
  then have small: "length (e_index st) \<le> kMaxEntries" by (simp add: index_size_def)
  obtain st1 d1 entry buf where snap: "engine_snapshot V d st = (kOk, st1, d1)" "engine_holds st1 []"
    "e_log st1 = e_log st"
    "read_manifest_latest (env_man V) d1 (manifest_path st) = Inr entry"
    "d1 (o_snapshot_dir (e_opts st) @ ascii ''/'' @ m_filename entry) = Some buf"
    "parse_snapshot buf = Inr \<lparr>sn_wal_offset = l_eof (e_log st), sn_index = index_dump (env_ord V) (e_index st)\<rparr>"
    by (rule engine_snapshot_ok [OF assms(1,2) small assms(5)])
  have "room_for st1 (req_records rs)" using assms(6) snap(3) by (simp add: room_for_def)
  from run_holds [OF assms(1) snap(2) this] snap(3) obtain st2 where
    run: "run V rs st1 = (replicate (length rs) kOk, st2)" "engine_holds st2 (req_records rs)"
      "l_legacy (e_log st2) = l_legacy (e_log st)" and mono: "11 * length (req_records rs) \<le> l_eof (e_log st2)" by fastforce
  let ?wal = "f_data (l_file (e_log st2))" and ?lg = "opened False (f_data (l_file (e_log st2)))"
  note h2 = engine_holds_log [OF run(2)]
  have pos: "0 < l_eof (e_log st2)" using mono assms(7) by (cases "req_records rs") auto
  have open': "log_open (env_wal V) ?wal new_log = (kOk, ?lg)"
    using log_open_whole [OF _ h2(1) pos h2(3)] assms(1,4) run(3) by (simp add: benign_env_def)
  have "iterate_from (env_wal V) ?lg 0 apply_cb m = (kInvalidArgument, m)" for m
    by (simp add: iterate_from_def opened_def)
  then have "engine_open V ?wal d1 (new_engine (e_opts st)) =
      (kInvalidArgument, (new_engine (e_opts st))\<lparr>e_log := ?lg, e_index := index_dump (env_ord V) (e_index st)\<rparr>)"
    using engine_open_snapshot [where d = d1 and opts = "e_opts st" and entry = entry, OF assms(1) open' _ snap(5,6)]
      snap(4) assms(3) by (simp add: manifest_path_def)
  then show ?thesis using snap(1) run(1) by blast
qed

theorem empty_snapshot_blocks_open_witness:
  "\<exists>st1 d1 st2 st3. engine_snapshot calm_store Map.empty
       ((new_engine sample_opts)\<lparr>e_log := new_log\<lparr>l_fd := True\<rparr>\<rparr>) = (kOk, st1, d1) \<and>
    run calm_store [RPut [97] [1]] st1 = (replicate (length [RPut [97] [1]]) kOk, st2) \<and>
    engine_open calm_store (f_data (l_file (e_log st2))) d1
      (new_engine (e_opts ((new_engine sample_opts)\<lparr>e_log := new_log\<lparr>l_fd := True\<rparr>\<rparr>))) = (kInvalidArgument, st3)"
proof (rule empty_snapshot_blocks_open)
  have "log_holds (new_log\<lparr>l_fd := True\<rparr>) []" by (simp add: log_holds_def wf_log_def log_head_def new_log_def)
  then show "engine_holds ((new_engine sample_opts)\<lparr>e_log := new_log\<lparr>l_fd := True\<rparr>\<rparr>) []"
    using kv.replay_indexed [of "new_log\<lparr>l_fd := True\<rparr>" "[]"] by (simp add: engine_holds_def new_engine_def kv.tagged_def)
qed (simp_all add: new_engine_def new_log_def manifest_old_def room_for_def req_records_def rec_cost_def fits_rec_def fits_def)

end
