(* ===== verification/Collection_Recovery.thy ===== *)
theory Collection_Recovery
  imports Collection_Theorems Engine_Snapshot
begin

text \<open>
  Opening a collection again: after a power failure inside a request, after a snapshot, and with
  a dimension that does not match the stored vectors.
\<close>

section \<open>Power failures\<close>

definition coll_disk :: "collection \<Rightarrow> bytes" where
  "coll_disk c = f_data (l_file (e_log (c_engine c)))"

lemma no_manifest:
  "d (dir @ ascii ''/snap/MANIFEST'') = None \<Longrightarrow>
    \<nexists>e. read_manifest_latest E d (o_snapshot_dir (default_options dir) @ ascii ''/MANIFEST'') = Inr e"
  by (simp add: default_options_def ascii_def read_manifest_latest_def)

text \<open>A log that is cut inside its last record, if it has one more than \<open>es\<close>, holds \<open>es\<close> or all of it.\<close>

lemma cut_last_record:
  assumes "benign E" and "wf_log lg es" and "wf_log lg' (es @ fs)" and "length fs \<le> 1" and "l_legacy lg' = l_legacy lg"
    and "l_eof lg' + 8 < 2 ^ 63" and "l_eof lg \<le> n" and "n \<le> l_eof lg'"
  shows "\<exists>lg2. log_open E (take n (f_data (l_file lg'))) new_log = (kOk, lg2) \<and> (log_holds lg2 es \<or> log_holds lg2 (es @ fs))"
proof -
  from log_open_cut [OF assms(1,3,6,8)] obtain lg2 m where
    op: "log_open E (take n (f_data (l_file lg'))) new_log = (kOk, lg2)" "m \<le> length (es @ fs)"
    "wf_log lg2 (take m (es @ fs))" "l_eof lg2 < 2 ^ 63"
    and max: "\<forall>i \<le> length (es @ fs). 0 < i \<longrightarrow> record_offset lg' (es @ fs) i \<le> n \<longrightarrow> i \<le> m"
    by auto
  have "length es \<le> m"
  proof (cases "es = []")
    case False
    have "record_offset lg' (es @ fs) (length es) = l_eof lg"
    proof (cases fs)
      case Nil
      have "0 < length (log_bytes l es)" for l using False by simp
      then have "l_eof lg' \<noteq> 0 \<and> l_eof lg \<noteq> 0"
        using assms(2,3) Nil unfolding wf_log_def by (metis add_is_0 append_Nil2 length_append not_gr_zero)
      then show ?thesis using record_offset_end [OF assms(2)] Nil assms(5) by (simp add: record_offset_def log_head_def)
    next
      case (Cons r rs)
      then have "fs = [r]" using assms(4) by simp
      then show ?thesis
        using record_offset_keeps [OF assms(2) _ assms(5), of r "length es"] assms(3) False record_offset_end [OF assms(2)] by simp
    qed
    then show ?thesis using max [rule_format, of "length es"] False assms(7) by simp
  qed simp
  then consider "take m (es @ fs) = es" | "take m (es @ fs) = es @ fs"
    using op(2) assms(4) by (cases "m = length es") (auto simp: le_Suc_eq)
  then show ?thesis
    using op by cases (auto simp: log_holds_def)
qed

lemma coll_engine [simp]: "c_engine (new_collection dir dim M efc) = new_engine (default_options dir)"
  by (simp add: new_collection_def)

lemma coll_inv_engine:
  assumes "coll_inv c es items K"
  shows "engine_holds (c_engine c) es" and "stored es (c_dim c) items" and "wf_log (e_log (c_engine c)) es"
  using assms engine_holds_log(1) by (auto simp: coll_inv_def)

lemma reopen_cut:
  assumes "good_env V" and "d (dir @ ascii ''/snap/MANIFEST'') = None"
    and "coll_inv c es items K" and "coll_inv c' (es @ fs) items' K'" and "length fs \<le> 1" and "grew c c' k"
    and "coll_eof c' + 8 < 2 ^ 63" and "coll_eof c \<le> n" and "n \<le> coll_eof c'"
  shows "\<exists>c2. collection_open V (take n (coll_disk c')) d (new_collection dir (c_dim c) M efc) = (kOk, c2) \<and>
    (coll_inv c2 es items (dom items) \<or> coll_inv c2 (es @ fs) items' (dom items'))"
proof -
  have env: "benign_env (env_store V)" "benign (env_wal (env_store V))"
    using assms(1) by (auto simp: good_env_def benign_env_def)
  note inv = coll_inv_engine [OF assms(3)] and inv' = coll_inv_engine [OF assms(4)]
  have dim: "c_dim c' = c_dim c" using assms(6) by (simp add: grew_def)
  obtain lg2 gs its where op: "log_open (env_wal (env_store V)) (take n (coll_disk c')) new_log = (kOk, lg2)" "log_holds lg2 gs"
    and alt: "gs = es \<and> its = items \<or> gs = es @ fs \<and> its = items'"
    using cut_last_record [OF env(2) inv(3) inv'(3) assms(5), of n] assms(6-9) by (auto simp: grew_def coll_eof_def coll_disk_def)
  obtain st where st: "engine_open (env_store V) (take n (coll_disk c')) d (new_engine (default_options dir)) = (kOk, st)" "engine_holds st gs"
    using engine_open_full_replay [OF env(1) op no_manifest [of d dir, OF assms(2)]] by blast
  have "stored gs (c_dim c) its" using alt inv(2) inv'(2) dim by auto
  from collection_open_ok [OF assms(1) _ st(2) this, of _ d dir M efc] st(1) alt show ?thesis by auto
qed

text \<open>
  C4: requests are atomic under power failures. Open a collection on an empty directory, run any
  requests, then one more, and cut the log at any byte that this last request wrote: all of the
  log up to there is durable, because a collection syncs after every write. Opening what is left
  succeeds, and the collection shows the table before the last request or the one after it.
\<close>

theorem collection_crash_atomic:
  assumes "good_env V" and "d (dir @ ascii ''/snap/MANIFEST'') = None"
    and "\<forall>r \<in> set (rs @ [r]). req_ok V dim r" and "sum_list (map (req_cost V) (rs @ [r])) + 8 < 2 ^ 63"
  shows "\<exists>c0 c c'. collection_open V [] d (new_collection dir dim M efc) = (kOk, c0) \<and>
    coll_run V rs c0 = (fst (table_run V rs (Map.empty, {})), c) \<and> e_durable (c_engine c) = coll_eof c \<and>
    coll_exec V r c = (fst (table_step V r (snd (table_run V rs (Map.empty, {})))), c') \<and>
    (\<forall>n. coll_eof c \<le> n \<and> n \<le> coll_eof c' \<longrightarrow>
      (\<exists>c2. collection_open V (take n (coll_disk c')) d (new_collection dir dim M efc) = (kOk, c2) \<and>
         (shows_table V c2 (fst (snd (table_run V rs (Map.empty, {})))) \<or>
          shows_table V c2 (fst (snd (table_step V r (snd (table_run V rs (Map.empty, {})))))))))"
proof -
  let ?T = "snd (table_run V rs (Map.empty, {}))"
  let ?T' = "snd (table_step V r ?T)"
  obtain c0 where c0: "collection_open V [] d (new_collection dir dim M efc) = (kOk, c0)" "coll_inv c0 [] Map.empty {}"
    "c_dim c0 = dim" "coll_eof c0 = 0" "e_durable (c_engine c0) = coll_eof c0" "sync_each (e_opts (c_engine c0))"
    using collection_open_fresh [of V d dir dim M efc, OF assms(1,2)] by (auto simp: sync_each_def default_options_def)
  from coll_run_ok [OF assms(1) c0(2), of rs] assms(3,4) c0(3,4) obtain c es where
    run: "coll_run V rs c0 = (fst (table_run V rs (Map.empty, {})), c)"
    and inv: "coll_inv c es (fst ?T) (snd ?T)" and g: "grew c0 c (sum_list (map (req_cost V) rs))"
    by auto
  have size: "coll_eof c + req_cost V r + 8 < 2 ^ 63" and dim: "c_dim c = dim" and dur: "e_durable (c_engine c) = coll_eof c"
    using g assms(4) c0(3-6) by (auto simp: grew_def coll_eof_def)
  obtain c' fs where step: "coll_exec V r c = (fst (table_step V r (fst ?T, snd ?T)), c')"
    "coll_inv c' (es @ fs) (fst ?T') (snd ?T')" "length fs \<le> 1" and g': "grew c c' (req_cost V r)"
    using coll_exec_ok [OF assms(1) inv, of r] assms(3) size dim by auto
  have "coll_eof c' + 8 < 2 ^ 63" using g' size by (simp add: grew_def coll_eof_def)
  note cut = reopen_cut [where d = d and dir = dir, OF assms(1,2) inv step(2,3) g' this, where M = M and efc = efc, unfolded dim]
  have "\<forall>n. coll_eof c \<le> n \<and> n \<le> coll_eof c' \<longrightarrow>
      (\<exists>c2. collection_open V (take n (coll_disk c')) d (new_collection dir dim M efc) = (kOk, c2) \<and>
         (shows_table V c2 (fst ?T) \<or> shows_table V c2 (fst ?T')))"
    using cut coll_inv_shows [OF assms(1)] by meson
  then show ?thesis using c0(1) run dur step(1) by auto
qed

theorem collection_crash_atomic_witness:
  "\<exists>c0 c c'. collection_open sample_env [] Map.empty (new_collection [100] 1 16 200) = (kOk, c0) \<and>
    coll_run sample_env sample_requests c0 = ([kOk, kOk, kOk], c) \<and> e_durable (c_engine c) = coll_eof c \<and>
    coll_exec sample_env (CRemove 7) c = (kOk, c') \<and>
    (\<forall>n. coll_eof c \<le> n \<and> n \<le> coll_eof c' \<longrightarrow>
      (\<exists>c2. collection_open sample_env (take n (coll_disk c')) Map.empty (new_collection [100] 1 16 200) = (kOk, c2) \<and>
         (shows_table sample_env c2 [7 \<mapsto> sample_entry] \<or> shows_table sample_env c2 Map.empty)))"
proof -
  have ok: "\<forall>r \<in> set (sample_requests @ [CRemove 7]). req_ok sample_env 1 r"
    "sum_list (map (req_cost sample_env) (sample_requests @ [CRemove 7])) + 8 < 2 ^ 63"
    using sample_requests_ok by (auto simp: key_of_small fits_def)
  show ?thesis
    using collection_crash_atomic [OF good_sample_env _ ok, of Map.empty "[100]" 16 200]
    by (simp add: sample_requests_run sample_entry_def [symmetric])
qed

section \<open>Snapshots\<close>

text \<open>
  a snapshot loses nothing. Take a snapshot of a collection with a non-empty log, run any
  requests, and open the files again: the open loads the snapshot, replays the rest of the log,
  rebuilds graph and filter index, and the collection shows the table of the closed one.
\<close>

theorem collection_snapshot_reopen:
  assumes "good_env V" and "coll_inv c es items K" and "0 < coll_eof c" and "e_opts (c_engine c) = default_options dir"
    and "length (e_index (c_engine c)) \<le> kMaxEntries"
    and "\<forall>l \<in> set (manifest_old d (manifest_path (c_engine c))). parse_line l \<noteq> None"
    and "\<forall>r \<in> set rs. req_ok V (c_dim c) r" and "coll_eof c + sum_list (map (req_cost V) rs) < 2 ^ 63"
  shows "\<exists>c1 d1 c2 c3. collection_snapshot V d c = (kOk, c1, d1) \<and>
    coll_run V rs c1 = (fst (table_run V rs (items, K)), c2) \<and>
    collection_open V (coll_disk c2) d1 (new_collection dir (c_dim c) M efc) = (kOk, c3) \<and>
    shows_table V c3 (fst (snd (table_run V rs (items, K))))"
proof -
  have env: "benign_env (env_store V)" using assms(1) by (simp add: good_env_def)
  note inv = coll_inv_engine [OF assms(2)]
  let ?st = "c_engine c"
  obtain st1 d1 entry buf where snap: "engine_snapshot (env_store V) d ?st = (kOk, st1, d1)" "engine_holds st1 es"
    "e_log st1 = e_log ?st" "e_opts st1 = e_opts ?st" "e_index st1 = e_index ?st"
    "read_manifest_latest (env_man (env_store V)) d1 (manifest_path ?st) = Inr entry"
    "d1 (o_snapshot_dir (e_opts ?st) @ ascii ''/'' @ m_filename entry) = Some buf"
    "parse_snapshot buf = Inr \<lparr>sn_wal_offset = l_eof (e_log ?st), sn_index = index_dump (env_ord (env_store V)) (e_index ?st)\<rparr>"
    by (rule engine_snapshot_ok [OF env inv(1) assms(5,6)])
  let ?c1 = "c\<lparr>c_engine := st1\<rparr>"
  have "coll_inv ?c1 es items K" "coll_eof ?c1 = coll_eof c" using assms(2) snap(2,3) by (auto simp: coll_inv_def coll_eof_def)
  from coll_run_ok [OF assms(1) this(1), of rs] this(2) assms(7,8) obtain c2 fs where
    run: "coll_run V rs ?c1 = (fst (table_run V rs (items, K)), c2)"
    and inv2: "coll_inv c2 (es @ fs) (fst (snd (table_run V rs (items, K)))) (snd (snd (table_run V rs (items, K))))"
    and g: "grew ?c1 c2 (sum_list (map (req_cost V) rs))"
    by auto
  have g2: "l_legacy (e_log (c_engine c2)) = l_legacy (e_log ?st)" "l_eof (e_log ?st) \<le> l_eof (e_log (c_engine c2))"
    "c_dim c2 = c_dim c"
    using g snap(3) by (simp_all add: grew_def)
  obtain st3 where st3: "engine_open (env_store V) (coll_disk c2) d1 (new_engine (default_options dir)) = (kOk, st3)"
    "engine_holds st3 (es @ fs)"
    using reopen_from_snapshot [OF env inv(1) _ snap(6-8) coll_inv_engine(1) [OF inv2] g2(1,2)] assms(3,4)
    by (auto simp: coll_eof_def coll_disk_def)
  have "stored (es @ fs) (c_dim c) (fst (snd (table_run V rs (items, K))))"
    using coll_inv_engine(2) [OF inv2] g2(3) by simp
  from collection_open_ok [OF assms(1) _ st3(2) this, of _ d1 dir M efc] st3(1) obtain c3 where
    "collection_open V (coll_disk c2) d1 (new_collection dir (c_dim c) M efc) = (kOk, c3)"
    "coll_inv c3 (es @ fs) (fst (snd (table_run V rs (items, K)))) (dom (fst (snd (table_run V rs (items, K)))))"
    by auto
  then show ?thesis using snap(1) run coll_inv_shows [OF assms(1)] by (auto simp: collection_snapshot_def)
qed

lemma sample_coll_small:
  obtains es where "coll_inv sample_coll es [7 \<mapsto> sample_entry] {7, 9}" and "c_dim sample_coll = 1"
    and "coll_eof sample_coll \<le> 200" and "e_opts (c_engine sample_coll) = default_options [100]"
    and "0 < coll_eof sample_coll" and "length (e_index (c_engine sample_coll)) \<le> kMaxEntries"
proof (rule sample_coll_inv)
  fix es
  assume inv: "coll_inv sample_coll es [7 \<mapsto> sample_entry] {7, 9}" and rest: "c_dim sample_coll = 1"
    "coll_eof sample_coll \<le> 200" "e_opts (c_engine sample_coll) = default_options [100]"
  note e = coll_inv_engine [OF inv]
  have dom: "dom (store_of es) \<subseteq> {key_of 7}"
  proof
    fix k assume k: "k \<in> dom (store_of es)"
    then obtain i where i: "k = key_of i" using e(2) by (auto simp: stored_def)
    have "stored_at (store_of es (key_of i)) (c_dim sample_coll) ([7 \<mapsto> sample_entry] i)" using e(2) unfolding stored_def by blast
    then show "k \<in> {key_of 7}" using k i by (cases "i = 7") (auto simp: stored_at_def)
  qed
  have "stored_at (store_of es (key_of 7)) (c_dim sample_coll) (Some sample_entry)" using e(2) unfolding stored_def by (metis fun_upd_same)
  then have "es \<noteq> []" by (auto simp: stored_at_def store_of_def)
  then have "0 < length (log_bytes l es)" for l by simp
  then have pos: "0 < coll_eof sample_coll" using e(3) unfolding wf_log_def coll_eof_def by (metis add_is_0 length_append not_gr_zero)
  have "index_size (e_index (c_engine sample_coll)) = card (dom (store_of es))"
    using kv.dom_indexed [of calm_env "e_log (c_engine sample_coll)" "e_index (c_engine sample_coll)" es] e(1)
    by (simp add: index_size_card [OF engine_holds_log(5) [OF e(1)]] engine_holds_def)
  also have "\<dots> \<le> 1" using card_mono [OF _ dom] by simp
  finally show ?thesis
    using pos inv rest by (intro that) (simp_all add: index_size_def kMaxEntries_def)
qed

theorem collection_snapshot_reopen_witness:
  "\<exists>c1 d1 c2 c3. collection_snapshot sample_env Map.empty sample_coll = (kOk, c1, d1) \<and>
    coll_run sample_env [CRemove 7] c1 = ([kOk], c2) \<and>
    collection_open sample_env (coll_disk c2) d1 (new_collection [100] (c_dim sample_coll) 16 200) = (kOk, c3) \<and>
    shows_table sample_env c3 Map.empty"
proof (rule sample_coll_small)
  fix es
  assume *: "coll_inv sample_coll es [7 \<mapsto> sample_entry] {7, 9}" "coll_eof sample_coll \<le> 200"
    "e_opts (c_engine sample_coll) = default_options [100]"
    "0 < coll_eof sample_coll" "length (e_index (c_engine sample_coll)) \<le> kMaxEntries"
  have ok: "\<forall>r \<in> set [CRemove 7]. req_ok sample_env (c_dim sample_coll) r"
    "coll_eof sample_coll + sum_list (map (req_cost sample_env) [CRemove 7]) < 2 ^ 63"
    using *(2) by (simp_all add: key_of_small fits_def)
  have "\<forall>l \<in> set (manifest_old Map.empty (manifest_path (c_engine sample_coll))). parse_line l \<noteq> None"
    by (simp add: manifest_old_def)
  from collection_snapshot_reopen [OF good_sample_env *(1,4,3,5) this ok, of 16 200] show ?thesis by simp
qed

section \<open>A wrong dimension\<close>

text \<open>
  opening with a wrong dimension goes unnoticed. Open a collection with entries again, with
  a dimension other than that of its vectors: \<open>open\<close> returns \<open>kOk\<close>, because the callback that
  rejects an entry only ends the enumeration, but nothing is indexed: the size is 0 although
  every payload can still be read.
\<close>

theorem wrong_dimension_unnoticed:
  assumes "good_env V" and "coll_inv c es items K" and "d (dir @ ascii ''/snap/MANIFEST'') = None"
    and "coll_eof c + 8 < 2 ^ 63" and "dim \<noteq> c_dim c"
  shows "\<exists>c2. collection_open V (coll_disk c) d (new_collection dir dim M efc) = (kOk, c2) \<and>
    collection_size c2 = 0 \<and> (\<forall>i. collection_get V c2 i = payload_result (items i))"
proof -
  have env: "benign_env (env_store V)" "benign (env_wal (env_store V))"
    using assms(1) by (auto simp: good_env_def benign_env_def)
  note inv = coll_inv_engine [OF assms(2)]
  have whole: "take (coll_eof c) (coll_disk c) = coll_disk c"
    using inv(3) unfolding wf_log_def coll_eof_def coll_disk_def by (metis order_refl take_all)
  obtain lg where op: "log_open (env_wal (env_store V)) (coll_disk c) new_log = (kOk, lg)" "log_holds lg es"
    using cut_last_record [OF env(2) inv(3), of "e_log (c_engine c)" "[]" "coll_eof c"] inv(3) assms(4) whole
    by (auto simp: coll_eof_def coll_disk_def)
  obtain st where st: "engine_open (env_store V) (coll_disk c) d (new_engine (default_options dir)) = (kOk, st)" "engine_holds st es"
    using engine_open_full_replay [OF env(1) op no_manifest [of d dir, OF assms(3)]] by blast
  let ?s = "(new_hnsw dim M efc, empty_filter, 0)"
  let ?d = "index_dump (env_ord (env_store V)) (e_index st)"
  have "visit_live (env_store V) st (rebuild_entry V dim) ?s = (kOk, ?s)"
  proof (cases ?d)
    case Nil
    then show ?thesis by (simp add: visit_live_def)
  next
    case (Cons x xs)
    have "is_order (env_ord (env_store V))" using env by (simp add: benign_env_def)
    then have "set ?d = set (e_index st)" by (metis index_dump_def is_order_def mset_eq_setD)
    then obtain k off v where x: "x = (k, off)" "read_value_at (env_wal (env_store V)) (e_log st) off = Inr (k, v)" "store_of es k = Some v"
      using index_entry_reads [OF env(1) st(2)] Cons by (cases x) (metis list.set_intros(1))
    then obtain i where i: "k = key_of i" using inv(2) by (auto simp: stored_def)
    have "stored_at (Some v) (c_dim c) (items i)" using inv(2) x(3) i unfolding stored_def by metis
    then obtain m' where "decode_entry_meta v = Inr m'" "length (em_vec m') = c_dim c"
      by (cases "items i") (auto simp: stored_at_def same_entry_def)
    then have "rebuild_entry V dim k v ?s = (False, ?s)" using assms(5) i by (simp add: rebuild_entry_def)
    then show ?thesis using x(1,2) Cons by (simp add: visit_live_def)
  qed
  moreover have "collection_get V (c\<lparr>c_engine := st\<rparr>) i = payload_result (items i)" for i
    using collection_get_ok [OF assms(1), of "c\<lparr>c_engine := st\<rparr>" es items K] assms(2) st(2) by (simp add: coll_inv_def)
  ultimately show ?thesis
    using st(1) by (simp add: collection_open_def new_collection_def status_ok_def collection_size_def hnsw_size_def
        new_hnsw_def collection_get_def)
qed

theorem wrong_dimension_unnoticed_witness:
  "\<exists>c2. collection_open sample_env (coll_disk sample_coll) Map.empty (new_collection [100] 2 16 200) = (kOk, c2) \<and>
    collection_size c2 = 0 \<and> collection_get sample_env c2 7 = Inr [104]"
proof (rule sample_coll_inv)
  fix es
  assume "coll_inv sample_coll es [7 \<mapsto> sample_entry] {7, 9}" "c_dim sample_coll = 1" "coll_eof sample_coll \<le> 200"
  then show ?thesis
    using wrong_dimension_unnoticed [OF good_sample_env, of sample_coll es "[7 \<mapsto> sample_entry]" "{7, 9}" Map.empty "[100]" 2 16 200]
    by (auto simp: payload_result_def sample_entry_def)
qed

end
