(* ===== verification/Sessions.thy ===== *)
theory Sessions
  imports C_Api_Correct Collection_Recovery
begin

text \<open>
  Programs that come and go. A client opens a directory through the C interface, works on the
  handle, and either closes it or loses power in the middle of its last call; the next client
  finds the log file that is left. \<open>disk_after\<close> is the relation between such a history of
  sessions and the log on disk, \<open>tables_after\<close> the tables that the history may leave behind: a
  session that was cut short leaves the table before or after its last request, and a new
  session has forgotten which removed ids the graph knew. The theorem says that the next client
  always finds one of these tables. It spans every layer: handles, collection, engine, log
  repair, and the rebuilt graph and filter index.
\<close>

section \<open>Histories\<close>

datatype session =
    Closed "api_request list"
  | Crashed "api_request list" api_request

fun session_requests :: "session \<Rightarrow> api_request list" where
  "session_requests (Closed rs) = rs"
| "session_requests (Crashed rs r) = rs @ [r]"

definition history_requests :: "session list \<Rightarrow> coll_request list" where
  "history_requests past = map request_of (concat (map session_requests past))"

text \<open>The entries after the requests of one session, starting from the entries \<open>t\<close>.\<close>

definition entries_after :: "coll_env \<Rightarrow> api_request list \<Rightarrow> (u64 \<rightharpoonup> entry_meta) \<Rightarrow> u64 \<rightharpoonup> entry_meta" where
  "entries_after V rs t = fst (snd (table_run V (map request_of rs) (t, dom t)))"

fun session_tables :: "coll_env \<Rightarrow> session \<Rightarrow> (u64 \<rightharpoonup> entry_meta) \<Rightarrow> (u64 \<rightharpoonup> entry_meta) set" where
  "session_tables V (Closed rs) t = {entries_after V rs t}"
| "session_tables V (Crashed rs r) t = {entries_after V rs t, entries_after V (rs @ [r]) t}"

text \<open>The latest session comes first.\<close>

fun tables_after :: "coll_env \<Rightarrow> session list \<Rightarrow> (u64 \<rightharpoonup> entry_meta) set" where
  "tables_after V [] = {Map.empty}"
| "tables_after V (s # past) = (\<Union>t \<in> tables_after V past. session_tables V s t)"

text \<open>
  A crash leaves the log up to some byte that the last call wrote: what was there before that
  call has been synchronized, since a collection does so after each write.
\<close>

inductive disk_after :: "api_env \<Rightarrow> dir \<Rightarrow> bytes \<Rightarrow> int \<Rightarrow> int \<Rightarrow> session list \<Rightarrow> bytes \<Rightarrow> bool"
  for E d dir dim metric where
  new: "disk_after E d dir dim metric [] []"
| closed: "disk_after E d dir dim metric past wal \<Longrightarrow> G addr = None \<Longrightarrow>
    lumina_open E addr wal d (Some dir) dim metric G = (Some addr, G1) \<Longrightarrow>
    api_run E addr rs G1 = Returns (codes, G2) \<Longrightarrow> G2 addr = Some hn \<Longrightarrow>
    disk_after E d dir dim metric (Closed rs # past) (coll_disk (hd_coll hn))"
| crashed: "disk_after E d dir dim metric past wal \<Longrightarrow> G addr = None \<Longrightarrow>
    lumina_open E addr wal d (Some dir) dim metric G = (Some addr, G1) \<Longrightarrow>
    api_run E addr rs G1 = Returns (codes, G2) \<Longrightarrow> G2 addr = Some hn \<Longrightarrow>
    api_exec E addr r G2 = Returns (code, G3) \<Longrightarrow> G3 addr = Some hn' \<Longrightarrow>
    coll_eof (hd_coll hn) \<le> n \<Longrightarrow> n \<le> coll_eof (hd_coll hn') \<Longrightarrow>
    disk_after E d dir dim metric (Crashed rs r # past) (take n (coll_disk (hd_coll hn')))"

section \<open>Opening\<close>

text \<open>Opening writes nothing: the log can only get shorter.\<close>

lemma log_open_shrinks:
  assumes "log_open E wal new_log = (s, lg)"
  shows "l_eof lg \<le> length wal"
proof -
  have shrink: "l_eof (snd (repair_truncate_tail E lg)) \<le> length wal"
    if "l_eof lg \<le> length wal" "length (f_data (l_file lg)) \<le> length wal" for lg
    using that by (auto simp: repair_truncate_tail_def refresh_eof_def Let_def split: repair_result.split)
  show ?thesis
    using assms shrink unfolding log_open_def open_and_repair_def
    by (auto simp: new_log_def Let_def prod_eq_iff split: if_splits option.splits)
qed

lemma engine_open_log: "engine_open V wal d st = (s, st') \<Longrightarrow> e_log st' = snd (log_open (env_wal V) wal (e_log st))"
  by (auto simp: engine_open_def recover_inner_def Let_def split: prod.splits if_splits sum.splits)

lemma collection_open_shrinks:
  assumes "collection_open V wal d (new_collection dir dm M efc) = (s, c)"
  shows "coll_eof c \<le> length wal \<and> c_dim c = dm"
proof -
  obtain s' st where st: "engine_open (env_store V) wal d (new_engine (default_options dir)) = (s', st)" by fastforce
  have "c_engine c = st" "c_dim c = dm" using assms st
    by (auto simp: collection_open_def new_collection_def Let_def split: prod.splits if_splits)
  moreover have "l_eof (e_log st) \<le> length wal"
    using log_open_shrinks [OF prod.collapse [symmetric]] engine_open_log [OF st] by (simp add: new_engine_def)
  ultimately show ?thesis by (simp add: coll_eof_def)
qed

lemma disk_length: "coll_inv c es items K \<Longrightarrow> length (coll_disk c) = coll_eof c"
  using coll_inv_engine(3) [of c es items K] unfolding wf_log_def coll_disk_def coll_eof_def by blast

section \<open>One session\<close>

definition opens_to :: "coll_env \<Rightarrow> dir \<Rightarrow> bytes \<Rightarrow> nat \<Rightarrow> bytes \<Rightarrow> (u64 \<rightharpoonup> entry_meta) \<Rightarrow> bool" where
  "opens_to V d dir dm wal t \<longleftrightarrow>
     (\<exists>c es. collection_open V wal d (new_collection dir dm 16 200) = (kOk, c) \<and> coll_inv c es t (dom t))"

definition cost :: "coll_env \<Rightarrow> api_request list \<Rightarrow> nat" where
  "cost V rs = sum_list (map (req_cost V \<circ> request_of) rs)"

lemma session_run:
  assumes "good_env (api_coll E (metric_from_int metric))" and "0 < dim" and "G addr = None"
    and "opens_to (api_coll E (metric_from_int metric)) d dir (nat dim) wal t"
    and "lumina_open E addr wal d (Some dir) dim metric G = (Some addr, G1)"
    and "api_run E addr rs G1 = Returns (codes, G2)" and "G2 addr = Some hn"
    and "\<forall>r \<in> set rs. req_ok (api_coll E (metric_from_int metric)) (nat dim) (request_of r)"
    and "length wal + cost (api_coll E (metric_from_int metric)) rs < 2 ^ 63"
  defines "V \<equiv> api_coll E (metric_from_int metric)"
  shows "\<exists>es. coll_inv (hd_coll hn) es (entries_after V rs t) (snd (snd (table_run V (map request_of rs) (t, dom t)))) \<and>
    c_dim (hd_coll hn) = nat dim \<and> coll_eof (hd_coll hn) \<le> length wal + cost V rs \<and> env_of E hn = V"
proof -
  note V = V_def [symmetric]
  obtain c es where c: "collection_open V wal d (new_collection dir (nat dim) 16 200) = (kOk, c)" "coll_inv c es t (dom t)"
    using assms(4) unfolding opens_to_def V by blast
  note shrink = collection_open_shrinks [OF c(1)]
  let ?hn = "\<lparr>hd_coll = c, hd_metric = metric_from_int metric\<rparr>"
  have G1: "G1 = G(addr \<mapsto> ?hn)"
    using assms(2,3,5) c(1) by (simp add: lumina_open_def Let_def status_ok_def V)
  have size: "coll_eof c + sum_list (map (req_cost V) (map request_of rs)) < 2 ^ 63"
    using assms(9) shrink by (simp add: cost_def V)
  obtain c' fs where run: "coll_run V (map request_of rs) c = (fst (table_run V (map request_of rs) (t, dom t)), c')"
      "coll_inv c' (es @ fs) (entries_after V rs t) (snd (snd (table_run V (map request_of rs) (t, dom t))))"
      "grew c c' (cost V rs)"
    using coll_run_ok [OF assms(1) [folded V_def] c(2) _ size] assms(8) shrink
    by (auto simp: V entries_after_def cost_def)
  have "api_run E addr rs G1 = Returns (map code_of (fst (table_run V (map request_of rs) (t, dom t))),
      G1(addr \<mapsto> ?hn\<lparr>hd_coll := c'\<rparr>))"
    using assms(2,8) shrink run(1) G1 by (intro api_run_coll [where dim = "nat dim" and V = V]) (simp_all add: env_of_def V)
  then have "hn = ?hn\<lparr>hd_coll := c'\<rparr>" using assms(6,7) by auto
  then show ?thesis using run(2,3) shrink by (auto simp: grew_def env_of_def V coll_eof_def)
qed

text \<open>What the next client finds.\<close>

lemma opens_after_close:
  assumes "good_env V" and "d (dir @ ascii ''/snap/MANIFEST'') = None" and "coll_inv c es t K" and "coll_eof c + 8 < 2 ^ 63"
  shows "opens_to V d dir (c_dim c) (coll_disk c) t"
proof -
  have "take (coll_eof c) (coll_disk c) = coll_disk c" using disk_length [OF assms(3)] by simp
  moreover have "grew c c 0" by (simp add: grew_def)
  ultimately show ?thesis
    using reopen_cut [where d = d and dir = dir and M = 16 and efc = 200, OF assms(1-3), of c "[]" t K 0 "coll_eof c"] assms(3,4) by (auto simp: opens_to_def)
qed

lemma opens_after_crash:
  assumes "good_env V" and "d (dir @ ascii ''/snap/MANIFEST'') = None" and "coll_inv c es t K"
    and "req_ok V (c_dim c) r" and "coll_eof c + req_cost V r + 8 < 2 ^ 63"
    and "coll_exec V r c = (s, c')" and "coll_eof c \<le> n" and "n \<le> coll_eof c'"
  shows "coll_eof c' \<le> coll_eof c + req_cost V r \<and>
    (opens_to V d dir (c_dim c) (take n (coll_disk c')) t \<or>
     opens_to V d dir (c_dim c) (take n (coll_disk c')) (fst (snd (table_step V r (t, K)))))"
proof -
  obtain fs where step: "coll_inv c' (es @ fs) (fst (snd (table_step V r (t, K)))) (snd (snd (table_step V r (t, K))))"
      "length fs \<le> 1" "grew c c' (req_cost V r)"
    by (rule coll_exec_ok [OF assms(1,3,4)]) (use assms(5,6) in auto)
  then have "coll_eof c' + 8 < 2 ^ 63" "coll_eof c' \<le> coll_eof c + req_cost V r"
    using assms(5) by (auto simp: grew_def coll_eof_def)
  then show ?thesis
    using reopen_cut [where d = d and dir = dir and M = 16 and efc = 200, OF assms(1-3) step _ assms(7,8)] by (auto simp: opens_to_def)
qed

lemma table_run_snoc: "snd (table_run V (rs @ [r]) T) = snd (table_step V r (snd (table_run V rs T)))"
  by (induction rs arbitrary: T) (auto simp: split_def Let_def)

lemma entries_after_snoc:
  "entries_after V (rs @ [r]) t =
    fst (snd (table_step V (request_of r) (entries_after V rs t, snd (snd (table_run V (map request_of rs) (t, dom t))))))"
  by (simp add: entries_after_def table_run_snoc)

lemma cost_simps [simp]:
  "cost V [] = 0" "cost V (xs @ ys) = cost V xs + cost V ys" "cost V (r # xs) = req_cost V (request_of r) + cost V xs"
  by (simp_all add: cost_def)

section \<open>Histories and tables\<close>

lemma disk_after_opens:
  assumes "good_env (api_coll E (metric_from_int metric))" and "d (dir @ ascii ''/snap/MANIFEST'') = None" and "0 < dim"
    and "disk_after E d dir dim metric past wal"
  defines "V \<equiv> api_coll E (metric_from_int metric)"
  shows "\<forall>r \<in> set (concat (map session_requests past)). req_ok V (nat dim) (request_of r) \<Longrightarrow>
    cost V (concat (map session_requests past)) + 8 < 2 ^ 63 \<Longrightarrow>
    length wal \<le> cost V (concat (map session_requests past)) \<and> (\<exists>t \<in> tables_after V past. opens_to V d dir (nat dim) wal t)"
  using assms(4)
proof induction
  case new
  then show ?case using collection_open_fresh [of V d dir "nat dim" 16 200, OF assms(1,2) [folded V_def]]
    by (auto simp: opens_to_def)
next
  case (closed past wal G addr G1 rs codes G2 hn)
  let ?c = "hd_coll hn"
  obtain t where t: "t \<in> tables_after V past" "opens_to V d dir (nat dim) wal t"
      and len: "length wal \<le> cost V (concat (map session_requests past))"
    using closed.IH closed.prems by auto
  obtain es K where inv: "coll_inv ?c es (entries_after V rs t) K" "c_dim ?c = nat dim" "coll_eof ?c \<le> length wal + cost V rs"
    using session_run [OF assms(1,3) closed.hyps(2) t(2) [unfolded V_def] closed.hyps(3-5)] closed.prems len
    unfolding V_def by auto
  have "opens_to V d dir (nat dim) (coll_disk ?c) (entries_after V rs t)"
    using opens_after_close [where d = d and dir = dir, OF assms(1,2) inv(1)] inv(2,3) closed.prems len by (simp add: V_def)
  then show ?case using t(1) inv(3) len disk_length [OF inv(1)] by auto
next
  case (crashed past wal G addr G1 rs codes G2 hn r code G3 hn' n)
  let ?c = "hd_coll hn" and ?c' = "hd_coll hn'"
  obtain t where t: "t \<in> tables_after V past" "opens_to V d dir (nat dim) wal t"
      and len: "length wal \<le> cost V (concat (map session_requests past))"
    using crashed.IH crashed.prems by auto
  define K where "K = snd (snd (table_run V (map request_of rs) (t, dom t)))"
  obtain es where inv: "coll_inv ?c es (entries_after V rs t) K" "c_dim ?c = nat dim" "coll_eof ?c \<le> length wal + cost V rs"
      "env_of E hn = V"
    using session_run [OF assms(1,3) crashed.hyps(2) t(2) [unfolded V_def] crashed.hyps(3-5)] crashed.prems len
    unfolding V_def K_def by auto
  obtain s c2 where ex: "coll_exec V (request_of r) ?c = (s, c2)" by fastforce
  have ok: "req_ok V (c_dim ?c) (request_of r)" using crashed.prems(1) inv(2) by simp
  have "api_exec E addr r G2 = Returns (code_of s, G2(addr \<mapsto> hn\<lparr>hd_coll := c2\<rparr>))"
    using api_exec_coll [of G2 addr hn V r E s c2, OF crashed.hyps(5) ok _ ex [folded inv(4)]] inv(2) assms(3) by simp
  then have c2: "?c' = c2" using crashed.hyps(6,7) by auto
  have "coll_eof ?c + req_cost V (request_of r) + 8 < 2 ^ 63" using crashed.prems(2) inv(3) len by simp
  from opens_after_crash [where d = d and dir = dir, OF assms(1) [folded V_def] assms(2) inv(1) ok this ex crashed.hyps(8) crashed.hyps(9) [unfolded c2]]
  have "coll_eof c2 \<le> coll_eof ?c + req_cost V (request_of r)"
    and "\<exists>t' \<in> session_tables V (Crashed rs r) t. opens_to V d dir (nat dim) (take n (coll_disk c2)) t'"
    by (auto simp: inv(2) entries_after_snoc K_def)
  then show ?case using t(1) inv(3) len crashed.hyps(9) c2 by auto
qed

text \<open>
  C3: what survives. Let clients come and go in any order, each with its own requests, some of
  them cut off by a power failure at any byte of their last request. Whatever log such a history
  leaves, the next \<^verbatim>\<open>lumina_open\<close> succeeds, and \<^verbatim>\<open>lumina_get\<close> then returns the payloads of one of
  the tables that the history may leave: all sessions in order, and for each one that crashed with
  or without its last request.
\<close>

theorem history_survives:
  assumes "good_env (api_coll E (metric_from_int metric))" and "d (dir @ ascii ''/snap/MANIFEST'') = None" and "0 < dim"
    and "disk_after E d dir dim metric past wal" and "G addr = None"
    and "\<forall>r \<in> set (concat (map session_requests past)). req_ok (api_coll E (metric_from_int metric)) (nat dim) (request_of r)"
    and "cost (api_coll E (metric_from_int metric)) (concat (map session_requests past)) + 8 < 2 ^ 63"
  shows "\<exists>t \<in> tables_after (api_coll E (metric_from_int metric)) past. \<exists>G'.
    lumina_open E addr wal d (Some dir) dim metric G = (Some addr, G') \<and>
    (\<forall>i. lumina_get E addr i True True G' = get_result E (t i))"
proof -
  let ?V = "api_coll E (metric_from_int metric)"
  obtain t c es where t: "t \<in> tables_after ?V past"
      and c: "collection_open ?V wal d (new_collection dir (nat dim) 16 200) = (kOk, c)" "coll_inv c es t (dom t)"
    using disk_after_opens [OF assms(1-4,6,7)] unfolding opens_to_def by blast
  let ?hn = "\<lparr>hd_coll = c, hd_metric = metric_from_int metric\<rparr>"
  have "lumina_open E addr wal d (Some dir) dim metric G = (Some addr, G(addr \<mapsto> ?hn))"
    using assms(3,5) c(1) by (simp add: lumina_open_def Let_def status_ok_def)
  moreover have "lumina_get E addr i True True (G(addr \<mapsto> ?hn)) = get_result E (t i)" for i
    using coll_inv_shows [OF assms(1) c(2)] by (intro lumina_get_table [of _ _ ?hn]) (simp_all add: env_of_def)
  ultimately show ?thesis using t by blast
qed

text \<open>An id that was removed can be added again after a restart, but not before.\<close>

definition sample_past :: "session list" where
  "sample_past = [Closed [ApiAdd 9 [3] [105]], Closed api_requests]"

lemma session_exists:
  assumes "good_env (api_coll E (metric_from_int metric))" and "d (dir @ ascii ''/snap/MANIFEST'') = None" and "0 < dim"
    and "disk_after E d dir dim metric past wal"
    and "\<forall>r \<in> set (concat (map session_requests (Closed rs # past))).
      req_ok (api_coll E (metric_from_int metric)) (nat dim) (request_of r)"
    and "cost (api_coll E (metric_from_int metric)) (concat (map session_requests (Closed rs # past))) + 8 < 2 ^ 63"
  shows "\<exists>wal'. disk_after E d dir dim metric (Closed rs # past) wal'"
proof -
  let ?V = "api_coll E (metric_from_int metric)"
  obtain t c es where len: "length wal \<le> cost ?V (concat (map session_requests past))"
      and c: "collection_open ?V wal d (new_collection dir (nat dim) 16 200) = (kOk, c)" "coll_inv c es t (dom t)"
    using disk_after_opens [OF assms(1-4)] assms(5,6) unfolding opens_to_def by auto
  note shrink = collection_open_shrinks [OF c(1)]
  let ?hn = "\<lparr>hd_coll = c, hd_metric = metric_from_int metric\<rparr>"
  have op: "lumina_open E 0 wal d (Some dir) dim metric Map.empty = (Some 0, [0 \<mapsto> ?hn])"
    using assms(3) c(1) by (simp add: lumina_open_def Let_def status_ok_def)
  obtain ss c' where run: "coll_run ?V (map request_of rs) c = (ss, c')" by fastforce
  have "api_run E 0 rs [0 \<mapsto> ?hn] = Returns (map code_of ss, [0 \<mapsto> ?hn\<lparr>hd_coll := c'\<rparr>])"
    using api_run_coll [of "nat dim" "[0 \<mapsto> ?hn]" 0 ?hn rs ?V E ss c'] assms(3,5) shrink run by (simp add: env_of_def)
  from disk_after.closed [OF assms(4) _ op this, of "?hn\<lparr>hd_coll := c'\<rparr>"] show ?thesis by auto
qed

lemma sample_past_ok:
  "\<forall>r \<in> set (concat (map session_requests sample_past)). req_ok sample_env 1 (request_of r)"
  "cost sample_env (concat (map session_requests sample_past)) \<le> 300"
proof -
  have "req_ok sample_env 1 (request_of (ApiAdd 9 [3] [105])) \<and> req_cost sample_env (request_of (ApiAdd 9 [3] [105])) \<le> 100"
    by (simp add: make_meta_def entry_ok_def fits_def key_of_small entry_bytes_def sample_env_def
      encode_entry_meta_def meta_flags_def put_defs em_consts)
  then show "\<forall>r \<in> set (concat (map session_requests sample_past)). req_ok sample_env 1 (request_of r)"
    and "cost sample_env (concat (map session_requests sample_past)) \<le> 300"
    using api_requests_ok by (auto simp: sample_past_def cost_def)
qed

lemma sample_past_tables:
  "tables_after sample_env sample_past = {[7 \<mapsto> make_meta [1] [104] [], 9 \<mapsto> make_meta [3] [105] []]}"
proof -
  have "entry_status sample_env (make_meta [3] [105] []) = kOk"
    by (simp add: entry_status_def sample_env_def make_meta_def encode_entry_meta_def meta_flags_def put_defs em_consts)
  then have "entries_after sample_env [ApiAdd 9 [3] [105]] [7 \<mapsto> m] = [7 \<mapsto> m, 9 \<mapsto> make_meta [3] [105] []]" for m
    by (simp add: entries_after_def table_put_def status_ok_def)
  moreover have "entries_after sample_env api_requests Map.empty = [7 \<mapsto> make_meta [1] [104] []]"
    by (simp add: entries_after_def api_requests_run)
  moreover have "tables_after sample_env sample_past =
      {entries_after sample_env [ApiAdd 9 [3] [105]] (entries_after sample_env api_requests Map.empty)}"
    by (simp add: sample_past_def)
  ultimately show ?thesis by simp
qed

theorem history_survives_witness:
  "\<exists>wal G'. disk_after sample_api Map.empty [100] 1 0 sample_past wal \<and>
    lumina_open sample_api 4096 wal Map.empty (Some [100]) 1 0 Map.empty = (Some 4096, G') \<and>
    lumina_get sample_api 4096 9 True True G' = (0, Some [105, 0], Some 1)"
proof -
  have env: "api_coll sample_api m = sample_env" for m by (simp add: sample_api_def)
  have one: "(0::int) < 1" "Map.empty ([100] @ ascii ''/snap/MANIFEST'') = None" by simp_all
  note next_session = session_exists [where dir = "[100]" and d = Map.empty and dim = 1 and metric = 0, OF sample_api_ok one(2,1)]
  obtain w where "disk_after sample_api Map.empty [100] 1 0 [Closed api_requests] w"
    using next_session [OF disk_after.new, of api_requests] sample_past_ok by (auto simp: env sample_past_def)
  then obtain wal where wal: "disk_after sample_api Map.empty [100] 1 0 sample_past wal"
    using next_session [of "[Closed api_requests]" w "[ApiAdd 9 [3] [105]]"] sample_past_ok by (auto simp: env sample_past_def)
  have "\<exists>t \<in> {[7 \<mapsto> make_meta [1] [104] [], 9 \<mapsto> make_meta [3] [105] []]}. \<exists>G'.
      lumina_open sample_api 4096 wal Map.empty (Some [100]) 1 0 Map.empty = (Some 4096, G') \<and>
      (\<forall>i. lumina_get sample_api 4096 i True True G' = get_result sample_api (t i))"
    using history_survives [where dir = "[100]" and d = Map.empty and G = Map.empty, OF sample_api_ok one(2,1) wal, of 4096] sample_past_ok
    by (simp add: env sample_past_tables)
  then show ?thesis using wal by (auto simp: get_result_def sample_api_def)
qed

end
