(* ===== verification/Snapshot_Histories.thy ===== *)
theory Snapshot_Histories
  imports Sessions
begin

text \<open>
  The life of a collection directory, with snapshots. Requests, snapshots whose system calls may
  fail at any point, restarts, and power failures inside a request follow each other in any
  order; \<open>live\<close> executes one such event on the directory and the collection, and \<open>outcomes\<close> says
  what it may do to the table of entries. The theorem says that the collection always shows one
  of the tables that the events allow, so neither a snapshot, nor one that failed half way, nor
  an open that starts from an old snapshot can lose an entry or bring one back. Power failures
  inside a snapshot are included: they leave what a snapshot leaves whose next call fails.
\<close>

section \<open>Cutting a log that is not empty\<close>

lemma log_open_torn_opened:
  assumes "benign E" and "\<forall>r \<in> set (es @ [r]). fits_rec r" and "n < length (encode_frame legacy r)"
    and "disk = (if legacy then [] else file_header) @ log_bytes legacy es @ take n (encode_frame legacy r)"
    and "length disk < 2 ^ 63" and "disk \<noteq> []"
  shows "log_open E disk new_log = (kOk, opened legacy ((if legacy then [] else file_header) @ log_bytes legacy es))"
proof -
  have "log_open E disk new_log = repair_truncate_tail E (opened legacy disk)"
  proof (cases legacy)
    case True
    then show ?thesis
      using assms(4,6) legacy_first_byte [of es n r] by (simp add: log_open_legacy [OF assms(1)])
  next
    case False
    then show ?thesis using log_open_v2 [OF assms(1)] assms(4) by simp
  qed
  then show ?thesis using repair_opened_torn [OF assms(1-3) refl assms(4,5)] by simp
qed

text \<open>What opening leaves of a log that is cut inside the record after \<open>es\<close>.\<close>

lemma cut_opened:
  assumes "benign E" and "wf_log lg es" and "wf_log lg' (es @ fs)" and "length fs \<le> 1" and "l_legacy lg' = l_legacy lg"
    and "l_eof lg' + 8 < 2 ^ 63" and "0 < l_eof lg" and "l_eof lg \<le> n" and "n \<le> l_eof lg'"
  obtains lg2 gs where "log_open E (take n (f_data (l_file lg'))) new_log = (kOk, lg2)" and "log_holds lg2 gs"
    and "gs = es \<or> gs = es @ fs" and "l_legacy lg2 = l_legacy lg" and "l_eof lg \<le> l_eof lg2"
proof -
  let ?l = "l_legacy lg" and ?disk = "take n (f_data (l_file lg'))" and ?dummy = "(OpPut, [], []) :: record_kv"
  let ?head = "if ?l then [] else file_header"
  have "0 < l_eof lg'" using assms(7-9) by simp
  then have data: "f_data (l_file lg') = ?head @ log_bytes ?l es @ log_bytes ?l fs" "\<forall>r \<in> set (es @ fs). fits_rec r"
      and eof: "l_eof lg = length (?head @ log_bytes ?l es)" and len: "length (f_data (l_file lg')) = l_eof lg'"
    using assms(2,3,5,7) by (auto simp: wf_log_def log_head_def)
  have eof': "l_eof lg' = length (?head @ log_bytes ?l (es @ fs))" using len data(1) by simp
  have size: "length ?disk < 2 ^ 63" and ne: "?disk \<noteq> []" using assms(6-9) len by auto
  have dummy: "fits_rec ?dummy" by (simp add: fits_rec_def fits_def)
  have "\<exists>gs k r. (gs = es \<or> gs = es @ fs) \<and> fits_rec r \<and> k < length (encode_frame ?l r) \<and>
      ?disk = ?head @ log_bytes ?l gs @ take k (encode_frame ?l r)"
  proof (cases "n = l_eof lg'")
    case True
    then have "?disk = ?head @ log_bytes ?l (es @ fs) @ take 0 (encode_frame ?l ?dummy)" using data(1) len by simp
    then show ?thesis using dummy by (intro exI [of _ "es @ fs"] exI [of _ 0] exI [of _ ?dummy]) simp
  next
    case False
    then have "fs \<noteq> []" using assms(8,9) eof eof' by auto
    then obtain r where fs: "fs = [r]" using assms(4) by (cases fs) auto
    have "l_eof lg' = l_eof lg + length (encode_frame ?l r)" using eof eof' fs by simp
    then have "n - l_eof lg < length (encode_frame ?l r)" using False assms(8,9) by linarith
    moreover have "?disk = ?head @ log_bytes ?l es @ take (n - l_eof lg) (encode_frame ?l r)"
      using data(1) assms(8) eof fs by simp
    ultimately show ?thesis using data(2) fs by (intro exI [of _ es] exI [of _ "n - l_eof lg"] exI [of _ r]) simp
  qed
  then obtain gs k r where gs: "gs = es \<or> gs = es @ fs" "fits_rec r" "k < length (encode_frame ?l r)"
      "?disk = ?head @ log_bytes ?l gs @ take k (encode_frame ?l r)" by blast
  have fit: "\<forall>r \<in> set gs. fits_rec r" "\<forall>r \<in> set (gs @ [r]). fits_rec r" using gs(1,2) data(2) by auto
  have "length (?head @ log_bytes ?l gs) \<le> length ?disk" unfolding gs(4) by simp
  then have "length (?head @ log_bytes ?l gs) < 2 ^ 63" using size by linarith
  then have "log_holds (opened ?l (?head @ log_bytes ?l gs)) gs"
    using wf_opened [OF fit(1), of ?l] by (simp add: log_holds_def opened_def split del: if_split)
  moreover have "l_eof lg \<le> length (?head @ log_bytes ?l gs)" using gs(1) eof by auto
  ultimately show ?thesis
    using log_open_torn_opened [OF assms(1) fit(2) gs(3,4) size ne] gs(1)
    by (intro that [of "opened ?l (?head @ log_bytes ?l gs)" gs]) (simp_all add: opened_def split del: if_split)
qed

section \<open>Snapshots that serve a log\<close>

text \<open>The snapshot \<open>meta\<close> is that of the log after its first \<open>n\<close> records.\<close>

definition snapshot_of :: "log \<Rightarrow> record_kv list \<Rightarrow> snapshot_meta \<Rightarrow> bool" where
  "snapshot_of lg es meta \<longleftrightarrow> 0 < sn_wal_offset meta \<and> index_inv (sn_index meta) \<and>
     (\<exists>n \<le> length es. sn_wal_offset meta = record_offset lg es n \<and>
        index_get (sn_index meta) = fold offset_step (take n (kv.tagged lg es)) Map.empty)"

lemma snapshot_of_extend:
  assumes "snapshot_of lg es meta" and "l_legacy lg' = l_legacy lg" and "0 < l_eof lg" and "0 < l_eof lg'"
  shows "snapshot_of lg' (es @ fs) meta"
proof -
  have "log_head lg' = log_head lg" using assms(2-4) by (simp add: log_head_def)
  then have "record_offset lg' (es @ fs) n = record_offset lg es n"
      "take n (kv.tagged lg' (es @ fs)) = take n (kv.tagged lg es)" if "n \<le> length es" for n
    using that assms(2) by (simp_all add: record_offset_def tagged_rec_offs rec_offs_append)
  moreover obtain n where "n \<le> length es" "sn_wal_offset meta = record_offset lg es n"
      "index_get (sn_index meta) = fold offset_step (take n (kv.tagged lg es)) Map.empty"
    using assms(1) unfolding snapshot_of_def by blast
  ultimately show ?thesis using assms(1) unfolding snapshot_of_def by (auto intro!: exI [of _ n])
qed

lemma snapshot_of_whole:
  assumes "engine_holds st es" and "is_order ord" and "0 < l_eof (e_log st)"
  shows "snapshot_of (e_log st) es \<lparr>sn_wal_offset = l_eof (e_log st), sn_index = index_dump ord (e_index st)\<rparr>"
proof -
  note h = engine_holds_log [OF assms(1)]
  have "length (kv.tagged (e_log st) es) = length es" by (simp add: kv.tagged_def)
  then show ?thesis
    using assms(1,3) index_dump_get [OF assms(2) h(5)] record_offset_end [OF h(1)]
    by (auto simp: snapshot_of_def engine_holds_def kv.indexed_def intro!: exI [of _ "length es"])
qed

lemma replay_after_snapshot:
  assumes "benign E" and "log_holds lg es" and "snapshot_of lg es meta"
  shows "\<exists>m. iterate_from E lg (sn_wal_offset meta) apply_cb (sn_index meta) = (kOk, m) \<and> kv.indexed lg m es \<and>
    sn_wal_offset meta \<le> l_eof lg"
proof -
  obtain n where n: "n \<le> length es" "sn_wal_offset meta = record_offset lg es n"
      "index_get (sn_index meta) = fold offset_step (take n (kv.tagged lg es)) Map.empty" and inv: "index_inv (sn_index meta)"
    using assms(3) unfolding snapshot_of_def by blast
  have wf: "wf_log lg (take n es @ drop n es)" using assms(2) by (simp add: log_holds_def)
  have off: "sn_wal_offset meta = length (log_head lg @ log_bytes (l_legacy lg) (take n es))" using n(2) by (simp add: record_offset_def)
  have "drop n (kv.tagged lg (take n es @ drop n es)) = rec_offs (l_legacy lg) (sn_wal_offset meta) (drop n es)"
    using n(1) unfolding tagged_rec_offs rec_offs_append off by simp
  then have "kv.indexed lg (fold hash_index.replay1 (rec_offs (l_legacy lg) (sn_wal_offset meta) (drop n es)) (sn_index meta)) es"
    using kv.replay_tail_indexed [OF assms(2) inv n(3)] by simp
  moreover have "iterate_from E lg (sn_wal_offset meta) apply_cb (sn_index meta) =
      (kOk, fold hash_index.replay1 (rec_offs (l_legacy lg) (sn_wal_offset meta) (drop n es)) (sn_index meta))"
    unfolding off by (simp only: iterate_from_wf [OF assms(1) wf] visit_replay)
  moreover have "sn_wal_offset meta \<le> l_eof lg"
  proof -
    have "length (log_bytes l es) = length (log_bytes l (take n es)) + length (log_bytes l (drop n es))" for l
      by (metis append_take_drop_id length_append log_bytes_simps(3))
    then show ?thesis using off wf by (auto simp: wf_log_def)
  qed
  ultimately show ?thesis by blast
qed

section \<open>The directory\<close>

definition snap_path :: "bytes \<Rightarrow> u64 \<Rightarrow> bytes" where
  "snap_path sd seq = sd @ ascii ''/'' @ snap_filename seq"

definition man_path :: "bytes \<Rightarrow> bytes" where
  "man_path sd = sd @ ascii ''/MANIFEST''"

text \<open>
  What the directory must contain for the log to be recovered: no manifest, or one whose latest
  record names a snapshot of this log.
\<close>

definition serves :: "dir \<Rightarrow> bytes \<Rightarrow> log \<Rightarrow> record_kv list \<Rightarrow> bool" where
  "serves d sd lg es \<longleftrightarrow> d (man_path sd) = None \<or>
     (\<exists>data entry seq buf meta. d (man_path sd) = Some data \<and> manifest_scan (getlines data) None = Inr entry \<and>
        m_filename entry = snap_filename seq \<and> d (snap_path sd seq) = Some buf \<and>
        parse_snapshot buf = Inr meta \<and> snapshot_of lg es meta)"

lemma paths_differ [simp]:
  "man_path sd \<noteq> snap_path sd seq" "snap_path sd seq \<noteq> man_path sd"
  "man_path sd \<noteq> snap_path sd seq @ ascii ''.tmp''" "snap_path sd seq @ ascii ''.tmp'' \<noteq> man_path sd"
  "man_path sd @ ascii ''.tmp'' \<noteq> snap_path sd seq" "snap_path sd seq \<noteq> man_path sd @ ascii ''.tmp''"
  using snapshot_paths_differ(1-3) [of sd seq] by (auto simp: man_path_def snap_path_def)

lemma snap_path_not_tmp [simp]:
  "snap_path sd seq \<noteq> snap_path sd seq' @ ascii ''.tmp''" "snap_path sd seq' @ ascii ''.tmp'' \<noteq> snap_path sd seq"
proof -
  have "rev (snap_path sd seq) ! 1 \<noteq> rev (snap_path sd seq' @ ascii ''.tmp'') ! 1"
    by (simp add: snap_path_def snap_filename_def)
  then show "snap_path sd seq \<noteq> snap_path sd seq' @ ascii ''.tmp''" "snap_path sd seq' @ ascii ''.tmp'' \<noteq> snap_path sd seq"
    by metis+
qed

lemma serves_same:
  assumes "serves d sd lg es" and "d' (man_path sd) = d (man_path sd)" and "\<forall>seq. d' (snap_path sd seq) = d (snap_path sd seq)"
  shows "serves d' sd lg es"
  using assms unfolding serves_def by simp

lemma serves_new_file:
  assumes "serves d sd lg es" and "parse_snapshot buf = Inr meta" and "snapshot_of lg es meta"
    and "d' (man_path sd) = d (man_path sd)"
    and "\<forall>s. d' (snap_path sd s) = (if snap_path sd s = snap_path sd seq then Some buf else d (snap_path sd s))"
  shows "serves d' sd lg es"
  using assms unfolding serves_def by metis

lemma serves_extend:
  "serves d sd lg es \<Longrightarrow> l_legacy lg' = l_legacy lg \<Longrightarrow> 0 < l_eof lg \<Longrightarrow> 0 < l_eof lg' \<Longrightarrow> serves d sd lg' (es @ fs)"
  unfolding serves_def using snapshot_of_extend by blast

text \<open>A log without a byte has no snapshot.\<close>

lemma serves_empty:
  assumes "serves d sd lg es" and "wf_log lg es" and "l_eof lg = 0"
  shows "d (man_path sd) = None"
proof -
  have "\<not> snapshot_of lg es meta" for meta
    using assms(2,3) by (auto simp: snapshot_of_def record_offset_def wf_log_def)
  then show ?thesis using assms(1) unfolding serves_def by blast
qed

section \<open>A snapshot, whatever its system calls do\<close>

lemma write_snapshot_any:
  assumes "write_snapshot E path off es d = (s, d')"
  obtains "s \<noteq> kOk" and "d' = d"
    | w where "d' = d(path \<mapsto> w)" and "s \<noteq> kOk"
    | body where "s = kOk" and "snap_body off es = Inr body" and "d' = d(path \<mapsto> body @ put_u32 (crc32_std body))"
        and "length es \<le> kMaxEntries"
proof -
  have err: "snap_entries xs = Inl e \<Longrightarrow> e = kInvalidArgument" for xs e
    by (induction xs arbitrary: e) (auto split: if_splits sum.splits)
  then have err': "snap_body off es = Inl e \<Longrightarrow> e = kInvalidArgument" for e
    by (auto simp: snap_body_def split: sum.splits)
  show ?thesis
  proof (cases "length es > kMaxEntries \<or> (\<exists>e. snap_body off es = Inl e) \<or> \<not> sys_open E")
    case True
    then show ?thesis using assms err' by (intro that(1)) (auto simp: write_snapshot_def Let_def split: if_splits sum.splits)
  next
    case False
    then obtain body where body: "snap_body off es = Inr body" by (cases "snap_body off es") auto
    let ?p = "body @ put_u32 (crc32_std body)"
    obtain ok w where wl: "write_loop (sys_write E 0 (length ?p)) ?p = (ok, w)" by fastforce
    have full: "ok \<Longrightarrow> w = ?p" using write_loop_prefix [OF wl] by auto
    have "s = (if ok \<and> sys_fsync E then kOk else kIOError)" "d' = d(path \<mapsto> w)"
      using assms False body wl by (auto simp: write_snapshot_def Let_def)
    then show ?thesis using full body False that(2,3) by (cases "s = kOk") (auto split: if_splits)
  qed
qed

lemma write_manifest_any:
  obtains s d' where "write_manifest_append E p e d = (s, d')"
    and "d' p = d p \<or> d' p = Some (manifest_text (manifest_found E d p @ [manifest_line e]))"
    and "\<forall>q. q \<noteq> p \<longrightarrow> q \<noteq> p @ ascii ''.tmp'' \<longrightarrow> d' q = d q"
proof -
  have tmp: "p \<noteq> p @ ascii ''.tmp''" by simp
  let ?text = "manifest_text (manifest_found E d p @ [manifest_line e])"
  obtain ok w where wl: "write_loop (sys_write E 0 (length ?text)) ?text = (ok, w)" by fastforce
  have "ok \<Longrightarrow> w = ?text" using write_loop_prefix [OF wl] by auto
  moreover have "write_manifest_append E p e d =
      (if \<not> sys_open E then (kIOError, d)
       else if \<not> (ok \<and> sys_fsync E) then (kIOError, d(p @ ascii ''.tmp'' := None))
       else if \<not> sys_rename E then (kIOError, d(p @ ascii ''.tmp'' := None))
       else (kOk, (d(p @ ascii ''.tmp'' := None))(p \<mapsto> w)))" if "sys_open E"
    using that wl by (simp add: write_manifest_unfold Let_def)
  moreover have "write_manifest_append E p e d = (kIOError, d)" if "\<not> sys_open E"
    using that by (simp add: write_manifest_append_def Let_def)
  ultimately show ?thesis using tmp that by (cases "sys_open E") (auto split: if_splits)
qed

lemma manifest_scan_lines:
  "manifest_scan ls latest = Inr e \<Longrightarrow> l \<in> set ls \<Longrightarrow> l \<noteq> [] \<Longrightarrow> hd l \<noteq> 35 \<Longrightarrow> parse_line l \<noteq> None"
  by (induction ls arbitrary: latest) (auto split: if_splits option.splits)

lemma serves_old_lines:
  assumes "serves d sd lg es" and "l \<in> set (manifest_old d (man_path sd))"
  shows "parse_line l \<noteq> None"
proof -
  obtain data where data: "d (man_path sd) = Some data" "l \<in> set (manifest_kept data)"
    using assms(2) by (cases "d (man_path sd)") (auto simp: manifest_old_def)
  then have "l \<in> set (getlines data)" by (auto simp: manifest_kept_def Let_def split: if_splits dest: in_set_dropD)
  moreover obtain e where "manifest_scan (getlines data) None = Inr e" using assms(1) data(1) by (auto simp: serves_def)
  ultimately show ?thesis using manifest_scan_lines manifest_kept_lines [OF data(2)] by blast
qed

lemma serves_new_manifest:
  assumes "serves d sd lg es" and "d' (man_path sd) = Some (manifest_text (manifest_found E d (man_path sd) @ [manifest_line e]))"
    and "m_filename e = snap_filename seq" and "d' (snap_path sd seq) = Some buf" and "parse_snapshot buf = Inr meta"
    and "snapshot_of lg es meta"
  shows "serves d' sd lg es"
proof -
  let ?d = "if sys_stream E then d else Map.empty"
  have old: "manifest_found E d (man_path sd) = manifest_old ?d (man_path sd)" by (simp add: manifest_found_def manifest_old_def)
  have lines: "\<forall>l \<in> set (manifest_old ?d (man_path sd)). parse_line l \<noteq> None"
    using serves_old_lines [OF assms(1)] by (simp add: manifest_old_def)
  have "read_manifest_latest calm_env d' (man_path sd) = Inr e"
    using plain_snap_filename assms(3) benign_calm lines
    by (intro read_manifest_text [where d = ?d and p = "man_path sd" and d' = d', OF _ _ _ assms(2) [unfolded old]]) (auto simp: benign_def)
  then have "manifest_scan (getlines (manifest_text (manifest_found E d (man_path sd) @ [manifest_line e]))) None = Inr e"
    using assms(2) benign_calm by (simp add: read_manifest_latest_def benign_def)
  then show ?thesis using assms(2-6) unfolding serves_def by blast
qed

lemma snapshot_file_parses:
  assumes "benign_env V" and "engine_holds st es" and "snap_body (l_eof (e_log st)) (index_dump (env_ord V) (e_index st)) = Inr body"
    and "length (index_dump (env_ord V) (e_index st)) \<le> kMaxEntries"
  shows "parse_snapshot (body @ put_u32 (crc32_std body)) =
    Inr \<lparr>sn_wal_offset = l_eof (e_log st), sn_index = index_dump (env_ord V) (e_index st)\<rparr>"
proof -
  have "is_order (env_ord V)" using assms(1) by (simp add: benign_env_def)
  note dump = index_dump_get [OF this engine_holds_log(5) [OF assms(2)]]
  have "length (e_index st) \<le> kMaxEntries" using assms(4) dump(3) by simp
  from parse_snap_body [OF index_snapshot_fits [OF assms(1,2) this] dump(2)] show ?thesis using assms(3) by auto
qed

definition failing :: "sysenv \<Rightarrow> sysenv \<Rightarrow> sysenv \<Rightarrow> store_env \<Rightarrow> store_env" where
  "failing W S N V = V\<lparr>env_wal := W, env_snap := S, env_man := N\<rparr>"

lemma engine_snapshot_any:
  assumes "benign_env V" and "engine_holds st es" and "0 < l_eof (e_log st)"
    and "serves d (o_snapshot_dir (e_opts st)) (e_log st) es" and "engine_snapshot (failing W S N V) d st = (s, st', d')"
  shows "serves d' (o_snapshot_dir (e_opts st)) (e_log st) es \<and> e_log st' = e_log st \<and> engine_holds st' es \<and>
    e_opts st' = e_opts st"
proof -
  let ?sd = "o_snapshot_dir (e_opts st)" and ?lg = "e_log st" and ?st1 = "st\<lparr>e_durable := l_eof (e_log st)\<rparr>"
  let ?seq = "of_nat (sys_time S) * 1000 + (e_snap_seq st mod 1000) :: u64"
  let ?st2 = "?st1\<lparr>e_snap_seq := e_snap_seq st + 1\<rparr>" and ?dump = "index_dump (env_ord V) (e_index st)"
  let ?tmp = "snap_path ?sd ?seq @ ascii ''.tmp''" and ?meta = "\<lparr>sn_wal_offset = l_eof ?lg, sn_index = ?dump\<rparr>"
  let ?entry = "\<lparr>m_seq = ?seq, m_wal_offset = of_nat (l_eof ?lg), m_filename = snap_filename ?seq\<rparr>"
  note lg = engine_holds_log [OF assms(2)]
  have sd: "manifest_path st = man_path ?sd" by (simp add: manifest_path_def man_path_def)
  have "engine_fsync V st = (kOk, ?st1)" using engine_fsync_ok [OF assms(1) lg(2)] lg(4) by simp
  then have fs: "engine_fsync (failing W S N V) st = (if sys_fsync W then (kOk, ?st1) else (kIOError, st))"
    by (auto simp: engine_fsync_def failing_def log_sync_def status_ok_def split: if_splits)
  obtain s1 d1 where wr: "write_snapshot S ?tmp (l_eof ?lg) ?dump d = (s1, d1)" by fastforce
  obtain s2 d2 where mn: "write_manifest_append N (man_path ?sd) ?entry (d1(?tmp := None, snap_path ?sd ?seq := d1 ?tmp)) = (s2, d2)"
    by fastforce
  have run: "engine_snapshot (failing W S N V) d st =
      (if \<not> sys_fsync W then (kIOError, st, d)
       else if \<not> sys_mkdir S then (kIOError, ?st1, d)
       else if \<not> status_ok s1 then (s1, ?st2, d1)
       else if \<not> sys_rename S then (kIOError, ?st2, d1) else (s2, ?st2, d2))"
    using wr mn sd unfolding engine_snapshot_def fs
    by (simp add: failing_def status_ok_def Let_def log_size_def snap_path_def manifest_path_def man_path_def)
  have keep: "serves d1 ?sd ?lg es"
    using wr by (rule write_snapshot_any) (auto intro: serves_same [OF assms(4)] simp del: ascii_simps)
  have new: "serves d2 ?sd ?lg es" if "s1 = kOk"
  proof -
    from wr that obtain body where body: "snap_body (l_eof ?lg) ?dump = Inr body" "length ?dump \<le> kMaxEntries"
        "d1 = d(?tmp \<mapsto> body @ put_u32 (crc32_std body))"
      by (auto elim: write_snapshot_any)
    let ?buf = "body @ put_u32 (crc32_std body)" and ?d2 = "d1(?tmp := None, snap_path ?sd ?seq := d1 ?tmp)"
    note parse = snapshot_file_parses [OF assms(1,2) body(1,2)]
    have whole: "snapshot_of ?lg es ?meta" using snapshot_of_whole [OF assms(2) _ assms(3)] assms(1) by (simp add: benign_env_def)
    have buf: "?d2 (snap_path ?sd ?seq) = Some ?buf" using body(3) by simp
    have served: "serves ?d2 ?sd ?lg es"
      by (rule serves_new_file [OF assms(4) parse whole, where seq = ?seq]) (auto simp: body(3) simp del: ascii_simps)
    obtain s3 d3 where "write_manifest_append N (man_path ?sd) ?entry ?d2 = (s3, d3)"
        and mtext: "d3 (man_path ?sd) = ?d2 (man_path ?sd) \<or>
          d3 (man_path ?sd) = Some (manifest_text (manifest_found N ?d2 (man_path ?sd) @ [manifest_line ?entry]))"
        and other: "\<forall>q. q \<noteq> man_path ?sd \<longrightarrow> q \<noteq> man_path ?sd @ ascii ''.tmp'' \<longrightarrow> d3 q = ?d2 q"
      by (rule write_manifest_any)
    then have d3: "d3 = d2" using mn by simp
    have files: "\<forall>q. d2 (snap_path ?sd q) = ?d2 (snap_path ?sd q)"
      using other d3 paths_differ(2,6) by blast
    from mtext show ?thesis
    proof
      assume "d3 (man_path ?sd) = ?d2 (man_path ?sd)"
      then show ?thesis using serves_same [OF served _ files] d3 by simp
    next
      assume "d3 (man_path ?sd) = Some (manifest_text (manifest_found N ?d2 (man_path ?sd) @ [manifest_line ?entry]))"
      then show ?thesis
        using serves_new_manifest [OF served, of d2 N ?entry ?seq ?buf ?meta] files buf parse whole d3 by simp
    qed
  qed
  have "engine_holds ?st1 es" "engine_holds ?st2 es" using assms(2) by (simp_all add: engine_holds_def)
  then show ?thesis using assms(2,4,5) run keep new by (auto simp: status_ok_def split: if_splits)
qed

section \<open>Opening from whatever snapshot there is\<close>

lemma engine_open_opts: "engine_open V wal d st = (s, st') \<Longrightarrow> e_opts st' = e_opts st"
  by (auto simp: engine_open_def recover_inner_def Let_def split: prod.splits if_splits sum.splits)

lemma engine_open_serves:
  assumes "benign_env V" and "log_open (env_wal V) wal new_log = (kOk, lg)" and "log_holds lg es"
    and "serves d (o_snapshot_dir opts) lg es"
  shows "\<exists>st. engine_open V wal d (new_engine opts) = (kOk, st) \<and> engine_holds st es"
proof (cases "d (man_path (o_snapshot_dir opts))")
  case None
  then have "\<nexists>e. read_manifest_latest (env_man V) d (o_snapshot_dir opts @ ascii ''/MANIFEST'') = Inr e"
    by (simp add: read_manifest_latest_def man_path_def)
  from engine_open_full_replay [OF assms(1-3) this] show ?thesis .
next
  case (Some data)
  let ?sd = "o_snapshot_dir opts"
  obtain entry seq buf meta where m: "manifest_scan (getlines data) None = Inr entry" "m_filename entry = snap_filename seq"
      "d (snap_path ?sd seq) = Some buf" "parse_snapshot buf = Inr meta" "snapshot_of lg es meta"
    using assms(4) Some by (auto simp: serves_def)
  have wal: "benign (env_wal V)" "sys_stream (env_man V)" using assms(1) by (simp_all add: benign_env_def benign_def)
  have man: "read_manifest_latest (env_man V) d (?sd @ ascii ''/MANIFEST'') = Inr entry"
    using Some m(1) wal(2) by (simp add: read_manifest_latest_def man_path_def)
  have named: "d (?sd @ ascii ''/'' @ m_filename entry) = Some buf" using m(2,3) by (simp add: snap_path_def)
  obtain ix where ix: "iterate_from (env_wal V) lg (sn_wal_offset meta) apply_cb (sn_index meta) = (kOk, ix)"
      "kv.indexed lg ix es" "sn_wal_offset meta \<le> l_eof lg"
    using replay_after_snapshot [OF wal(1) assms(3) m(5)] by blast
  have "engine_open V wal d (new_engine opts) = (kOk, (new_engine opts)\<lparr>e_log := lg, e_index := ix\<rparr>)"
    using engine_open_snapshot [where d = d and opts = opts and entry = entry, OF assms(1,2) man named m(4) ix(3)] ix(1) by simp
  moreover have "engine_holds ((new_engine opts)\<lparr>e_log := lg, e_index := ix\<rparr>) es"
    using ix(2) by (simp add: engine_holds_def new_engine_def)
  ultimately show ?thesis by blast
qed

text \<open>The directory and the collection that is open on it.\<close>

definition snap_dir :: "bytes \<Rightarrow> bytes" where
  "snap_dir dir = dir @ ascii ''/snap''"

definition world :: "bytes \<Rightarrow> nat \<Rightarrow> dir \<times> collection \<Rightarrow> record_kv list \<Rightarrow> table \<Rightarrow> bool" where
  "world dir dim w es T \<longleftrightarrow> coll_inv (snd w) es (fst T) (snd T) \<and> c_dim (snd w) = dim \<and>
     e_opts (c_engine (snd w)) = default_options dir \<and> serves (fst w) (snap_dir dir) (e_log (c_engine (snd w))) es"

lemma collection_open_serves:
  assumes "good_env V" and "log_open (env_wal (env_store V)) wal new_log = (kOk, lg)" and "log_holds lg es"
    and "serves d (snap_dir dir) lg es" and "stored es dim items"
  obtains c where "collection_open V wal d (new_collection dir dim 16 200) = (kOk, c)"
    and "world dir dim (d, c) es (items, dom items)" and "e_log (c_engine c) = lg"
proof -
  have env: "benign_env (env_store V)" using assms(1) by (simp add: good_env_def)
  have sd: "o_snapshot_dir (default_options dir) = snap_dir dir" by (simp add: default_options_def snap_dir_def)
  obtain st where st: "engine_open (env_store V) wal d (new_engine (default_options dir)) = (kOk, st)" "engine_holds st es"
    using engine_open_serves [OF env assms(2,3), of d "default_options dir"] assms(4) sd by auto
  have "e_log st = lg" "e_opts st = default_options dir"
    using engine_open_log [OF st(1)] engine_open_opts [OF st(1)] assms(2) by (simp_all add: new_engine_def)
  then show ?thesis
    using collection_open_ok [OF assms(1) _ st(2) assms(5), of wal d dir 16 200] st(1) assms(4) that by (auto simp: world_def)
qed

section \<open>Events\<close>

datatype event =
    Request coll_request
  | Snapshot sysenv sysenv sysenv
  | Restart
  | Power_Cut coll_request nat
  | Snapshot_Cut sysenv sysenv sysenv "bytes option"

text \<open>
  \<open>Snapshot W S N\<close> is a snapshot whose system calls on the log (an \<open>fsync\<close>), on the snapshot file
  and on the manifest have the outcomes \<open>W\<close>, \<open>S\<close> and \<open>N\<close>; \<open>Power_Cut r n\<close> is a power failure after \<open>n\<close> bytes of the last
  request; \<open>Snapshot_Cut\<close> one inside a snapshot, which may also leave the temporary file of the
  manifest. After a power failure the directory is opened again.
\<close>

definition reopen :: "coll_env \<Rightarrow> bytes \<Rightarrow> dir \<Rightarrow> nat \<Rightarrow> bytes \<Rightarrow> status_code \<times> dir \<times> collection" where
  "reopen V dir d dim wal = (let (s, c) = collection_open V wal d (new_collection dir dim 16 200) in (s, d, c))"

definition env_failing :: "sysenv \<Rightarrow> sysenv \<Rightarrow> sysenv \<Rightarrow> coll_env \<Rightarrow> coll_env" where
  "env_failing W S N V = V\<lparr>env_store := failing W S N (env_store V)\<rparr>"

fun live :: "coll_env \<Rightarrow> bytes \<Rightarrow> event \<Rightarrow> dir \<times> collection \<Rightarrow> status_code \<times> dir \<times> collection" where
  "live V dir (Request r) (d, c) = (let (s, c) = coll_exec V r c in (s, d, c))"
| "live V dir (Snapshot W S N) (d, c) = (let (s, c, d) = collection_snapshot (env_failing W S N V) d c in (s, d, c))"
| "live V dir Restart (d, c) = reopen V dir d (c_dim c) (coll_disk c)"
| "live V dir (Power_Cut r n) (d, c) =
     (let (s, c') = coll_exec V r c in reopen V dir d (c_dim c) (take (coll_eof c + n) (coll_disk c')))"
| "live V dir (Snapshot_Cut W S N tmp) (d, c) =
     (let (s, c, d) = collection_snapshot (env_failing W S N V) d c
      in reopen V dir (d(man_path (snap_dir dir) @ ascii ''.tmp'' := tmp)) (c_dim c) (coll_disk c))"

definition forget :: "table \<Rightarrow> table" where
  "forget T = (fst T, dom (fst T))"

fun outcomes :: "coll_env \<Rightarrow> event \<Rightarrow> table \<Rightarrow> (status_code \<times> table) set" where
  "outcomes V (Request r) T = {table_step V r T}"
| "outcomes V (Snapshot W S N) T = UNIV \<times> {T}"
| "outcomes V Restart T = {(kOk, forget T)}"
| "outcomes V (Power_Cut r n) T = {(kOk, forget T), (kOk, forget (snd (table_step V r T)))}"
| "outcomes V (Snapshot_Cut W S N tmp) T = {(kOk, forget T)}"

fun event_ok :: "coll_env \<Rightarrow> nat \<Rightarrow> event \<Rightarrow> bool" where
  "event_ok V dim (Request r) = req_ok V dim r"
| "event_ok V dim (Power_Cut r n) = req_ok V dim r"
| "event_ok V dim _ = True"

fun event_cost :: "coll_env \<Rightarrow> event \<Rightarrow> nat" where
  "event_cost V (Request r) = req_cost V r"
| "event_cost V (Power_Cut r n) = req_cost V r"
| "event_cost V _ = 0"

fun takes_snapshot :: "event \<Rightarrow> bool" where
  "takes_snapshot (Snapshot W S N) = True"
| "takes_snapshot (Snapshot_Cut W S N tmp) = True"
| "takes_snapshot _ = False"

section \<open>One event\<close>

lemma eof_legacy_grew:
  assumes "coll_inv c es items K" and "coll_inv c' (es @ fs) items' K'" and "grew c c' k"
    and "serves d sd (e_log (c_engine c)) es"
  shows "serves d sd (e_log (c_engine c')) (es @ fs)"
proof (cases "l_eof (e_log (c_engine c)) = 0")
  case True
  then show ?thesis using serves_empty [OF assms(4) coll_inv_engine(3) [OF assms(1)]] by (simp add: serves_def)
next
  case False
  then show ?thesis using serves_extend [OF assms(4)] assms(3) by (simp add: grew_def)
qed

lemma live_request:
  assumes "good_env V" and "world dir dim (d, c) es T" and "req_ok V dim r" and "coll_eof c + req_cost V r < 2 ^ 63"
  obtains c' fs where "coll_exec V r c = (fst (table_step V r T), c')" and "world dir dim (d, c') (es @ fs) (snd (table_step V r T))"
    and "length fs \<le> 1" and "grew c c' (req_cost V r)"
proof -
  have inv: "coll_inv c es (fst T) (snd T)" and dim: "c_dim c = dim" using assms(2) by (simp_all add: world_def)
  obtain c' fs where step: "coll_exec V r c = (fst (table_step V r (fst T, snd T)), c')"
      "coll_inv c' (es @ fs) (fst (snd (table_step V r (fst T, snd T)))) (snd (snd (table_step V r (fst T, snd T))))"
      "length fs \<le> 1" "grew c c' (req_cost V r)"
    by (rule coll_exec_ok [OF assms(1) inv]) (use assms(3,4) dim in auto)
  then show ?thesis
    using eof_legacy_grew [OF inv step(2,4)] assms(2) that by (auto simp: world_def grew_def)
qed

lemma reopen_cut_serves:
  assumes "good_env V" and "world dir dim (d, c) es T" and "world dir dim (d, c') (es @ fs) T'" and "length fs \<le> 1"
    and "grew c c' k" and "coll_eof c' + 8 < 2 ^ 63"
  shows "\<exists>c2 gs T2. reopen V dir d dim (take (coll_eof c + n) (coll_disk c')) = (kOk, d, c2) \<and>
    world dir dim (d, c2) gs (forget T2) \<and> (T2 = T \<or> T2 = T') \<and>
    coll_eof c \<le> coll_eof c2 \<and> coll_eof c2 \<le> coll_eof c'"
proof -
  define m where "m = min (coll_eof c + n) (coll_eof c')"
  have inv: "coll_inv c es (fst T) (snd T)" "coll_inv c' (es @ fs) (fst T') (snd T')" using assms(2,3) by (simp_all add: world_def)
  note e = coll_inv_engine [OF inv(1)] and e' = coll_inv_engine [OF inv(2)]
  have env: "benign_env (env_store V)" "benign (env_wal (env_store V))" using assms(1) by (auto simp: good_env_def benign_env_def)
  have le: "coll_eof c \<le> m" "m \<le> coll_eof c'" using assms(5) by (auto simp: m_def grew_def coll_eof_def)
  have cut: "take (coll_eof c + n) (coll_disk c') = take m (coll_disk c')"
    using disk_length [OF inv(2)] by (simp add: m_def min_def)
  obtain lg gs where lg: "log_open (env_wal (env_store V)) (take m (coll_disk c')) new_log = (kOk, lg)" "log_holds lg gs"
      "gs = es \<or> gs = es @ fs" "serves d (snap_dir dir) lg gs" "coll_eof c \<le> l_eof lg"
  proof (cases "coll_eof c = 0")
    case True
    then have "d (man_path (snap_dir dir)) = None"
      using serves_empty [OF _ e(3)] assms(2) by (auto simp: world_def coll_eof_def)
    then have "serves d (snap_dir dir) lg' gs'" for lg' gs' by (simp add: serves_def)
    moreover obtain lg2 gs where "log_open (env_wal (env_store V)) (take m (coll_disk c')) new_log = (kOk, lg2)" "log_holds lg2 gs"
        "gs = es \<or> gs = es @ fs"
      using cut_last_record [OF env(2) e(3) e'(3) assms(4), of m] assms(5,6) le by (auto simp: grew_def coll_eof_def coll_disk_def)
    ultimately show ?thesis using True that by simp
  next
    case False
    obtain lg gs where c: "log_open (env_wal (env_store V)) (take m (f_data (l_file (e_log (c_engine c'))))) new_log = (kOk, lg)"
        "log_holds lg gs" "gs = es \<or> gs = es @ fs" "l_legacy lg = l_legacy (e_log (c_engine c))"
        "l_eof (e_log (c_engine c)) \<le> l_eof lg"
      by (rule cut_opened [OF env(2) e(3) e'(3) assms(4), of m]) (use assms(5,6) le False in \<open>auto simp: grew_def coll_eof_def\<close>)
    have "serves d (snap_dir dir) lg (es @ hs)" for hs
      using serves_extend [of d "snap_dir dir" "e_log (c_engine c)" es lg hs] assms(2) c(4,5) False by (auto simp: world_def coll_eof_def)
    from this [of "[]"] this [of fs] have "serves d (snap_dir dir) lg gs" using c(3) by auto
    then show ?thesis using c that by (simp add: coll_disk_def coll_eof_def)
  qed
  obtain T2 where T2: "T2 = T \<and> gs = es \<or> T2 = T' \<and> gs = es @ fs" using lg(3) by blast
  then have "stored gs dim (fst T2)" using e(2) e'(2) assms(2,3) by (auto simp: world_def)
  from collection_open_serves [OF assms(1) lg(1,2,4) this] obtain c2 where
    c2: "collection_open V (take m (coll_disk c')) d (new_collection dir dim 16 200) = (kOk, c2)" "world dir dim (d, c2) gs (fst T2, dom (fst T2))"
    "e_log (c_engine c2) = lg" .
  have "coll_eof c \<le> coll_eof c2" using lg(5) c2(3) by (simp add: coll_eof_def)
  moreover have "coll_eof c2 \<le> coll_eof c'" using collection_open_shrinks [OF c2(1)] le(2) by simp
  ultimately show ?thesis
    using c2 T2 cut by (intro exI [of _ c2] exI [of _ gs] exI [of _ T2]) (auto simp: reopen_def forget_def)
qed

lemma live_snapshot:
  assumes "good_env V" and "world dir dim (d, c) es T" and "0 < coll_eof c"
  obtains s c' d' where "collection_snapshot (env_failing W S N V) d c = (s, c', d')" and "world dir dim (d', c') es T"
    and "e_log (c_engine c') = e_log (c_engine c)"
proof -
  have inv: "coll_inv c es (fst T) (snd T)" and opts: "e_opts (c_engine c) = default_options dir" using assms(2) by (simp_all add: world_def)
  have sd: "o_snapshot_dir (e_opts (c_engine c)) = snap_dir dir" by (simp add: opts default_options_def snap_dir_def)
  obtain s st d' where snap: "engine_snapshot (failing W S N (env_store V)) d (c_engine c) = (s, st, d')" by (metis prod_cases3)
  have "serves d' (snap_dir dir) (e_log (c_engine c)) es \<and> e_log st = e_log (c_engine c) \<and> engine_holds st es \<and>
      e_opts st = e_opts (c_engine c)"
    using engine_snapshot_any [OF _ coll_inv_engine(1) [OF inv] _ _ snap] assms sd by (simp add: good_env_def world_def coll_eof_def)
  moreover have "collection_snapshot (env_failing W S N V) d c = (s, c\<lparr>c_engine := st\<rparr>, d')"
    using snap by (simp add: collection_snapshot_def env_failing_def)
  ultimately show ?thesis
    using assms(2) by (intro that [of s "c\<lparr>c_engine := st\<rparr>" d']) (auto simp: world_def coll_inv_def)
qed

lemma same_grew: "grew c c 0"
  by (simp add: grew_def)

lemma live_ok:
  assumes "good_env V" and "world dir dim w es T" and "event_ok V dim ev" and "coll_eof (snd w) + event_cost V ev + 8 < 2 ^ 63"
    and "takes_snapshot ev \<longrightarrow> 0 < coll_eof (snd w)"
  obtains s w' es' T' where "live V dir ev w = (s, w')" and "(s, T') \<in> outcomes V ev T" and "world dir dim w' es' T'"
    and "coll_eof (snd w) \<le> coll_eof (snd w')" and "coll_eof (snd w') \<le> coll_eof (snd w) + event_cost V ev"
proof -
  obtain d c where w: "w = (d, c)" by (cases w)
  note wd = assms(2) [unfolded w]
  have dim: "c_dim c = dim" and inv: "coll_inv c es (fst T) (snd T)" using wd by (simp_all add: world_def)
  show ?thesis
  proof (cases ev)
    case (Request r)
    obtain c' fs where "coll_exec V r c = (fst (table_step V r T), c')" "world dir dim (d, c') (es @ fs) (snd (table_step V r T))"
        "grew c c' (req_cost V r)"
      by (rule live_request [OF assms(1) wd]) (use assms(3,4) Request w in auto)
    then show ?thesis
      using w Request by (intro that [of "fst (table_step V r T)" "(d, c')" "snd (table_step V r T)" "es @ fs"]) (simp_all add: grew_def coll_eof_def)
  next
    case (Snapshot W S N)
    obtain s c' d' where "collection_snapshot (env_failing W S N V) d c = (s, c', d')" "world dir dim (d', c') es T"
        "e_log (c_engine c') = e_log (c_engine c)"
      by (rule live_snapshot [OF assms(1) wd]) (use assms(5) Snapshot w in auto)
    then show ?thesis using w Snapshot by (intro that [of s "(d', c')" T es]) (simp_all add: coll_eof_def)
  next
    case Restart
    have "world dir dim (d, c) (es @ []) T" using wd by simp
    from reopen_cut_serves [OF assms(1) wd this _ same_grew, of 0] assms(4) w obtain c2 gs where
      "reopen V dir d dim (take (coll_eof c + 0) (coll_disk c)) = (kOk, d, c2)" "world dir dim (d, c2) gs (forget T)" "coll_eof c2 = coll_eof c"
      by auto
    moreover have "take (coll_eof c + 0) (coll_disk c) = coll_disk c" using disk_length [OF inv] by simp
    ultimately show ?thesis using w Restart dim by (intro that [of kOk "(d, c2)" "forget T" gs]) simp_all
  next
    case (Power_Cut r n)
    obtain c' fs where ex: "coll_exec V r c = (fst (table_step V r T), c')" "world dir dim (d, c') (es @ fs) (snd (table_step V r T))"
        "length fs \<le> 1" "grew c c' (req_cost V r)"
      by (rule live_request [OF assms(1) wd]) (use assms(3,4) Power_Cut w in auto)
    have eof: "coll_eof c' \<le> coll_eof c + req_cost V r" using ex(4) by (simp add: grew_def coll_eof_def)
    then have "coll_eof c' + 8 < 2 ^ 63" using assms(4) Power_Cut w by simp
    from reopen_cut_serves [OF assms(1) wd ex(2-4) this, of n] obtain c2 gs T2 where
      "reopen V dir d dim (take (coll_eof c + n) (coll_disk c')) = (kOk, d, c2)" "world dir dim (d, c2) gs (forget T2)"
      "T2 = T \<or> T2 = snd (table_step V r T)" "coll_eof c \<le> coll_eof c2" "coll_eof c2 \<le> coll_eof c'"
      by blast
    then show ?thesis using w Power_Cut dim eof ex(1) by (intro that [of kOk "(d, c2)" "forget T2" gs]) auto
  next
    case (Snapshot_Cut W S N tmp)
    obtain s c' d' where snap: "collection_snapshot (env_failing W S N V) d c = (s, c', d')" "world dir dim (d', c') es T"
        "e_log (c_engine c') = e_log (c_engine c)"
      by (rule live_snapshot [OF assms(1) wd]) (use assms(5) Snapshot_Cut w in auto)
    define d2 where "d2 = d'(man_path (snap_dir dir) @ ascii ''.tmp'' := tmp)"
    have "ascii ''.tmp'' \<noteq> []" by simp
    then have same: "d2 (man_path (snap_dir dir)) = d' (man_path (snap_dir dir))" by (simp add: d2_def del: ascii_simps)
    have "\<forall>seq. d2 (snap_path (snap_dir dir) seq) = d' (snap_path (snap_dir dir) seq)" by (simp add: d2_def del: ascii_simps)
    from serves_same [OF _ same this] snap(2) have wd': "world dir dim (d2, c') es T" by (simp add: world_def)
    then have wd'': "world dir dim (d2, c') (es @ []) T" by simp
    have eof: "coll_eof c' = coll_eof c" using snap(3) by (simp add: coll_eof_def)
    then have size: "coll_eof c' + 8 < 2 ^ 63" using assms(4) w by simp
    have "length ([] :: record_kv list) \<le> 1" by simp
    from reopen_cut_serves [OF assms(1) wd' wd'' this same_grew size, of 0] obtain c2 gs where c2:
      "reopen V dir d2 dim (take (coll_eof c' + 0) (coll_disk c')) = (kOk, d2, c2)" "world dir dim (d2, c2) gs (forget T)" "coll_eof c' \<le> coll_eof c2" "coll_eof c2 \<le> coll_eof c'"
      by blast
    have inv': "coll_inv c' es (fst T) (snd T)" and dim': "c_dim c' = dim" using snap(2) by (simp_all add: world_def)
    have "take (coll_eof c' + 0) (coll_disk c') = coll_disk c'" using disk_length [OF inv'] by simp
    then have "live V dir ev w = (kOk, d2, c2)" using c2(1) w Snapshot_Cut dim' snap(1) by (simp only: live.simps split Let_def d2_def)
    then show ?thesis using c2(2-4) Snapshot_Cut w eof by (intro that [of kOk "(d2, c2)" "forget T" gs]) simp_all
  qed
qed

section \<open>Histories\<close>

fun live_run :: "coll_env \<Rightarrow> bytes \<Rightarrow> event list \<Rightarrow> dir \<times> collection \<Rightarrow> status_code list \<times> dir \<times> collection" where
  "live_run V dir [] w = ([], w)"
| "live_run V dir (ev # evs) w = (let (s, w) = live V dir ev w; (ss, w) = live_run V dir evs w in (s # ss, w))"

fun outcomes_run :: "coll_env \<Rightarrow> event list \<Rightarrow> table \<Rightarrow> (status_code list \<times> table) set" where
  "outcomes_run V [] T = {([], T)}"
| "outcomes_run V (ev # evs) T = (\<Union>(s, T') \<in> outcomes V ev T. (\<lambda>(ss, T''). (s # ss, T'')) ` outcomes_run V evs T')"

text \<open>No snapshot is taken before the log has a byte; what happens otherwise is \<open>empty_snapshot_blocks_open\<close>.\<close>

fun late_snapshots :: "coll_env \<Rightarrow> bytes \<Rightarrow> event list \<Rightarrow> dir \<times> collection \<Rightarrow> bool" where
  "late_snapshots V dir [] w \<longleftrightarrow> True"
| "late_snapshots V dir (ev # evs) w \<longleftrightarrow>
     (takes_snapshot ev \<longrightarrow> 0 < coll_eof (snd w)) \<and> late_snapshots V dir evs (snd (live V dir ev w))"

lemma live_run_ok:
  assumes "good_env V"
  shows "world dir dim w es T \<Longrightarrow> \<forall>ev \<in> set evs. event_ok V dim ev \<Longrightarrow>
    coll_eof (snd w) + sum_list (map (event_cost V) evs) + 8 < 2 ^ 63 \<Longrightarrow> late_snapshots V dir evs w \<Longrightarrow>
    \<exists>es' T'. (fst (live_run V dir evs w), T') \<in> outcomes_run V evs T \<and> world dir dim (snd (live_run V dir evs w)) es' T'"
proof (induction evs arbitrary: w es T)
  case (Cons ev evs)
  obtain s w1 es1 T1 where one: "live V dir ev w = (s, w1)" "(s, T1) \<in> outcomes V ev T" "world dir dim w1 es1 T1"
      "coll_eof (snd w1) \<le> coll_eof (snd w) + event_cost V ev"
    by (rule live_ok [OF assms Cons.prems(1), of ev]) (use Cons.prems(2-4) in auto)
  obtain es' T' where rest: "(fst (live_run V dir evs w1), T') \<in> outcomes_run V evs T1" "world dir dim (snd (live_run V dir evs w1)) es' T'"
    using Cons.IH [OF one(3)] Cons.prems(2-4) one(1,4) by auto
  have run: "live_run V dir (ev # evs) w = (s # fst (live_run V dir evs w1), snd (live_run V dir evs w1))"
    using one(1) by (simp add: split_def Let_def)
  have "(s # fst (live_run V dir evs w1), T') \<in> outcomes_run V (ev # evs) T"
    unfolding outcomes_run.simps using one(2) rest(1) by (intro UN_I [OF one(2)]) (simp add: image_iff, force)
  then show ?case unfolding run fst_conv snd_conv using rest(2) by blast
qed auto

lemma late_once_written:
  assumes "good_env V"
  shows "world dir dim w es T \<Longrightarrow> \<forall>ev \<in> set evs. event_ok V dim ev \<Longrightarrow>
    coll_eof (snd w) + sum_list (map (event_cost V) evs) + 8 < 2 ^ 63 \<Longrightarrow> 0 < coll_eof (snd w) \<Longrightarrow> late_snapshots V dir evs w"
proof (induction evs arbitrary: w es T)
  case (Cons ev evs)
  obtain s w1 es1 T1 where one: "live V dir ev w = (s, w1)" "world dir dim w1 es1 T1"
      "coll_eof (snd w) \<le> coll_eof (snd w1)" "coll_eof (snd w1) \<le> coll_eof (snd w) + event_cost V ev"
    by (rule live_ok [OF assms Cons.prems(1), of ev]) (use Cons.prems(2-4) in auto)
  then show ?case using Cons.IH [OF one(2)] Cons.prems by simp
qed simp

text \<open>
  C2: nothing is lost across snapshots, restarts and power failures, as long as no snapshot is
  taken before the log has its first byte (a snapshot of an empty log can make later opens fail,
  which \<open>empty_snapshot_blocks_open\<close> shows). Start from an empty directory and let any events
  follow: requests, snapshots during which any system call on the log, the snapshot file and the
  manifest may fail, restarts, and power failures at any byte of a request or anywhere in a
  snapshot; the calls of the requests and of the opens do not fail. Then every open in between
  succeeds, every request has the status that the abstract table gives, and in the end
  the collection shows a table that the events allow: a power failure loses at most the request
  it interrupts, a restart forgets which removed ids the graph knew, and a snapshot changes
  nothing, whatever it reports.
\<close>

theorem snapshot_histories:
  assumes "good_env V" and "d (man_path (snap_dir dir)) = None" and "\<forall>ev \<in> set evs. event_ok V dim ev"
    and "sum_list (map (event_cost V) evs) + 8 < 2 ^ 63"
    and "late_snapshots V dir evs (d, snd (collection_open V [] d (new_collection dir dim 16 200)))"
  shows "\<exists>c0 ss d' c' T. collection_open V [] d (new_collection dir dim 16 200) = (kOk, c0) \<and>
    live_run V dir evs (d, c0) = (ss, d', c') \<and> (ss, T) \<in> outcomes_run V evs (Map.empty, {}) \<and> shows_table V c' (fst T)"
proof -
  have mp: "d (dir @ ascii ''/snap/MANIFEST'') = None" using assms(2) by (simp add: man_path_def snap_dir_def)
  obtain c0 where c0: "collection_open V [] d (new_collection dir dim 16 200) = (kOk, c0)" "coll_inv c0 [] Map.empty {}"
      "c_dim c0 = dim" "coll_eof c0 = 0" "e_opts (c_engine c0) = default_options dir"
    using collection_open_fresh [of V d dir dim 16 200, OF assms(1) mp] by auto
  then have "world dir dim (d, c0) [] (Map.empty, {})" using assms(2) by (simp add: world_def serves_def)
  from live_run_ok [OF assms(1) this, of evs] assms(3-5) c0(1,4) obtain es T where
    T: "(fst (live_run V dir evs (d, c0)), T) \<in> outcomes_run V evs (Map.empty, {})" "world dir dim (snd (live_run V dir evs (d, c0))) es T"
    by auto
  have "shows_table V (snd (snd (live_run V dir evs (d, c0)))) (fst T)"
    using T(2) unfolding world_def by (blast intro: coll_inv_shows [OF assms(1)])
  then show ?thesis using c0(1) T(1) by (metis prod.collapse)
qed

lemma entry_logged:
  assumes "coll_inv c es items K" and "items i \<noteq> None"
  shows "0 < coll_eof c"
proof -
  note e = coll_inv_engine [OF assms(1)]
  have "stored_at (store_of es (key_of i)) (c_dim c) (items i)" using e(2) unfolding stored_def by blast
  then have "es \<noteq> []" using assms(2) by (auto simp: stored_at_def store_of_def)
  then have "0 < length (log_bytes l es)" for l by simp
  then show ?thesis using e(3) unfolding wf_log_def coll_eof_def by (metis add_is_0 length_append not_gr_zero)
qed

definition sample_events :: "event list" where
  "sample_events = [Snapshot calm_env (calm_env\<lparr>sys_write := (\<lambda>_ _. [Xfer 5, IoFail])\<rparr>) calm_env,
     Snapshot_Cut calm_env calm_env (calm_env\<lparr>sys_rename := False\<rparr>) (Some [115]), Power_Cut (CRemove 7) 3]"

lemma sample_events_ok:
  "\<forall>ev \<in> set (Request (CAdd 7 sample_entry) # sample_events). event_ok sample_env 1 ev"
  "sum_list (map (event_cost sample_env) (Request (CAdd 7 sample_entry) # sample_events)) \<le> 200"
  "table_step sample_env (CAdd 7 sample_entry) (Map.empty, {}) = (kOk, [7 \<mapsto> sample_entry], {7})"
  by (simp_all add: sample_events_def sample_entry_def entry_ok_def fits_def key_of_small entry_bytes_def sample_env_def
      encode_entry_meta_def meta_flags_def put_defs em_consts table_put_def entry_status_def status_ok_def)

theorem snapshot_histories_witness:
  "\<exists>c0 d' c' s. collection_open sample_env [] Map.empty (new_collection [100] 1 16 200) = (kOk, c0) \<and>
    live_run sample_env [100] (Request (CAdd 7 sample_entry) # sample_events) (Map.empty, c0) = ([kOk, s, kOk, kOk], d', c') \<and>
    (shows_table sample_env c' [7 \<mapsto> sample_entry] \<or> shows_table sample_env c' Map.empty)"
proof -
  let ?evs = "Request (CAdd 7 sample_entry) # sample_events" and ?start = "collection_open sample_env [] Map.empty (new_collection [100] 1 16 200)"
  obtain c0 where c0: "?start = (kOk, c0)" "coll_inv c0 [] Map.empty {}" "c_dim c0 = 1" "coll_eof c0 = 0"
      "e_opts (c_engine c0) = default_options [100]"
    using collection_open_fresh [OF good_sample_env, of Map.empty "[100]" 1 16 200] by auto
  then have w0: "world [100] 1 (Map.empty, c0) [] (Map.empty, {})" by (simp add: world_def serves_def)
  obtain s w1 es1 T1 where one: "live sample_env [100] (Request (CAdd 7 sample_entry)) (Map.empty, c0) = (s, w1)"
      "(s, T1) \<in> outcomes sample_env (Request (CAdd 7 sample_entry)) (Map.empty, {})" "world [100] 1 w1 es1 T1"
      "coll_eof (snd w1) \<le> coll_eof c0 + event_cost sample_env (Request (CAdd 7 sample_entry))"
    by (rule live_ok [OF good_sample_env w0, of "Request (CAdd 7 sample_entry)"]) (use sample_events_ok c0(4) in auto)
  have "T1 = ([7 \<mapsto> sample_entry], {7})" using one(2) sample_events_ok(3) by simp
  then have "0 < coll_eof (snd w1)" using one(3) entry_logged [of "snd w1" es1 "fst T1" "snd T1" 7] by (simp add: world_def)
  then have "late_snapshots sample_env [100] sample_events w1"
    using late_once_written [OF good_sample_env one(3), of sample_events] sample_events_ok(1,2) one(4) c0(4) by simp
  then have late: "late_snapshots sample_env [100] ?evs (Map.empty, snd ?start)" using one(1) c0(1) by simp
  have "sum_list (map (event_cost sample_env) ?evs) + 8 < 2 ^ 63" using sample_events_ok(2) by simp
  note histories = snapshot_histories [where d = Map.empty and dir = "[100]", OF good_sample_env _ sample_events_ok(1) this late]
  from histories [OF refl] obtain c1 ss d' c' T where
    run: "?start = (kOk, c1)" "live_run sample_env [100] ?evs (Map.empty, c1) = (ss, d', c')"
      "(ss, T) \<in> outcomes_run sample_env ?evs (Map.empty, {})" "shows_table sample_env c' (fst T)"
    by blast
  have "\<exists>s. ss = [kOk, s, kOk, kOk] \<and> (fst T = [7 \<mapsto> sample_entry] \<or> fst T = Map.empty)"
    using run(3) by (auto simp: sample_events_def sample_events_ok(3) forget_def simp del: table_step.simps(1,2))
  then show ?thesis using run(1,2,4) by auto
qed

end
