(* ===== verification/Collection_Threads.thy ===== *)
theory Collection_Threads
  imports Collection_Recovery
begin

text \<open>
  Several threads on one collection. A writer holds \<^verbatim>\<open>write_mutex\<close> from its first test to its
  return, but the engine, the graph and the filter index have locks of their own, which it takes
  one after the other; readers do not take \<^verbatim>\<open>write_mutex\<close> and see what is between. A writer is
  therefore a sequence of phases, each atomic under the lock of the part it works on, and
  \<open>coll_step\<close> interleaves the phases of the calls of all threads. The theorems say that the calls
  take effect in the order in which they return, as if one followed the other, and what a reader
  may see in the middle of one.
\<close>

section \<open>The phases of a writer\<close>

datatype phase =
    Begin coll_request
  | Logged coll_request
  | Indexed coll_request status_code
  | Unfiltered u64 "scalar_field list"
  | Finished status_code

text \<open>The engine first: the tests, the encoding and the record of the log.\<close>

definition log_entry ::
  "coll_env \<Rightarrow> coll_request \<Rightarrow> u64 \<Rightarrow> entry_meta \<Rightarrow> collection \<Rightarrow> collection \<times> phase" where
  "log_entry V r i m c =
     (case encode_entry_meta (env_sort V) (make_meta (em_vec m) (em_payload m) (em_scalars m)) of
        Inl s \<Rightarrow> (c, Finished s)
      | Inr bytes \<Rightarrow>
          let (s, st) = engine_put_vector_v2 (env_store V) (key_of i) bytes (c_engine c)
          in (c\<lparr>c_engine := st\<rparr>, if \<not> status_ok s then Finished s else Logged r))"

fun write_phase :: "coll_env \<Rightarrow> collection \<times> phase \<Rightarrow> collection \<times> phase" where
  "write_phase V (c, Begin (CAdd i m)) =
     (if hnsw_contains (c_index c) i then (c, Finished kInvalidArgument) else log_entry V (CAdd i m) i m c)"
| "write_phase V (c, Begin (CUpdate i m)) =
     (if \<not> hnsw_contains (c_index c) i then (c, Finished kNotFound) else log_entry V (CUpdate i m) i m c)"
| "write_phase V (c, Begin (CRemove i)) =
     (let (s, st) = engine_remove (env_store V) (key_of i) (c_engine c)
      in (c\<lparr>c_engine := st\<rparr>, if \<not> status_ok s then Finished s else Logged (CRemove i)))"
| "write_phase V (c, Logged (CAdd i m)) =
     (let (s, h) = add_item (env_hnsw V) (env_levels V (c_draws c)) i (em_vec m) (c_index c)
      in (c\<lparr>c_index := h, c_draws := c_draws c + (if status_ok s then 1 else 0)\<rparr>,
          if \<not> status_ok s then Finished s else Indexed (CAdd i m) kOk))"
| "write_phase V (c, Logged (CUpdate i m)) =
     (let (s, h) = update_item (env_hnsw V) (env_levels V (c_draws c)) i (em_vec m) (c_index c)
      in (c\<lparr>c_index := h, c_draws := c_draws c + (if status_ok s then 1 else 0)\<rparr>,
          if \<not> status_ok s then Finished s else Indexed (CUpdate i m) kOk))"
| "write_phase V (c, Logged (CRemove i)) =
     (let (s, h) = hnsw_remove i (c_index c) in (c\<lparr>c_index := h\<rparr>, Indexed (CRemove i) s))"
| "write_phase V (c, Indexed (CAdd i m) s) = (c\<lparr>c_filter := filter_add i (em_scalars m) (c_filter c)\<rparr>, Finished s)"
| "write_phase V (c, Indexed (CUpdate i m) s) = (c\<lparr>c_filter := filter_remove i (c_filter c)\<rparr>, Unfiltered i (em_scalars m))"
| "write_phase V (c, Indexed (CRemove i) s) = (c\<lparr>c_filter := filter_remove i (c_filter c)\<rparr>, Finished s)"
| "write_phase V (c, Unfiltered i fs) = (c\<lparr>c_filter := filter_add i fs (c_filter c)\<rparr>, Finished kOk)"
| "write_phase V (c, Finished s) = (c, Finished s)"

text \<open>Four phases are enough for every call, and together they are the operation of \<open>Collection\<close>.\<close>

definition phases :: "coll_env \<Rightarrow> coll_request \<Rightarrow> nat \<Rightarrow> collection \<Rightarrow> collection \<times> phase" where
  "phases V r n c = (write_phase V ^^ n) (c, Begin r)"

lemma phases_unfold:
  "phases V r 0 c = (c, Begin r)" "phases V r (Suc n) c = write_phase V (phases V r n c)"
  by (simp_all add: phases_def)

lemmas request_defs = log_entry_def collection_add_def collection_update_def collection_remove_def

lemma finished_stays: "phases V r n c = (c', Finished s) \<Longrightarrow> n \<le> m \<Longrightarrow> phases V r m c = (c', Finished s)"
  by (induction m) (auto simp: phases_unfold le_Suc_eq)

lemma phases_exec:
  assumes "coll_exec V r c = (s, c')"
  shows "phases V r 4 c = (c', Finished s)"
  using assms
  by (cases r) (auto simp: numeral_eq_Suc phases_unfold request_defs Let_def split: if_splits sum.splits prod.splits)

text \<open>
  A phase leaves each part as it was or as it will be; only the filter index is, between the two
  halves of an update, without the entry.
\<close>

lemma phases_parts:
  assumes "coll_exec V r c = (s, c')" and "phases V r n c = (c1, p)"
  shows "(c_engine c1 = c_engine c \<or> c_engine c1 = c_engine c') \<and> (c_index c1 = c_index c \<or> c_index c1 = c_index c') \<and>
    (c_filter c1 = c_filter c \<or> c_filter c1 = c_filter c' \<or>
     (\<exists>i m. r = CUpdate i m \<and> c_filter c1 = filter_remove i (c_filter c))) \<and> c_dim c1 = c_dim c"
proof -
  have "n \<ge> 4 \<or> n \<in> {0, 1, 2, 3}" by auto
  then consider "n \<ge> 4" | "n = 0" | "n = Suc 0" | "n = Suc (Suc 0)" | "n = Suc (Suc (Suc 0))" by fastforce
  then show ?thesis
  proof cases
    case 1
    then have "c1 = c'" using finished_stays [OF phases_exec [OF assms(1)] 1] assms(2) by simp
    moreover have "c_dim c' = c_dim c" using assms(1)
      by (cases r) (auto simp: request_defs Let_def split: if_splits sum.splits prod.splits)
    ultimately show ?thesis by simp
  next
    case 2
    then show ?thesis using assms(2) by (simp add: phases_unfold)
  qed (use assms in \<open>cases r; auto simp: phases_unfold request_defs Let_def split: if_splits sum.splits prod.splits\<close>)+
qed

section \<open>Threads\<close>

text \<open>
  Each thread has the calls it is going to make; at most one of them is inside the mutex. The
  calls that have returned are recorded with their status, in the order in which they returned.
\<close>

record system =
  sy_coll :: collection
  sy_todo :: "coll_request list list"
  sy_writer :: "(nat \<times> coll_request \<times> phase) option"
  sy_done :: "(nat \<times> coll_request \<times> status_code) list"

definition start_threads :: "collection \<Rightarrow> coll_request list list \<Rightarrow> system" where
  "start_threads c todo = \<lparr>sy_coll = c, sy_todo = todo, sy_writer = None, sy_done = []\<rparr>"

inductive coll_step :: "coll_env \<Rightarrow> system \<Rightarrow> system \<Rightarrow> bool" for V where
  enter: "sy_writer S = None \<Longrightarrow> t < length (sy_todo S) \<Longrightarrow> sy_todo S ! t = r # rs \<Longrightarrow>
    coll_step V S (S\<lparr>sy_writer := Some (t, r, Begin r), sy_todo := (sy_todo S)[t := rs]\<rparr>)"
| work: "sy_writer S = Some (t, r, p) \<Longrightarrow> \<forall>s. p \<noteq> Finished s \<Longrightarrow> write_phase V (sy_coll S, p) = (c, p') \<Longrightarrow>
    coll_step V S (S\<lparr>sy_coll := c, sy_writer := Some (t, r, p')\<rparr>)"
| return: "sy_writer S = Some (t, r, Finished s) \<Longrightarrow>
    coll_step V S (S\<lparr>sy_writer := None, sy_done := sy_done S @ [(t, r, s)]\<rparr>)"

definition done_requests :: "system \<Rightarrow> coll_request list" where
  "done_requests S = map (fst \<circ> snd) (sy_done S)"

definition done_codes :: "system \<Rightarrow> status_code list" where
  "done_codes S = map (snd \<circ> snd) (sy_done S)"

definition running_requests :: "system \<Rightarrow> coll_request list" where
  "running_requests S = (case sy_writer S of None \<Rightarrow> [] | Some (t, r, p) \<Rightarrow> [r])"

text \<open>The calls that thread \<open>t\<close> has made, is making and will make.\<close>

definition calls_of :: "system \<Rightarrow> nat \<Rightarrow> coll_request list" where
  "calls_of S t = map (fst \<circ> snd) (filter (\<lambda>d. fst d = t) (sy_done S)) @
     (case sy_writer S of Some (u, r, p) \<Rightarrow> if u = t then [r] else [] | None \<Rightarrow> []) @ sy_todo S ! t"

text \<open>
  The invariant: the calls that have returned ran one after the other, from the collection at
  the start to the one that the current writer began with.
\<close>

definition ran :: "coll_env \<Rightarrow> collection \<Rightarrow> system \<Rightarrow> bool" where
  "ran V c0 S \<longleftrightarrow> (\<exists>c. coll_run V (done_requests S) c0 = (done_codes S, c) \<and>
     (case sy_writer S of None \<Rightarrow> sy_coll S = c | Some (t, r, p) \<Rightarrow> \<exists>n. phases V r n c = (sy_coll S, p)))"

lemma coll_run_snoc:
  "coll_run V rs c = (ss, c1) \<Longrightarrow> coll_exec V r c1 = (s, c2) \<Longrightarrow> coll_run V (rs @ [r]) c = (ss @ [s], c2)"
  by (induction rs arbitrary: c ss) (auto split: prod.splits)

lemma phases_finished:
  assumes "phases V r n c = (c1, Finished s)"
  shows "coll_exec V r c = (s, c1)"
proof -
  obtain s' c' where ex: "coll_exec V r c = (s', c')" by fastforce
  have "phases V r (n + 4) c = (c1, Finished s)" using finished_stays [OF assms, of "n + 4"] by simp
  moreover have "phases V r (n + 4) c = (c', Finished s')" using finished_stays [OF phases_exec [OF ex], of "n + 4"] by simp
  ultimately show ?thesis using ex by simp
qed

lemma ran_step: "coll_step V S S' \<Longrightarrow> ran V c0 S \<Longrightarrow> ran V c0 S'"
proof (induction rule: coll_step.induct)
  case (enter S t r rs)
  have "phases V r 0 (sy_coll S) = (sy_coll S, Begin r)" by (simp add: phases_unfold)
  then show ?case using enter by (auto simp: ran_def done_requests_def done_codes_def)
next
  case (work S t r p c p')
  then obtain c1 n where "coll_run V (done_requests S) c0 = (done_codes S, c1)" "phases V r n c1 = (sy_coll S, p)"
    by (auto simp: ran_def)
  moreover from this have "phases V r (Suc n) c1 = (c, p')" using work(3) by (simp add: phases_unfold)
  ultimately show ?case by (auto simp: ran_def done_requests_def done_codes_def)
next
  case (return S t r s)
  then obtain c1 n where "coll_run V (done_requests S) c0 = (done_codes S, c1)" "phases V r n c1 = (sy_coll S, Finished s)"
    by (auto simp: ran_def)
  from coll_run_snoc [OF this(1) phases_finished [OF this(2)]] show ?case
    by (simp add: ran_def done_requests_def done_codes_def)
qed

lemma calls_step: "coll_step V S S' \<Longrightarrow> length (sy_todo S') = length (sy_todo S) \<and> (t < length (sy_todo S) \<longrightarrow> calls_of S' t = calls_of S t)"
  by (induction rule: coll_step.induct) (auto simp: calls_of_def nth_list_update)

definition all_requests :: "system \<Rightarrow> coll_request multiset" where
  "all_requests S = mset (done_requests S @ running_requests S @ concat (sy_todo S))"

lemma mset_concat_update:
  "t < length xss \<Longrightarrow> xss ! t = x # xs \<Longrightarrow> add_mset x (mset (concat (xss[t := xs]))) = mset (concat xss)"
proof (induction xss arbitrary: t)
  case (Cons ys xss)
  then show ?case by (cases t) simp_all
qed simp

lemma all_requests_step: "coll_step V S S' \<Longrightarrow> all_requests S' = all_requests S"
  by (induction rule: coll_step.induct)
     (simp_all add: all_requests_def done_requests_def running_requests_def mset_concat_update)

lemma reachable_ran:
  assumes "(coll_step V)\<^sup>*\<^sup>* (start_threads c0 todo) S"
  shows "ran V c0 S" and "all_requests S = mset (concat todo)"
    and "length (sy_todo S) = length todo" and "t < length todo \<Longrightarrow> calls_of S t = todo ! t"
proof -
  have "ran V c0 S \<and> all_requests S = mset (concat todo) \<and> length (sy_todo S) = length todo \<and>
      (\<forall>t < length todo. calls_of S t = todo ! t)"
    using assms
  proof induction
    case base
    then show ?case
      by (simp add: ran_def start_threads_def done_requests_def done_codes_def all_requests_def running_requests_def calls_of_def)
  next
    case (step S S')
    then show ?case using ran_step all_requests_step calls_step by metis
  qed
  then show "ran V c0 S" "all_requests S = mset (concat todo)" "length (sy_todo S) = length todo"
      "t < length todo \<Longrightarrow> calls_of S t = todo ! t" by auto
qed

section \<open>Every call returns\<close>

fun phase_rank :: "phase \<Rightarrow> nat" where
  "phase_rank (Begin r) = 4"
| "phase_rank (Logged r) = 3"
| "phase_rank (Indexed r s) = 2"
| "phase_rank (Unfiltered i fs) = 1"
| "phase_rank (Finished s) = 0"

definition remaining :: "system \<Rightarrow> nat" where
  "remaining S = 6 * length (concat (sy_todo S)) + (case sy_writer S of None \<Rightarrow> 0 | Some (t, r, p) \<Rightarrow> Suc (phase_rank p))"

lemma write_phase_rank: "write_phase V (c, p) = (c', p') \<Longrightarrow> \<forall>s. p \<noteq> Finished s \<Longrightarrow> phase_rank p' < phase_rank p"
  by (induction V "(c, p)" arbitrary: c p rule: write_phase.induct)
     (auto simp: log_entry_def Let_def split: if_splits sum.splits prod.splits)

lemma remaining_step: "coll_step V S S' \<Longrightarrow> remaining S' < remaining S"
proof (induction rule: coll_step.induct)
  case (enter S t r rs)
  then have "Suc (length (concat ((sy_todo S)[t := rs]))) = length (concat (sy_todo S))"
    using mset_concat_update [of t "sy_todo S" r rs] by (metis size_add_mset size_mset)
  then show ?case using enter(1) by (simp add: remaining_def)
next
  case (work S t r p c p')
  then show ?case using write_phase_rank [of V "sy_coll S" p c p'] by (simp add: remaining_def)
next
  case (return S t r s)
  then show ?case by (simp add: remaining_def)
qed

lemma remaining_run: "(coll_step V ^^ n) S S' \<Longrightarrow> n + remaining S' \<le> remaining S"
proof (induction n arbitrary: S')
  case (Suc n)
  then obtain U where "(coll_step V ^^ n) S U" "coll_step V U S'" by auto
  then show ?case using Suc.IH [of U] remaining_step [of V U S'] by simp
qed simp

lemma stuck_done:
  assumes "\<nexists>S'. coll_step V S S'"
  shows "sy_writer S = None \<and> concat (sy_todo S) = []"
proof -
  have writer: "sy_writer S = None"
  proof (cases "sy_writer S")
    case (Some w)
    obtain t r p where w: "w = (t, r, p)" by (cases w)
    have "\<exists>S'. coll_step V S S'"
    proof (cases "\<exists>s. p = Finished s")
      case True
      then show ?thesis using Some w coll_step.return by blast
    next
      case False
      then show ?thesis using Some w coll_step.work [of S t r p V] by (metis surj_pair)
    qed
    then show ?thesis using assms by blast
  qed simp
  have "sy_todo S ! t = []" if "t < length (sy_todo S)" for t
    using coll_step.enter [OF writer that] assms by (cases "sy_todo S ! t") auto
  then show ?thesis using writer by (auto simp: in_set_conv_nth)
qed

lemma run_to_end: "\<exists>n S'. (coll_step V ^^ n) S S' \<and> (\<nexists>S''. coll_step V S' S'')"
proof (induction "remaining S" arbitrary: S rule: less_induct)
  case less
  show ?case
  proof (cases "\<exists>U. coll_step V S U")
    case True
    then obtain U where U: "coll_step V S U" by blast
    from less [OF remaining_step [OF U]] obtain n S' where "(coll_step V ^^ n) U S'" "\<nexists>S''. coll_step V S' S''" by blast
    then show ?thesis using relpowp_Suc_I2 [of "coll_step V" S U n S'] U by blast
  next
    case False
    then show ?thesis by (intro exI [of _ 0] exI [of _ S]) simp
  qed
qed

section \<open>What the threads and their readers see\<close>

text \<open>The state between calls, from the invariant of the collection.\<close>

lemma ran_collection:
  assumes "good_env V" and "coll_inv c0 es items K" and "\<forall>r \<in> set (concat todo). req_ok V (c_dim c0) r"
    and "coll_eof c0 + sum_list (map (req_cost V) (concat todo)) < 2 ^ 63"
    and "mset rs \<subseteq># mset (concat todo)"
  shows "\<exists>c es'. coll_run V rs c0 = (fst (table_run V rs (items, K)), c) \<and>
    coll_inv c es' (fst (snd (table_run V rs (items, K)))) (snd (snd (table_run V rs (items, K))))"
proof -
  have "set rs \<subseteq> set (concat todo)" using assms(5) by (metis set_mset_mono set_mset_mset)
  moreover have "sum_list (map (req_cost V) rs) \<le> sum_list (map (req_cost V) (concat todo))"
  proof -
    obtain R where R: "mset (concat todo) = mset rs + R" using assms(5) by (metis subset_mset.le_iff_add)
    have "sum_list (map (req_cost V) (concat todo)) = sum_mset (image_mset (req_cost V) (mset (concat todo)))"
      by (simp only: mset_map [symmetric] sum_mset_sum_list)
    also have "\<dots> = sum_list (map (req_cost V) rs) + sum_mset (image_mset (req_cost V) R)"
      by (simp only: R image_mset_union sum_mset.union mset_map [symmetric] sum_mset_sum_list)
    finally show ?thesis by simp
  qed
  ultimately show ?thesis using coll_run_ok [OF assms(1,2), of rs] assms(3,4) by fastforce
qed

text \<open>
  C6: calls of several threads take effect one after the other. Start any number of threads, each
  with its list of adds, updates and removals, on a collection that implements a table. Whatever
  the interleaving of their phases: a run is finite, at most six steps per call; the calls that
  have returned gave the statuses that the abstract table gives when it executes them in the
  order of their returns; each thread's calls are in that thread's order; whenever no call is
  under way the collection shows that table; and a state without a next step is one in which
  every call has returned.
\<close>

theorem writers_linearize:
  assumes "good_env V" and "coll_inv c0 es items K" and "\<forall>r \<in> set (concat todo). req_ok V (c_dim c0) r"
    and "coll_eof c0 + sum_list (map (req_cost V) (concat todo)) < 2 ^ 63"
    and "(coll_step V ^^ n) (start_threads c0 todo) S"
  shows "n \<le> 6 * length (concat todo) \<and>
    done_codes S = fst (table_run V (done_requests S) (items, K)) \<and>
    (\<forall>t < length todo. calls_of S t = todo ! t) \<and>
    (sy_writer S = None \<longrightarrow> shows_table V (sy_coll S) (fst (snd (table_run V (done_requests S) (items, K))))) \<and>
    ((\<nexists>S'. coll_step V S S') \<longrightarrow> sy_writer S = None \<and> mset (done_requests S) = mset (concat todo))"
proof -
  have "(coll_step V)\<^sup>*\<^sup>* (start_threads c0 todo) S" using assms(5) by (rule relpowp_imp_rtranclp)
  note r = reachable_ran [OF this]
  have "mset (done_requests S) \<subseteq># mset (concat todo)" using r(2) unfolding all_requests_def mset_append
    by (metis mset_subset_eq_add_left)
  from ran_collection [OF assms(1-4) this] obtain c es' where
    c: "coll_run V (done_requests S) c0 = (fst (table_run V (done_requests S) (items, K)), c)"
      "coll_inv c es' (fst (snd (table_run V (done_requests S) (items, K)))) (snd (snd (table_run V (done_requests S) (items, K))))"
    by blast
  have "n \<le> 6 * length (concat todo)"
    using remaining_run [OF assms(5)] by (simp add: remaining_def start_threads_def)
  moreover have "done_codes S = fst (table_run V (done_requests S) (items, K))" using r(1) c(1) by (auto simp: ran_def)
  moreover have "sy_writer S = None \<longrightarrow> sy_coll S = c" using r(1) c(1) by (auto simp: ran_def)
  moreover have "(\<nexists>S'. coll_step V S S') \<longrightarrow> sy_writer S = None \<and> mset (done_requests S) = mset (concat todo)"
  proof
    assume stuck: "\<nexists>S'. coll_step V S S'"
    then have "all_requests S = mset (done_requests S)"
      using stuck_done [OF stuck] by (simp only: all_requests_def running_requests_def option.case append_Nil append_Nil2)
    then show "sy_writer S = None \<and> mset (done_requests S) = mset (concat todo)" using r(2) stuck_done [OF stuck] by simp
  qed
  ultimately show ?thesis using r(4) coll_inv_shows [OF assms(1) c(2)] by auto
qed

text \<open>Two threads, of which one removes the entry 7 and the other adds it: the add is refused in either order.\<close>

definition sample_todo :: "coll_request list list" where
  "sample_todo = [[CRemove 7], [CAdd 7 (make_meta [2] [105] [])]]"

lemma sample_todo_ok:
  "\<forall>r \<in> set (concat sample_todo). req_ok sample_env 1 r"
  "sum_list (map (req_cost sample_env) (concat sample_todo)) \<le> 200"
  by (simp_all add: sample_todo_def make_meta_def entry_ok_def fits_def key_of_small entry_bytes_def sample_env_def
      encode_entry_meta_def meta_flags_def put_defs em_consts)

lemma two_elements: "mset xs = {#a, b#} \<Longrightarrow> xs = [a, b] \<or> xs = [b, a]"
proof (cases xs)
  case (Cons x ys)
  assume *: "mset xs = {#a, b#}"
  then have "x = a \<and> mset ys = {#b#} \<or> x = b \<and> mset ys = {#a#}" using Cons by (auto simp: add_eq_conv_ex)
  then show ?thesis using Cons by (auto simp: mset_single_iff)
qed simp

theorem writers_linearize_witness:
  "\<exists>S. (coll_step sample_env)\<^sup>*\<^sup>* (start_threads sample_coll sample_todo) S \<and> length (sy_done S) = 2 \<and>
     shows_table sample_env (sy_coll S) Map.empty"
proof (rule sample_coll_inv)
  fix es
  assume inv: "coll_inv sample_coll es [7 \<mapsto> sample_entry] {7, 9}" and rest: "c_dim sample_coll = 1" "coll_eof sample_coll \<le> 200"
  obtain n S where S: "(coll_step sample_env ^^ n) (start_threads sample_coll sample_todo) S" "\<nexists>S'. coll_step sample_env S S'"
    using run_to_end by blast
  have room: "coll_eof sample_coll + sum_list (map (req_cost sample_env) (concat sample_todo)) < 2 ^ 63"
    using rest(2) sample_todo_ok(2) by simp
  let ?a = "CRemove 7" and ?b = "CAdd 7 (make_meta [2] [105] [])"
  note w = writers_linearize [OF good_sample_env inv sample_todo_ok(1) [folded rest(1)] room S(1)]
  have "mset (done_requests S) = mset (concat sample_todo)" using w S(2) by blast
  then have "done_requests S = [?a, ?b] \<or> done_requests S = [?b, ?a]"
    by (intro two_elements) (simp add: sample_todo_def)
  moreover have "shows_table sample_env (sy_coll S) (fst (snd (table_run sample_env (done_requests S) ([7 \<mapsto> sample_entry], {7, 9}))))"
    using w S(2) by meson
  ultimately have "shows_table sample_env (sy_coll S) Map.empty" and "length (done_requests S) = 2" by auto
  then show ?thesis using relpowp_imp_rtranclp [OF S(1)] by (auto simp: done_requests_def)
qed

text \<open>
  C7: what a reader sees in the middle of a call. At every moment \<^verbatim>\<open>get\<close> returns for every id what one
  table says, and \<^verbatim>\<open>size\<close> and \<^verbatim>\<open>search\<close> answer by one table; each is the table before the call that is under
  way or the one after it (when no call is under way they are the same).
\<close>

theorem readers_see_before_or_after:
  assumes "good_env V" and "coll_inv c0 es items K" and "\<forall>r \<in> set (concat todo). req_ok V (c_dim c0) r"
    and "coll_eof c0 + sum_list (map (req_cost V) (concat todo)) < 2 ^ 63"
    and "(coll_step V)\<^sup>*\<^sup>* (start_threads c0 todo) S"
  defines "tables \<equiv> {fst (snd (table_run V (done_requests S) (items, K))),
    fst (snd (table_run V (done_requests S @ running_requests S) (items, K)))}"
  shows "(\<exists>t \<in> tables. \<forall>i. collection_get V (sy_coll S) i = payload_result (t i)) \<and>
    (\<exists>t \<in> tables. collection_size (sy_coll S) = card (dom t) \<and>
      (\<forall>q k opts. hits_ok V t q k (collection_search V (sy_coll S) (Some q) k opts)))"
proof -
  note r = reachable_ran [OF assms(5)]
  let ?rs = "done_requests S"
  have sub: "mset ?rs \<subseteq># mset (concat todo)" "mset (?rs @ running_requests S) \<subseteq># mset (concat todo)"
    using r(2) unfolding all_requests_def by (metis mset_append mset_subset_eq_add_left, metis append_assoc mset_append mset_subset_eq_add_left)
  from ran_collection [OF assms(1-4) sub(1)] obtain c es1 where
    c: "coll_run V ?rs c0 = (fst (table_run V ?rs (items, K)), c)"
      "coll_inv c es1 (fst (snd (table_run V ?rs (items, K)))) (snd (snd (table_run V ?rs (items, K))))" by blast
  from ran_collection [OF assms(1-4) sub(2)] obtain c' es2 where
    c': "coll_run V (?rs @ running_requests S) c0 = (fst (table_run V (?rs @ running_requests S) (items, K)), c')"
      "coll_inv c' es2 (fst (snd (table_run V (?rs @ running_requests S) (items, K))))
         (snd (snd (table_run V (?rs @ running_requests S) (items, K))))" by blast
  have parts: "(c_engine (sy_coll S) = c_engine c \<or> c_engine (sy_coll S) = c_engine c') \<and>
      (c_index (sy_coll S) = c_index c \<or> c_index (sy_coll S) = c_index c')"
  proof (cases "sy_writer S")
    case None
    then show ?thesis using r(1) c(1) by (auto simp: ran_def)
  next
    case (Some w)
    obtain t q p where w: "w = (t, q, p)" by (cases w)
    obtain n where n: "phases V q n c = (sy_coll S, p)" using r(1) c(1) Some w by (auto simp: ran_def)
    obtain s c2 where ex: "coll_exec V q c = (s, c2)" by fastforce
    have "c' = c2" using coll_run_snoc [OF c(1) ex] c'(1) Some w by (simp add: running_requests_def)
    then show ?thesis using phases_parts [OF ex n] by simp
  qed
  have get: "collection_get V x i = collection_get V y i" if "c_engine x = c_engine y" for x y i
    using that by (simp add: collection_get_def)
  have ix: "collection_size x = collection_size y" "collection_search V x q k opts = collection_search V y q k opts"
    if "c_index x = c_index y" for x y q k opts
    using that by (simp add: collection_size_def, cases q) (simp_all add: collection_search_def)
  have ok: "\<forall>i. collection_get V x i = payload_result (t i)" "collection_size x = card (dom t)"
      "hits_ok V t q k (collection_search V x (Some q) k opts)" if "coll_inv x es t K" for x es t K q k opts
    using collection_get_ok [OF assms(1) that] collection_size_ok [OF that] index_hits_ok(1) [OF assms(1) that]
    by (simp_all add: collection_search_def search_top_k_def hits_ok_def)
  let ?t = "fst (snd (table_run V ?rs (items, K)))" and ?t' = "fst (snd (table_run V (?rs @ running_requests S) (items, K)))"
  have in_tables: "?t \<in> tables" "?t' \<in> tables" by (simp_all add: tables_def)
  have "\<exists>t \<in> tables. \<forall>i. collection_get V (sy_coll S) i = payload_result (t i)"
    using parts [THEN conjunct1]
  proof
    assume "c_engine (sy_coll S) = c_engine c"
    from get [OF this] ok(1) [OF c(2)] show ?thesis by (intro bexI [OF _ in_tables(1)]) simp
  next
    assume "c_engine (sy_coll S) = c_engine c'"
    from get [OF this] ok(1) [OF c'(2)] show ?thesis by (intro bexI [OF _ in_tables(2)]) simp
  qed
  moreover have "\<exists>t \<in> tables. collection_size (sy_coll S) = card (dom t) \<and>
      (\<forall>q k opts. hits_ok V t q k (collection_search V (sy_coll S) (Some q) k opts))"
    using parts [THEN conjunct2]
  proof
    assume "c_index (sy_coll S) = c_index c"
    from ix [OF this] ok(2,3) [OF c(2)] show ?thesis by (intro bexI [OF _ in_tables(1)]) simp
  next
    assume "c_index (sy_coll S) = c_index c'"
    from ix [OF this] ok(2,3) [OF c'(2)] show ?thesis by (intro bexI [OF _ in_tables(2)]) simp
  qed
  ultimately show ?thesis by blast
qed

text \<open>A single call, stopped after \<open>n\<close> of its phases.\<close>

lemma reach_phase:
  assumes "\<forall>j < n. \<forall>s. snd (phases V r j c) \<noteq> Finished s"
  shows "(coll_step V)\<^sup>*\<^sup>* (start_threads c [[r]])
    \<lparr>sy_coll = fst (phases V r n c), sy_todo = [[]], sy_writer = Some (0, r, snd (phases V r n c)), sy_done = []\<rparr>"
  using assms
proof (induction n)
  case 0
  have "coll_step V (start_threads c [[r]]) \<lparr>sy_coll = c, sy_todo = [[]], sy_writer = Some (0, r, Begin r), sy_done = []\<rparr>"
    using coll_step.enter [of "start_threads c [[r]]" 0 r "[]" V] by (simp add: start_threads_def)
  then show ?case by (simp add: phases_unfold)
next
  case (Suc n)
  let ?S = "\<lambda>n. \<lparr>sy_coll = fst (phases V r n c), sy_todo = [[]], sy_writer = Some (0, r, snd (phases V r n c)), sy_done = []\<rparr>"
  have "coll_step V (?S n) (?S (Suc n))"
    using coll_step.work [of "?S n" 0 r "snd (phases V r n c)" V "fst (phases V r (Suc n) c)" "snd (phases V r (Suc n) c)"] Suc.prems
    by (simp add: phases_unfold)
  moreover have "(coll_step V)\<^sup>*\<^sup>* (start_threads c [[r]]) (?S n)" using Suc by simp
  ultimately show ?case by (rule rtranclp.rtrancl_into_rtrancl [rotated])
qed

lemma remove_half_done:
  assumes "coll_exec V (CRemove i) c = (kOk, c')"
  shows "\<exists>S. (coll_step V)\<^sup>*\<^sup>* (start_threads c [[CRemove i]]) S \<and> done_requests S = [] \<and> running_requests S = [CRemove i] \<and>
    c_engine (sy_coll S) = c_engine c' \<and> c_index (sy_coll S) = c_index c"
proof -
  let ?S = "\<lparr>sy_coll = fst (phases V (CRemove i) 1 c), sy_todo = [[]], sy_writer = Some (0, CRemove i, snd (phases V (CRemove i) 1 c)), sy_done = []\<rparr>"
  have "(coll_step V)\<^sup>*\<^sup>* (start_threads c [[CRemove i]]) ?S"
    by (rule reach_phase) (simp add: phases_unfold)
  moreover have "c_engine (fst (phases V (CRemove i) 1 c)) = c_engine c' \<and> c_index (fst (phases V (CRemove i) 1 c)) = c_index c"
    using assms by (auto simp: phases_unfold request_defs Let_def status_ok_def split: if_splits prod.splits)
  ultimately show ?thesis by (intro exI [of _ ?S]) (simp add: done_requests_def running_requests_def)
qed

theorem readers_see_before_or_after_witness:
  "\<exists>S. (coll_step sample_env)\<^sup>*\<^sup>* (start_threads sample_coll [[CRemove 7]]) S \<and>
     collection_get sample_env (sy_coll S) 7 = Inl kNotFound \<and> collection_size (sy_coll S) = 1 \<and>
     (\<exists>t \<in> {[7 \<mapsto> sample_entry], Map.empty}. hits_ok sample_env t [3] 5
        (collection_search sample_env (sy_coll S) (Some [3]) 5 \<lparr>so_ef_search = 10, so_filter_mode = ModeNone\<rparr>))"
proof (rule sample_coll_inv)
  fix es
  assume inv: "coll_inv sample_coll es [7 \<mapsto> sample_entry] {7, 9}" and rest: "c_dim sample_coll = 1" "coll_eof sample_coll \<le> 200"
  have ok: "\<forall>r \<in> set (concat [[CRemove 7]]). req_ok sample_env (c_dim sample_coll) r"
      "coll_eof sample_coll + sum_list (map (req_cost sample_env) (concat [[CRemove 7]])) < 2 ^ 63"
    using rest(2) by (simp_all add: key_of_small fits_def)
  obtain c' es' where c': "coll_exec sample_env (CRemove 7) sample_coll = (kOk, c')" "coll_inv c' es' Map.empty {7, 9}"
    by (rule coll_exec_ok [OF good_sample_env inv, of "CRemove 7"]) (use ok in auto)
  obtain S where S: "(coll_step sample_env)\<^sup>*\<^sup>* (start_threads sample_coll [[CRemove 7]]) S"
      "done_requests S = []" "running_requests S = [CRemove 7]"
      "c_engine (sy_coll S) = c_engine c'" "c_index (sy_coll S) = c_index sample_coll"
    using remove_half_done [OF c'(1)] by blast
  have "collection_get sample_env (sy_coll S) 7 = collection_get sample_env c' 7" using S(4) by (simp add: collection_get_def)
  also have "\<dots> = Inl kNotFound" using collection_get_ok [OF good_sample_env c'(2)] by (simp add: payload_result_def)
  finally have "collection_get sample_env (sy_coll S) 7 = Inl kNotFound" .
  moreover have "collection_size (sy_coll S) = 1"
    using collection_size_ok [OF inv] S(5) by (simp add: collection_size_def)
  ultimately show ?thesis
    using readers_see_before_or_after [OF good_sample_env inv ok S(1)] S by auto
qed

section \<open>An update hides the entry\<close>

lemma removed_matches_nothing:
  assumes "filtered fx items" and "expr \<noteq> []"
  shows "\<not> filter_matches (filter_remove i fx) i expr"
proof -
  obtain cur names where "indexes fx cur names" using assms(1) by (auto simp: filtered_def)
  from filter_matches_sat [OF indexes.removed [OF this, of i], of i expr] assms(2) show ?thesis
    by (cases expr) (auto simp: sat_clause_def)
qed

text \<open>A filtered search returns only what the filter index lets through at that moment.\<close>

lemma search_filtered_matches:
  assumes "lib_ok (env_hnsw V)" and "represents (c_index c) m K" and "expr \<noteq> []"
  shows "\<forall>r \<in> set (search_filtered V c (Some q) k expr opts). filter_matches (c_filter c) (sr_id r) expr"
proof -
  have post: "\<forall>r \<in> set (post_filter_loop V c q k expr n ef). filter_matches (c_filter c) (sr_id r) expr" for n ef
    by (induction n arbitrary: ef) (auto simp: Let_def dest!: in_set_takeD)
  show ?thesis
    using search_represents [OF assms(1,2), of q k "so_ef_search opts" "Some (\<lambda>i. filter_matches (c_filter c) i expr)"] post assms(3)
    by (auto simp: search_filtered_def passes_def simp del: post_filter_loop.simps)
qed

lemma update_half_done:
  assumes "coll_exec V (CUpdate i m) c = (kOk, c')"
  shows "\<exists>S. (coll_step V)\<^sup>*\<^sup>* (start_threads c [[CUpdate i m]]) S \<and>
    c_engine (sy_coll S) = c_engine c' \<and> c_index (sy_coll S) = c_index c' \<and> c_filter (sy_coll S) = filter_remove i (c_filter c)"
proof -
  let ?p = "phases V (CUpdate i m)"
  let ?S = "\<lparr>sy_coll = fst (?p 3 c), sy_todo = [[]], sy_writer = Some (0, CUpdate i m, snd (?p 3 c)), sy_done = []\<rparr>"
  note defs = phases_unfold request_defs Let_def status_ok_def
  have "\<forall>s. snd (?p 0 c) \<noteq> Finished s" by (simp add: phases_unfold)
  moreover have "\<forall>s. snd (?p (Suc 0) c) \<noteq> Finished s" "\<forall>s. snd (?p (Suc (Suc 0)) c) \<noteq> Finished s"
    using assms by (auto simp: defs split: if_splits sum.splits prod.splits dest: encode_error_not_ok)
  ultimately have "\<forall>j < 3. \<forall>s. snd (?p j c) \<noteq> Finished s" by (auto simp: numeral_3_eq_3 less_Suc_eq)
  from reach_phase [OF this] have "(coll_step V)\<^sup>*\<^sup>* (start_threads c [[CUpdate i m]]) ?S" .
  moreover have "c_engine (fst (?p 3 c)) = c_engine c' \<and> c_index (fst (?p 3 c)) = c_index c' \<and>
      c_filter (fst (?p 3 c)) = filter_remove i (c_filter c)"
    using assms by (auto simp: numeral_3_eq_3 defs split: if_splits sum.splits prod.splits dest: encode_error_not_ok)
  ultimately show ?thesis by (intro exI [of _ ?S]) simp
qed

text \<open>
  C8: an update hides its entry for a moment. During every successful update there is a moment at
  which no filtered search, in either mode and for whatever filter, returns the entry, also when
  it satisfies the filter before and after the update, while \<^verbatim>\<open>get\<close> already returns the new payload.
\<close>

theorem update_hides_entry:
  assumes "good_env V" and "coll_inv c es items K" and "i \<in> K" and "entry_status V m = kOk"
    and "req_ok V (c_dim c) (CUpdate i m)" and "coll_eof c + req_cost V (CUpdate i m) < 2 ^ 63"
  shows "\<exists>S. (coll_step V)\<^sup>*\<^sup>* (start_threads c [[CUpdate i m]]) S \<and> collection_get V (sy_coll S) i = Inr (em_payload m) \<and>
    (\<forall>expr q k opts. expr \<noteq> [] \<longrightarrow> i \<notin> sr_id ` set (search_filtered V (sy_coll S) (Some q) k expr opts))"
proof -
  obtain c' es' where c': "coll_exec V (CUpdate i m) c = (kOk, c')" "coll_inv c' es' (items(i \<mapsto> m)) (insert i K)"
    by (rule coll_exec_ok [OF assms(1,2,5,6)]) (use assms(3,4) in \<open>auto simp: table_put_def status_ok_def\<close>)
  obtain S where S: "(coll_step V)\<^sup>*\<^sup>* (start_threads c [[CUpdate i m]]) S" "c_engine (sy_coll S) = c_engine c'"
      "c_index (sy_coll S) = c_index c'" "c_filter (sy_coll S) = filter_remove i (c_filter c)"
    using update_half_done [OF c'(1)] by blast
  have "collection_get V (sy_coll S) i = collection_get V c' i" using S(2) by (simp add: collection_get_def)
  also have "\<dots> = Inr (em_payload m)" using collection_get_ok [OF assms(1) c'(2)] by (simp add: payload_result_def)
  finally have "collection_get V (sy_coll S) i = Inr (em_payload m)" .
  moreover have "i \<notin> sr_id ` set (search_filtered V (sy_coll S) (Some q) k expr opts)" if "expr \<noteq> []" for expr q k opts
  proof -
    have "represents (c_index (sy_coll S)) (vectors (items(i \<mapsto> m))) (insert i K)" using c'(2) S(3) by (simp add: coll_inv_def)
    moreover have "\<not> filter_matches (c_filter (sy_coll S)) i expr"
      using removed_matches_nothing [of "c_filter c" items expr i] that assms(2) S(4) by (simp add: coll_inv_def)
    ultimately show ?thesis using search_filtered_matches [of V "sy_coll S"] assms(1) that by (fastforce simp: good_env_def)
  qed
  ultimately show ?thesis using S(1) by blast
qed

theorem update_hides_entry_witness:
  "\<exists>S. (coll_step sample_env)\<^sup>*\<^sup>* (start_threads sample_coll [[CUpdate 7 sample_entry]]) S \<and>
     7 \<notin> sr_id ` set (search_filtered sample_env (sy_coll S) (Some [3]) 5 [\<lparr>cl_field = [97], cl_op = FEq, cl_value = VInt 5\<rparr>]
       \<lparr>so_ef_search = 10, so_filter_mode = ModeInFilter\<rparr>)"
proof (rule sample_coll_inv)
  fix es
  assume inv: "coll_inv sample_coll es [7 \<mapsto> sample_entry] {7, 9}" and rest: "c_dim sample_coll = 1" "coll_eof sample_coll \<le> 200"
  have ok: "req_ok sample_env 1 (CUpdate 7 sample_entry)" "req_cost sample_env (CUpdate 7 sample_entry) \<le> 200"
    "entry_status sample_env sample_entry = kOk"
    by (simp_all add: sample_entry_def entry_ok_def fits_def key_of_small entry_bytes_def entry_status_def sample_env_def
        encode_entry_meta_def meta_flags_def put_defs em_consts)
  then show ?thesis
    using update_hides_entry [OF good_sample_env inv, of 7 sample_entry] rest by force
qed

end
