(* ===== verification/Api_Threads.thy ===== *)
theory Api_Threads
  imports C_Api_Correct
begin

text \<open>
  Threads that share handles (\<^verbatim>\<open>cpp_engine/c_api.cpp\<close>). \<^verbatim>\<open>g_handles_mutex\<close> guards the table of
  handles and nothing else: a call looks its handle up under the mutex, releases it, and then works
  with the raw pointer, while another thread may close the handle, which frees it. \<open>api_step\<close>
  interleaves these moments. The theorems say under which discipline no call ever touches a
  handle that is gone, that the calls then take effect one after the other, and what goes wrong
  without it. The last section is about a search, which reads the collection several times.
\<close>

section \<open>Calls and threads\<close>

datatype api_call = Invoke u64 api_request | Close u64

fun call_exec :: "api_env \<Rightarrow> api_call \<Rightarrow> handles \<Rightarrow> (int \<times> handles) outcome" where
  "call_exec E (Invoke h r) G = api_exec E h r G"
| "call_exec E (Close h) G = Returns (lumina_close h G)"

fun calls_run :: "api_env \<Rightarrow> api_call list \<Rightarrow> handles \<Rightarrow> (int list \<times> handles) outcome" where
  "calls_run E [] G = Returns ([], G)"
| "calls_run E (q # qs) G =
     (case call_exec E q G of
        Out_Of_Bounds \<Rightarrow> Out_Of_Bounds
      | Returns (x, G) \<Rightarrow>
          (case calls_run E qs G of Out_Of_Bounds \<Rightarrow> Out_Of_Bounds | Returns (xs, G) \<Rightarrow> Returns (x # xs, G)))"

text \<open>
  \<open>as_held\<close> has the pointer that a thread got from \<^verbatim>\<open>lookup\<close> until its call returns, with the
  request and, once it took effect, the result. \<open>as_done\<close> records the calls as they take effect.
\<close>

record api_system =
  as_table :: handles
  as_todo :: "api_call list list"
  as_held :: "nat \<rightharpoonup> u64 \<times> api_request \<times> int option"
  as_done :: "(nat \<times> api_call \<times> int) list"

definition start_clients :: "handles \<Rightarrow> api_call list list \<Rightarrow> api_system" where
  "start_clients G todo = \<lparr>as_table = G, as_todo = todo, as_held = Map.empty, as_done = []\<rparr>"

inductive api_step :: "api_env \<Rightarrow> api_system \<Rightarrow> api_system \<Rightarrow> bool" for E where
  unknown: "t < length (as_todo S) \<Longrightarrow> as_held S t = None \<Longrightarrow> as_todo S ! t = Invoke h r # qs \<Longrightarrow>
    api_lookup (as_table S) h = None \<Longrightarrow>
    api_step E S (S\<lparr>as_todo := (as_todo S)[t := qs], as_done := as_done S @ [(t, Invoke h r, -1)]\<rparr>)"
| found: "t < length (as_todo S) \<Longrightarrow> as_held S t = None \<Longrightarrow> as_todo S ! t = Invoke h r # qs \<Longrightarrow>
    api_lookup (as_table S) h = Some hn \<Longrightarrow>
    api_step E S (S\<lparr>as_todo := (as_todo S)[t := qs], as_held := (as_held S)(t \<mapsto> (h, r, None))\<rparr>)"
| effect: "as_held S t = Some (h, r, None) \<Longrightarrow> as_table S h = Some hn \<Longrightarrow> api_exec E h r (as_table S) = Returns (x, G) \<Longrightarrow>
    api_step E S (S\<lparr>as_table := G, as_held := (as_held S)(t \<mapsto> (h, r, Some x)), as_done := as_done S @ [(t, Invoke h r, x)]\<rparr>)"
| leave: "as_held S t = Some (h, r, Some x) \<Longrightarrow> as_table S h = Some hn \<Longrightarrow>
    api_step E S (S\<lparr>as_held := (as_held S)(t := None)\<rparr>)"
| close: "t < length (as_todo S) \<Longrightarrow> as_held S t = None \<Longrightarrow> as_todo S ! t = Close h # qs \<Longrightarrow>
    lumina_close h (as_table S) = (x, G) \<Longrightarrow>
    api_step E S (S\<lparr>as_table := G, as_todo := (as_todo S)[t := qs], as_done := as_done S @ [(t, Close h, x)]\<rparr>)"

text \<open>A thread is in the middle of a call on a handle that has been freed.\<close>

definition dangles :: "api_system \<Rightarrow> bool" where
  "dangles S \<longleftrightarrow> (\<exists>t h r x. as_held S t = Some (h, r, x) \<and> as_table S h = None)"

lemma danglesI:
  assumes "as_held S t = Some (h, r, x)" and "as_table S h = None"
  shows "dangles S"
  unfolding dangles_def by (rule exI [of _ t], rule exI [of _ h], rule exI [of _ r], rule exI [of _ x]) (simp add: assms)

definition effects :: "api_system \<Rightarrow> api_call list" where
  "effects S = map (fst \<circ> snd) (as_done S)"

definition codes :: "api_system \<Rightarrow> int list" where
  "codes S = map (snd \<circ> snd) (as_done S)"

text \<open>What thread \<open>t\<close> has done, is doing and will do.\<close>

definition client_calls :: "api_system \<Rightarrow> nat \<Rightarrow> api_call list" where
  "client_calls S t = map (fst \<circ> snd) (filter (\<lambda>d. fst d = t) (as_done S)) @
     (case as_held S t of Some (h, r, None) \<Rightarrow> [Invoke h r] | _ \<Rightarrow> []) @ as_todo S ! t"

text \<open>The discipline: a handle that a thread closes is used by no other thread.\<close>

definition owned :: "api_call list list \<Rightarrow> bool" where
  "owned todo \<longleftrightarrow> (\<forall>t < length todo. \<forall>u < length todo. \<forall>h r.
     Close h \<in> set (todo ! t) \<longrightarrow> Invoke h r \<in> set (todo ! u) \<longrightarrow> t = u)"

section \<open>Invariants\<close>

lemma calls_run_snoc:
  "calls_run E qs G = Returns (xs, G1) \<Longrightarrow> call_exec E q G1 = Returns (x, G2) \<Longrightarrow>
   calls_run E (qs @ [q]) G = Returns (xs @ [x], G2)"
  by (induction qs arbitrary: G xs) (auto split: outcome.splits)

lemma api_exec_handles:
  assumes "api_exec E h r G = Returns (x, G')" and "G h = Some hn"
  shows "G' k = None \<longleftrightarrow> G k = None"
  using assms
  by (cases r) (auto simp: lumina_add_def lumina_remove_def api_lookup_def split: outcome.splits if_splits prod.splits)

lemma api_exec_unknown: "G h = None \<Longrightarrow> api_exec E h r G = Returns (-1, G)"
  by (cases r) (simp_all add: lumina_add_def lumina_remove_def api_lookup_def)

definition linear :: "api_env \<Rightarrow> handles \<Rightarrow> api_system \<Rightarrow> bool" where
  "linear E G S \<longleftrightarrow> calls_run E (effects S) G = Returns (codes S, as_table S)"

lemma linear_step: "api_step E S S' \<Longrightarrow> linear E G S \<Longrightarrow> linear E G S'"
  by (induction rule: api_step.induct)
     (auto simp: linear_def effects_def codes_def api_lookup_def api_exec_unknown intro: calls_run_snoc)

lemma client_calls_step:
  "api_step E S S' \<Longrightarrow> length (as_todo S') = length (as_todo S) \<and> client_calls S' t = client_calls S t"
  by (induction rule: api_step.induct) (auto simp: client_calls_def nth_list_update)

text \<open>What a thread holds and what it will do.\<close>

definition ahead :: "api_system \<Rightarrow> nat \<Rightarrow> api_call set" where
  "ahead S t = (case as_held S t of Some (h, r, x) \<Rightarrow> {Invoke h r} | None \<Rightarrow> {}) \<union> set (as_todo S ! t)"

definition disciplined :: "api_system \<Rightarrow> bool" where
  "disciplined S \<longleftrightarrow> dom (as_held S) \<subseteq> {..<length (as_todo S)} \<and>
     (\<forall>t < length (as_todo S). \<forall>u < length (as_todo S). \<forall>h r. Close h \<in> ahead S t \<longrightarrow> Invoke h r \<in> ahead S u \<longrightarrow> t = u) \<and>
     \<not> dangles S"

lemma ahead_step:
  "api_step E S S' \<Longrightarrow> u < length (as_todo S) \<Longrightarrow> ahead S' u \<subseteq> ahead S u"
  by (induction rule: api_step.induct) (auto simp: ahead_def nth_list_update split: if_splits)

lemma held_step:
  "api_step E S S' \<Longrightarrow> dom (as_held S) \<subseteq> {..<length (as_todo S)} \<Longrightarrow> dom (as_held S') \<subseteq> {..<length (as_todo S')}"
  by (induction rule: api_step.induct) (auto dest: domI)

lemma no_dangling_step:
  assumes "api_step E S S'" and "disciplined S"
  shows "\<not> dangles S'"
proof -
  have nd: "\<not> dangles S" and sub: "dom (as_held S) \<subseteq> {..<length (as_todo S)}"
    and own: "\<And>t u h r. t < length (as_todo S) \<Longrightarrow> u < length (as_todo S) \<Longrightarrow> Close h \<in> ahead S t \<Longrightarrow> Invoke h r \<in> ahead S u \<Longrightarrow> t = u"
    using assms(2) unfolding disciplined_def by blast+
  have alive: "as_table S k \<noteq> None" if "as_held S u = Some (k, r, y)" for u k r y
    using nd danglesI [OF that] by blast
  from assms(1) show ?thesis
  proof cases
    case (effect t h r hn x G)
    have "G k \<noteq> None \<longleftrightarrow> as_table S k \<noteq> None" for k using api_exec_handles [OF effect(4,3)] by simp
    moreover have "as_held S' = (as_held S)(t \<mapsto> (h, r, Some x))" "as_table S' = G" "as_table S h \<noteq> None"
      using effect(1,3) by simp_all
    ultimately show ?thesis using alive unfolding dangles_def by (metis fun_upd_apply option.inject prod.inject)
  next
    case (close t h qs x G)
    have "k \<noteq> h" if "as_held S u = Some (k, r, y)" for u k r y
    proof
      assume "k = h"
      then have "Invoke h r \<in> ahead S u" "Close h \<in> ahead S t" using that close(4) by (simp_all add: ahead_def)
      moreover have "u < length (as_todo S)" using domI [of "as_held S", OF that] sub by blast
      ultimately have "t = u" using close(2) own by blast
      then show False using that close(3) by simp
    qed
    moreover have "G = (as_table S)(h := None)" using close(5) by (auto simp: lumina_close_def split: if_splits)
    moreover have "as_held S' = as_held S" "as_table S' = G" using close(1) by simp_all
    ultimately show ?thesis using alive unfolding dangles_def by (metis fun_upd_apply)
  next
    case (unknown t h r qs)
    then have "as_held S' = as_held S" "as_table S' = as_table S" by simp_all
    then show ?thesis using nd by (simp add: dangles_def)
  next
    case (found t h r qs hn)
    then have "as_held S' = (as_held S)(t \<mapsto> (h, r, None))" "as_table S' = as_table S" "as_table S h = Some hn"
      by (simp_all add: api_lookup_def)
    then show ?thesis using alive unfolding dangles_def by (metis fun_upd_apply option.distinct(1) option.inject prod.inject)
  next
    case (leave t h r x hn)
    then have "as_held S' = (as_held S)(t := None)" "as_table S' = as_table S" by simp_all
    then show ?thesis using alive unfolding dangles_def by (metis fun_upd_apply option.distinct(1))
  qed
qed

lemma disciplined_step:
  assumes "api_step E S S'" and "disciplined S"
  shows "disciplined S'"
proof -
  have same: "length (as_todo S') = length (as_todo S)" using client_calls_step [OF assms(1)] by simp
  have "dom (as_held S) \<subseteq> {..<length (as_todo S)}" using assms(2) unfolding disciplined_def by blast
  from held_step [OF assms(1) this] have held: "dom (as_held S') \<subseteq> {..<length (as_todo S')}" .
  have "t = u" if "t < length (as_todo S)" "u < length (as_todo S)" "Close h \<in> ahead S' t" "Invoke h r \<in> ahead S' u" for t u h r
  proof -
    have "Close h \<in> ahead S t" "Invoke h r \<in> ahead S u"
      using ahead_step [OF assms(1) that(1)] ahead_step [OF assms(1) that(2)] that(3,4) by blast+
    then show ?thesis using assms(2) that(1,2) unfolding disciplined_def by blast
  qed
  then have "\<forall>t < length (as_todo S). \<forall>u < length (as_todo S). \<forall>h r. Close h \<in> ahead S' t \<longrightarrow> Invoke h r \<in> ahead S' u \<longrightarrow> t = u"
    by blast
  then show ?thesis using no_dangling_step [OF assms] held unfolding disciplined_def same by blast
qed

lemma reachable_clients:
  assumes "(api_step E)\<^sup>*\<^sup>* (start_clients G todo) S"
  shows "linear E G S" and "length (as_todo S) = length todo" and "t < length todo \<Longrightarrow> client_calls S t = todo ! t"
    and "owned todo \<Longrightarrow> disciplined S"
proof -
  have "linear E G S \<and> length (as_todo S) = length todo \<and> (\<forall>t < length todo. client_calls S t = todo ! t) \<and>
      (owned todo \<longrightarrow> disciplined S)"
    using assms
  proof induction
    case base
    then show ?case
      by (auto simp: linear_def start_clients_def effects_def codes_def client_calls_def disciplined_def owned_def ahead_def dangles_def)
  next
    case (step S S')
    then show ?case using linear_step client_calls_step disciplined_step by metis
  qed
  then show "linear E G S" "length (as_todo S) = length todo" "t < length todo \<Longrightarrow> client_calls S t = todo ! t"
    "owned todo \<Longrightarrow> disciplined S" by auto
qed

section \<open>Every call returns\<close>

definition held_rank :: "(u64 \<times> api_request \<times> int option) option \<Rightarrow> nat" where
  "held_rank p = (case p of None \<Rightarrow> 0 | Some (h, r, None) \<Rightarrow> 2 | Some (h, r, Some x) \<Rightarrow> 1)"

definition moments_left :: "api_system \<Rightarrow> nat" where
  "moments_left S = 3 * length (concat (as_todo S)) + (\<Sum>t < length (as_todo S). held_rank (as_held S t))"

lemma sum_fun_upd:
  fixes f :: "'a \<Rightarrow> nat" and n :: nat
  assumes "t < n"
  shows "(\<Sum>i < n. f ((h(t := x)) i)) + f (h t) = (\<Sum>i < n. f (h i)) + f x"
proof -
  have "(\<Sum>i < n. f ((h(t := x)) i)) = f x + (\<Sum>i \<in> {..<n} - {t}. f (h i))"
    using assms by (subst sum.remove [of _ t]) auto
  moreover have "(\<Sum>i < n. f (h i)) = f (h t) + (\<Sum>i \<in> {..<n} - {t}. f (h i))"
    using assms by (subst sum.remove [of _ t]) auto
  ultimately show ?thesis by simp
qed

lemma concat_pop:
  assumes "t < length xss" and "xss ! t = x # xs"
  shows "length (concat xss) = Suc (length (concat (xss[t := xs])))"
  using assms
proof (induction xss arbitrary: t)
  case (Cons ys xss)
  then show ?case by (cases t) simp_all
qed simp

lemma moments_step:
  assumes "api_step E S S'" and "dom (as_held S) \<subseteq> {..<length (as_todo S)}"
  shows "moments_left S' < moments_left S"
  using assms(1)
proof cases
  case (unknown t h r qs)
  then show ?thesis using concat_pop [OF unknown(2,4)] by (simp add: moments_left_def)
next
  case (found t h r qs hn)
  then show ?thesis
    using concat_pop [OF found(2,4)] sum_fun_upd [OF found(2), of held_rank "as_held S" "Some (h, r, None)"]
    by (simp add: moments_left_def held_rank_def)
next
  case (effect t h r hn x G)
  have "t < length (as_todo S)" using assms(2) domI [of "as_held S" t, OF effect(2)] by blast
  from sum_fun_upd [OF this, of held_rank "as_held S" "Some (h, r, Some x)"] show ?thesis
    using effect by (simp add: moments_left_def held_rank_def)
next
  case (leave t h r x hn)
  have "t < length (as_todo S)" using assms(2) domI [of "as_held S" t, OF leave(2)] by blast
  from sum_fun_upd [OF this, of held_rank "as_held S" None] show ?thesis
    using leave by (simp add: moments_left_def held_rank_def)
next
  case (close t h qs x G)
  then show ?thesis using concat_pop [OF close(2,4)] by (simp add: moments_left_def)
qed

lemma start_held: "dom (as_held (start_clients G todo)) \<subseteq> {..<length (as_todo (start_clients G todo))}"
  by (simp add: start_clients_def)

lemma moments_run:
  "(api_step E ^^ n) (start_clients G todo) S \<Longrightarrow>
   n + moments_left S \<le> 3 * length (concat todo) \<and> dom (as_held S) \<subseteq> {..<length (as_todo S)}"
proof (induction n arbitrary: S)
  case 0
  then show ?case by (auto simp: moments_left_def start_clients_def held_rank_def)
next
  case (Suc n)
  then obtain U where "(api_step E ^^ n) (start_clients G todo) U" "api_step E U S" by auto
  then show ?case using Suc.IH [of U] moments_step [of E U S] held_step [of E U S] by fastforce
qed

text \<open>A thread that cannot go on has returned from all its calls or is reading past the end of a buffer.\<close>

lemma stuck_clients:
  assumes "\<not> dangles S" and "\<forall>S'. \<not> api_step E S S'" and "t < length (as_todo S)"
  shows "as_todo S ! t = [] \<and> as_held S t = None \<or>
    (\<exists>h r. as_held S t = Some (h, r, None) \<and> api_exec E h r (as_table S) = Out_Of_Bounds)"
proof (cases "as_held S t")
  case None
  show ?thesis
  proof (cases "as_todo S ! t")
    case (Cons q qs)
    show ?thesis
    proof (cases q)
      case (Invoke h r)
      then show ?thesis
        using assms(2,3) None Cons api_step.unknown [of t S h r qs E] api_step.found [of t S h r qs _ E]
        by (cases "api_lookup (as_table S) h") auto
    next
      case (Close h)
      then show ?thesis
        using assms(2,3) None Cons api_step.close [of t S h qs _ _ E] by (cases "lumina_close h (as_table S)") auto
    qed
  qed (simp add: None)
next
  case (Some p)
  obtain h r x where p: "p = (h, r, x)" by (cases p)
  with assms(1) Some obtain hn where hn: "as_table S h = Some hn" using danglesI [of S t h r x] by fastforce
  show ?thesis
  proof (cases x)
    case None
    then have held: "as_held S t = Some (h, r, None)" using Some p by simp
    have "api_exec E h r (as_table S) \<noteq> Returns y" for y
      using api_step.effect [OF held hn] assms(2) by (cases y) blast
    then show ?thesis using held by (cases "api_exec E h r (as_table S)") auto
  next
    case (Some y)
    then show ?thesis using \<open>as_held S t = Some p\<close> p hn assms(2) api_step.leave [of S t h r y hn E] by blast
  qed
qed

section \<open>With the discipline\<close>

text \<open>
  C10: threads that close only their own handles never meet a freed one. Let no thread use a handle
  that another one closes. Then, whatever the interleaving, no call is ever in the middle of its
  work on a handle that has been freed; the calls take effect one after the other, each between
  its start and its return, with the results and the table of handles that the same calls give when
  one thread makes them in this order, which keeps the order of each thread. A run has at most
  three steps per call, and when it cannot go on every thread has returned from all its calls or
  is reading past the end of a vector that is too short.
\<close>

theorem owned_handles_linearize:
  assumes "owned todo" and "(api_step E ^^ n) (start_clients G todo) S"
  shows "\<not> dangles S \<and> calls_run E (effects S) G = Returns (codes S, as_table S) \<and>
    (\<forall>t < length todo. client_calls S t = todo ! t) \<and> n \<le> 3 * length (concat todo) \<and>
    ((\<exists>S'. api_step E S S') \<or> (\<forall>t < length todo. as_todo S ! t = [] \<and> as_held S t = None \<or>
      (\<exists>h r. as_held S t = Some (h, r, None) \<and> api_exec E h r (as_table S) = Out_Of_Bounds)))"
proof -
  have "(api_step E)\<^sup>*\<^sup>* (start_clients G todo) S" using assms(2) by (rule relpowp_imp_rtranclp)
  note r = reachable_clients [OF this]
  have "\<not> dangles S" using r(4) [OF assms(1)] unfolding disciplined_def by simp
  then show ?thesis using r(1-3) moments_run [OF assms(2)] stuck_clients [of S E] unfolding linear_def by fastforce
qed

text \<open>Two threads, each with a handle of its own; the first closes its handle at the end.\<close>

definition two_clients :: "api_call list list" where
  "two_clients = [[Invoke 1 (ApiRemove 7), Close 1], [Invoke 2 (ApiRemove 7)]]"

lemma two_clients_start:
  "api_step E (start_clients G two_clients) (start_clients G two_clients
     \<lparr>as_todo := [[Invoke 1 (ApiRemove 7), Close 1], []], as_done := [(1, Invoke 2 (ApiRemove 7), -1)]\<rparr>)"
  if "G 2 = None"
  using api_step.unknown [of 1 "start_clients G two_clients" 2 "ApiRemove 7" "[]" E] that
  by (simp add: start_clients_def two_clients_def api_lookup_def)

theorem owned_handles_linearize_witness:
  "\<exists>S. api_step sample_api (start_clients [1 \<mapsto> sample_handle] two_clients) S \<and> \<not> dangles S \<and>
     calls_run sample_api [Invoke 2 (ApiRemove 7)] [1 \<mapsto> sample_handle] = Returns ([-1], as_table S)"
proof -
  let ?S = "start_clients [1 \<mapsto> sample_handle] two_clients
     \<lparr>as_todo := [[Invoke 1 (ApiRemove 7), Close 1], []], as_done := [(1, Invoke 2 (ApiRemove 7), -1)]\<rparr>"
  have owned: "owned two_clients"
    unfolding owned_def two_clients_def by (auto simp: less_Suc_eq)
  have step: "api_step sample_api (start_clients [1 \<mapsto> sample_handle] two_clients) ?S"
    using two_clients_start [of "[1 \<mapsto> sample_handle]" sample_api] by simp
  then have "(api_step sample_api ^^ 1) (start_clients [1 \<mapsto> sample_handle] two_clients) ?S" by (simp only: relpowp_1)
  from owned_handles_linearize [OF owned this] step show ?thesis
    by (intro exI [of _ ?S]) (simp add: effects_def codes_def)
qed

section \<open>One handle for all threads\<close>

fun on_handle :: "u64 \<Rightarrow> api_call \<Rightarrow> bool" where
  "on_handle h (Invoke k r) = (k = h)"
| "on_handle h (Close k) = False"

fun requests_on :: "u64 \<Rightarrow> api_call list \<Rightarrow> api_request list" where
  "requests_on h [] = []"
| "requests_on h (Invoke k r # qs) = (if k = h then r # requests_on h qs else requests_on h qs)"
| "requests_on h (Close k # qs) = requests_on h qs"

definition codes_on :: "u64 \<Rightarrow> api_call list \<Rightarrow> int list \<Rightarrow> int list" where
  "codes_on h qs xs = map snd (filter (\<lambda>(q, x). on_handle h q) (zip qs xs))"

lemma api_exec_other: "api_exec E k r G = Returns (x, G') \<Longrightarrow> h \<noteq> k \<Longrightarrow> G' h = G h"
  by (cases r) (auto simp: lumina_add_def lumina_remove_def api_lookup_def split: outcome.splits if_splits prod.splits option.splits)

text \<open>The calls on a handle that stays open are a run of its collection.\<close>

lemma calls_run_handle:
  assumes "0 < dm"
  shows "calls_run E qs G = Returns (xs, G') \<Longrightarrow> Close h \<notin> set qs \<Longrightarrow> G h = Some hn \<Longrightarrow> c_dim (hd_coll hn) = dm \<Longrightarrow>
    \<forall>r \<in> set (requests_on h qs). req_ok V dm (request_of r) \<Longrightarrow>
    coll_run (env_of E hn) (map request_of (requests_on h qs)) (hd_coll hn) = (ss, c) \<Longrightarrow>
    codes_on h qs xs = map code_of ss \<and> G' h = Some (hn\<lparr>hd_coll := c\<rparr>)"
proof (induction qs arbitrary: G hn xs ss)
  case (Cons q qs)
  then obtain x G1 xs' where q: "call_exec E q G = Returns (x, G1)" "calls_run E qs G1 = Returns (xs', G')" "xs = x # xs'"
    by (auto split: outcome.splits)
  show ?case
  proof (cases "on_handle h q")
    case True
    then obtain r where r: "q = Invoke h r" by (cases q) auto
    obtain s c1 where one: "coll_exec (env_of E hn) (request_of r) (hd_coll hn) = (s, c1)" by fastforce
    obtain ss' where ss: "ss = s # ss'" "coll_run (env_of E hn) (map request_of (requests_on h qs)) c1 = (ss', c)"
      using Cons.prems(6) one r by (auto split: prod.splits)
    let ?hn = "hn\<lparr>hd_coll := c1\<rparr>"
    have "api_exec E h r G = Returns (code_of s, G(h \<mapsto> ?hn))"
      using Cons.prems assms one r by (intro api_exec_coll [where V = V]) auto
    then have x: "x = code_of s" "G1 h = Some ?hn" using q(1) r by auto
    have "env_of E ?hn = env_of E hn" by (simp add: env_of_def)
    then have "codes_on h qs xs' = map code_of ss' \<and> G' h = Some (?hn\<lparr>hd_coll := c\<rparr>)"
      using Cons.prems(2,4,5) r coll_exec_dim [OF one] ss(2) by (intro Cons.IH [OF q(2) _ x(2)]) simp_all
    then show ?thesis using x(1) ss(1) r q(3) by (simp add: codes_on_def)
  next
    case False
    have "G1 h = Some hn"
    proof (cases q)
      case (Invoke k r)
      then show ?thesis using False Cons.prems(3) q(1) api_exec_other [of E k r G x G1 h] by simp
    next
      case (Close k)
      then show ?thesis using Cons.prems(2,3) q(1) by (auto simp: lumina_close_def split: if_splits)
    qed
    moreover have "requests_on h (q # qs) = requests_on h qs" using False by (cases q) simp_all
    ultimately show ?thesis
      using Cons.IH [OF q(2)] Cons.prems False q(3) by (simp add: codes_on_def)
  qed
qed (auto simp: codes_on_def)

text \<open>
  C11: a handle that threads share is one table. Let any number of threads work on a handle that
  nobody has closed so far, and let the requests that took effect be of the collection's dimension
  and fit the log. The integers that the calls returned are those that the abstract table gives for
  these requests in the order of their effects, and \<^verbatim>\<open>lumina_get\<close> then returns the payloads of the
  table.
\<close>

theorem shared_handle_table:
  assumes "(api_step E)\<^sup>*\<^sup>* (start_clients G todo) S" and "Close h \<notin> set (effects S)"
    and "G h = Some hn" and "good_env (env_of E hn)" and "coll_inv (hd_coll hn) es items K" and "0 < c_dim (hd_coll hn)"
    and "\<forall>r \<in> set (requests_on h (effects S)). req_ok (env_of E hn) (c_dim (hd_coll hn)) (request_of r)"
    and "coll_eof (hd_coll hn) + sum_list (map (req_cost (env_of E hn) \<circ> request_of) (requests_on h (effects S))) < 2 ^ 63"
  defines "T \<equiv> table_run (env_of E hn) (map request_of (requests_on h (effects S))) (items, K)"
  shows "codes_on h (effects S) (codes S) = map code_of (fst T) \<and>
    (\<forall>i. lumina_get E h i True True (as_table S) = get_result E (fst (snd T) i))"
proof -
  have ok: "\<forall>r \<in> set (map request_of (requests_on h (effects S))). req_ok (env_of E hn) (c_dim (hd_coll hn)) r"
    using assms(7) by simp
  from coll_run_ok [OF assms(4,5) ok] assms(8) obtain c fs where
    run: "coll_run (env_of E hn) (map request_of (requests_on h (effects S))) (hd_coll hn) = (fst T, c)"
      "coll_inv c (es @ fs) (fst (snd T)) (snd (snd T))"
    unfolding T_def by (auto simp: comp_def)
  have "calls_run E (effects S) G = Returns (codes S, as_table S)"
    using reachable_clients(1) [OF assms(1)] by (simp add: linear_def)
  from calls_run_handle [OF assms(6) this assms(2,3) refl assms(7) run(1)]
  have end_state: "codes_on h (effects S) (codes S) = map code_of (fst T)" "as_table S h = Some (hn\<lparr>hd_coll := c\<rparr>)" by auto
  moreover have "shows_table (env_of E (hn\<lparr>hd_coll := c\<rparr>)) (hd_coll (hn\<lparr>hd_coll := c\<rparr>)) (fst (snd T))"
    using coll_inv_shows [OF assms(4) run(2)] by (simp add: env_of_def)
  ultimately show ?thesis using lumina_get_table [of "as_table S" h "hn\<lparr>hd_coll := c\<rparr>"] by simp
qed

text \<open>The first thread got its pointer, or its request has taken effect; the others have not begun.\<close>

lemma first_found:
  assumes "G h = Some hn"
  shows "(api_step E)\<^sup>*\<^sup>* (start_clients G ([Invoke h r] # rest))
    \<lparr>as_table = G, as_todo = [] # rest, as_held = [0 \<mapsto> (h, r, None)], as_done = []\<rparr>"
  using assms api_step.found [of 0 "start_clients G ([Invoke h r] # rest)" h r "[]" hn E]
  by (auto simp: start_clients_def api_lookup_def intro!: r_into_rtranclp)

lemma first_effect:
  assumes "G h = Some hn" and "api_exec E h r G = Returns (x, G')"
  shows "(api_step E)\<^sup>*\<^sup>* (start_clients G ([Invoke h r] # rest))
    \<lparr>as_table = G', as_todo = [] # rest, as_held = [0 \<mapsto> (h, r, Some x)], as_done = [(0, Invoke h r, x)]\<rparr>"
proof (rule rtranclp.rtrancl_into_rtrancl [OF first_found [of G h hn, OF assms(1)]])
  show "api_step E \<lparr>as_table = G, as_todo = [] # rest, as_held = [0 \<mapsto> (h, r, None)], as_done = []\<rparr>
    \<lparr>as_table = G', as_todo = [] # rest, as_held = [0 \<mapsto> (h, r, Some x)], as_done = [(0, Invoke h r, x)]\<rparr>"
    using api_step.effect [of "\<lparr>as_table = G, as_todo = [] # rest, as_held = [0 \<mapsto> (h, r, None)], as_done = []\<rparr>" 0 h r hn E x G'] assms
    by simp
qed

theorem shared_handle_table_witness:
  "\<exists>S. (api_step sample_api)\<^sup>*\<^sup>* (start_clients [4096 \<mapsto> sample_handle] [[Invoke 4096 (ApiRemove 7)], [Invoke 4096 (ApiRemove 9)]]) S \<and>
     codes S = [0] \<and> lumina_get sample_api 4096 7 True True (as_table S) = (-2, None, None)"
proof (rule sample_coll_inv)
  fix es
  assume inv: "coll_inv sample_coll es [7 \<mapsto> sample_entry] {7, 9}" "c_dim sample_coll = 1" "coll_eof sample_coll \<le> 200"
  let ?G = "[4096 \<mapsto> sample_handle]" and ?r = "ApiRemove 7"
  obtain x G' where x: "api_exec sample_api 4096 ?r ?G = Returns (x, G')" by (cases "lumina_remove sample_api 4096 7 ?G") simp
  note reach = first_effect [of ?G 4096 sample_handle sample_api ?r x G' "[[Invoke 4096 (ApiRemove 9)]]", OF _ x]
  let ?S = "\<lparr>as_table = G', as_todo = [[], [Invoke 4096 (ApiRemove 9)]], as_held = [0 \<mapsto> (4096, ?r, Some x)],
     as_done = [(0, Invoke 4096 ?r, x)]\<rparr>"
  have "codes_on 4096 (effects ?S) (codes ?S) = [0] \<and>
      (\<forall>i. lumina_get sample_api 4096 i True True (as_table ?S) = get_result sample_api None)"
    using shared_handle_table [of sample_api ?G "[[Invoke 4096 ?r], [Invoke 4096 (ApiRemove 9)]]" ?S 4096 sample_handle es "[7 \<mapsto> sample_entry]" "{7, 9}"]
      reach inv good_sample_env
    by (simp add: effects_def codes_def key_of_small fits_def code_of_def status_ok_def)
  then show ?thesis
    using reach by (intro exI [of _ ?S]) (simp add: effects_def codes_def codes_on_def get_result_def)
qed

section \<open>Without the discipline\<close>

text \<open>
  A thread that closes a handle while another one is in a call on it frees the handle under that
  call: the first thread has its pointer, the second returns 0 from \<^verbatim>\<open>lumina_close\<close>, and the
  collection, its mutexes included, is gone.
\<close>

theorem close_frees_used_handle:
  assumes "G h = Some hn"
  shows "\<exists>S. (api_step E)\<^sup>*\<^sup>* (start_clients G [[Invoke h r], [Close h]]) S \<and> codes S = [0] \<and> dangles S"
proof -
  let ?S = "\<lparr>as_table = G, as_todo = [[], [Close h]], as_held = [0 \<mapsto> (h, r, None)], as_done = []\<rparr>"
  let ?S' = "\<lparr>as_table = G(h := None), as_todo = [[], []], as_held = [0 \<mapsto> (h, r, None)], as_done = [(1, Close h, 0)]\<rparr>"
  have "api_step E ?S ?S'"
    using api_step.close [of 1 ?S h "[]" 0 "G(h := None)" E] assms by (simp add: lumina_close_def)
  with first_found [of G h hn, OF assms] have "(api_step E)\<^sup>*\<^sup>* (start_clients G [[Invoke h r], [Close h]]) ?S'"
    by (rule rtranclp.rtrancl_into_rtrancl)
  moreover have "dangles ?S'" by (rule danglesI [of _ 0 h r None]) simp_all
  ultimately show ?thesis by (intro exI [of _ ?S']) (simp add: codes_def)
qed

section \<open>A search sees several moments\<close>

text \<open>
  \<^verbatim>\<open>lumina_search\<close> holds the mutex of the handle, which no other kind of call takes: the list of
  hits comes from one moment and each payload from a later one. \<open>hns\<close> are the states of the handle
  at which the payloads are read.
\<close>

definition hits_json_at :: "api_env \<Rightarrow> handle list \<Rightarrow> search_result list \<Rightarrow> bytes" where
  "hits_json_at E hns hits = commas (map2 (hit_json E) hns hits)"

lemma hits_json_at_still: "hits_json_at E (replicate (length hits) hn) hits = hits_json E hn hits"
proof -
  have "map2 (hit_json E) (replicate (length hits) hn) hits = map (hit_json E hn) hits" by (induction hits) simp_all
  then show ?thesis by (simp add: hits_json_at_def hits_json_def)
qed

text \<open>
  When a hit is removed between the two moments, the response has it with an empty payload,
  although no such entry was ever stored.
\<close>

theorem removed_hit_without_payload:
  assumes "good_env (env_of E hn)" and "coll_inv (hd_coll hn) es items K" and "items (sr_id r) = Some m" and "em_payload m \<noteq> []"
    and "sr_id r \<in> K" and "req_ok (env_of E hn) (c_dim (hd_coll hn)) (CRemove (sr_id r))"
    and "coll_eof (hd_coll hn) + req_cost (env_of E hn) (CRemove (sr_id r)) < 2 ^ 63"
  shows "best_payload (env_of E hn) (hd_coll hn) (sr_id r) \<noteq> [] \<and>
    (\<exists>c. collection_remove (env_of E hn) (sr_id r) (hd_coll hn) = (kOk, c) \<and>
      hits_json_at E [hn\<lparr>hd_coll := c\<rparr>] [r] =
        ascii ''{\"id\":'' @ to_string (unat (sr_id r)) @ ascii '',\"distance\":'' @ api_fmt E (sr_distance r) @ ascii '',\"payload\":\"\"}'')"
proof -
  obtain c fs where c: "coll_exec (env_of E hn) (CRemove (sr_id r)) (hd_coll hn) = (kOk, c)"
      "coll_inv c (es @ fs) (items(sr_id r := None)) K"
    by (rule coll_exec_ok [OF assms(1,2,6,7)]) (use assms(5) in auto)
  have "best_payload (env_of E hn) (hd_coll hn) (sr_id r) = em_payload m"
    using collection_get_ok [OF assms(1,2)] assms(3) by (simp add: best_payload_def payload_result_def)
  moreover have "best_payload (env_of E hn) c (sr_id r) = []"
    using collection_get_ok [OF assms(1) c(2)] by (simp add: best_payload_def payload_result_def)
  moreover have "env_of E (hn\<lparr>hd_coll := c\<rparr>) = env_of E hn" by (simp add: env_of_def)
  ultimately show ?thesis
    using c(1) assms(4) by (simp add: hits_json_at_def hit_json_def ascii_def)
qed

end
