(* ===== verification/Aligned_Alloc.thy ===== *)
theory Aligned_Alloc
  imports Lumina_Prelude
begin

text \<open>
  The allocator of the float buffers (\<^verbatim>\<open>include/lumina/vector/aligned_alloc.h\<close>). The system's
  aligned allocation (\<^verbatim>\<open>posix_memalign\<close> or \<^verbatim>\<open>_aligned_malloc\<close>) is an argument that returns an
  address or fails; \<open>memalign_ok\<close> states what its manual promises. The heap is the map from the
  addresses in use to the sizes of their blocks. Sizes are \<open>size_t\<close>, so their product is the
  product of 64-bit words.
\<close>

section \<open>The allocator\<close>

type_synonym heap = "u64 \<rightharpoonup> u64"
type_synonym memalign = "u64 \<Rightarrow> u64 \<Rightarrow> heap \<Rightarrow> u64 option"

datatype alloc_result = Pointer u64 | Bad_Array_New_Length | Bad_Alloc

definition kVectorBufferAlignment :: u64 where "kVectorBufferAlignment = 64"

text \<open>The assertions that the compiler checks, for a type with alignment \<open>al\<close>.\<close>

definition alignment_asserts :: "u64 \<Rightarrow> u64 \<Rightarrow> bool" where
  "alignment_asserts al A \<longleftrightarrow> A mod al = 0 \<and> A AND (A - 1) = 0 \<and> 0 < A"

definition allocate :: "memalign \<Rightarrow> u64 \<Rightarrow> u64 \<Rightarrow> u64 \<Rightarrow> heap \<Rightarrow> alloc_result \<times> heap" where
  "allocate mem sz A n H =
     (if n = 0 then (Pointer 0, H)
      else if n > (- 1) div sz then (Bad_Array_New_Length, H)
      else case mem A (n * sz) H of
        None \<Rightarrow> (Bad_Alloc, H)
      | Some p \<Rightarrow> (Pointer p, H(p \<mapsto> n * sz)))"

definition deallocate :: "u64 \<Rightarrow> heap \<Rightarrow> heap" where
  "deallocate p H = (if p = 0 then H else H(p := None))"

section \<open>What the system promises\<close>

definition block :: "u64 \<Rightarrow> u64 \<Rightarrow> nat set" where
  "block p n = {unat p ..< unat p + unat n}"

text \<open>
  A block lies in the address space at a multiple of the alignment, not at the null address, and
  apart from all blocks in use. The alignment has to be a power of two and a multiple of the size
  of a pointer.
\<close>

definition memalign_ok :: "memalign \<Rightarrow> bool" where
  "memalign_ok mem \<longleftrightarrow> (\<forall>A n H p. 0 < n \<longrightarrow> A AND (A - 1) = 0 \<longrightarrow> 8 dvd unat A \<longrightarrow> mem A n H = Some p \<longrightarrow>
     p \<noteq> 0 \<and> unat A dvd unat p \<and> unat p + unat n \<le> 2 ^ 64 \<and> H p = None \<and>
     (\<forall>q m. H q = Some m \<longrightarrow> block p n \<inter> block q m = {}))"

section \<open>Correctness\<close>

lemma size_fits:
  fixes n sz :: u64
  assumes "0 < sz"
  shows "n > (- 1) div sz \<longleftrightarrow> 2 ^ 64 \<le> unat n * unat sz"
    and "\<not> n > (- 1) div sz \<Longrightarrow> unat (n * sz) = unat n * unat sz"
proof -
  have pos: "0 < unat sz" using assms by (simp add: word_less_nat_alt)
  have pred: "k - 1 < m \<longleftrightarrow> k \<le> m" if "0 < k" for k m :: nat using that by linarith
  have max: "unat (- 1 :: u64) = 2 ^ 64 - 1" by (simp add: unsigned_minus_1_eq_mask mask_eq_exp_minus_1)
  have "n > (- 1) div sz \<longleftrightarrow> (2 ^ 64 - 1) div unat sz < unat n"
    by (simp only: word_less_nat_alt unat_div max)
  also have "\<dots> \<longleftrightarrow> 2 ^ 64 - 1 < unat n * unat sz" using pos by (rule div_less_iff_less_mult)
  also have "\<dots> \<longleftrightarrow> 2 ^ 64 \<le> unat n * unat sz" by (rule pred) simp
  finally show iff: "n > (- 1) div sz \<longleftrightarrow> 2 ^ 64 \<le> unat n * unat sz" .
  assume "\<not> n > (- 1) div sz"
  then have "unat n * unat sz < 2 ^ 64" unfolding iff by simp
  then show "unat (n * sz) = unat n * unat sz" by (simp add: unat_mult_lem [symmetric])
qed

text \<open>
  C39: a buffer is aligned and as large as asked for. A request for \<open>n\<close> elements throws
  \<^verbatim>\<open>bad_array_new_length\<close> exactly if their size does not fit a \<^verbatim>\<open>size_t\<close>, so the product never
  wraps around. Otherwise it throws \<^verbatim>\<open>bad_alloc\<close> and changes nothing, or, for at least one
  element, returns a new block of \<open>n\<close> times the element size, apart from all others, in which
  every element at a multiple of the alignment has an aligned address; freeing it gives back the
  heap as it was.
\<close>

theorem aligned_allocation:
  assumes "memalign_ok mem" and "alignment_asserts al A" and "8 dvd unat A" and "0 < sz" and "0 < n"
    and "allocate mem sz A n H = (result, H')"
  shows "(result = Bad_Array_New_Length \<longleftrightarrow> 2 ^ 64 \<le> unat n * unat sz) \<and>
    (result = Bad_Array_New_Length \<or> result = Bad_Alloc \<longrightarrow> H' = H) \<and>
    (\<forall>p. result = Pointer p \<longrightarrow> p \<noteq> 0 \<and> H p = None \<and> deallocate p H' = H \<and>
      (\<exists>bytes. H' p = Some bytes \<and> unat bytes = unat n * unat sz \<and> unat p + unat bytes \<le> 2 ^ 64 \<and>
        (\<forall>q m. H q = Some m \<longrightarrow> block p bytes \<inter> block q m = {})) \<and>
      (\<forall>j < unat n. unat A dvd j * unat sz \<longrightarrow> unat A dvd unat p + j * unat sz))"
proof (cases "n > (- 1) div sz")
  case True
  moreover have "n \<noteq> 0" using assms(5) by auto
  ultimately have "result = Bad_Array_New_Length" "H' = H" using assms(6) by (simp_all add: allocate_def)
  then show ?thesis using size_fits(1) [OF assms(4), of n] True by simp
next
  case False
  note fits = size_fits(2) [OF assms(4) False]
  have small: "\<not> 2 ^ 64 \<le> unat n * unat sz" using size_fits(1) [OF assms(4), of n] False by simp
  have n: "n \<noteq> 0" "0 < n * sz"
    using assms(4,5) fits by (auto simp: word_less_nat_alt)
  show ?thesis
  proof (cases "mem A (n * sz) H")
    case None
    then have "result = Bad_Alloc \<and> H' = H" using assms(6) n(1) False by (simp add: allocate_def)
    then show ?thesis using small by simp
  next
    case (Some p)
    then have r: "result = Pointer p" "H' = H(p \<mapsto> n * sz)" using assms(6) n(1) False by (simp_all add: allocate_def)
    have "p \<noteq> 0 \<and> unat A dvd unat p \<and> unat p + unat (n * sz) \<le> 2 ^ 64 \<and> H p = None \<and>
        (\<forall>q m. H q = Some m \<longrightarrow> block p (n * sz) \<inter> block q m = {})"
      using assms(1,2,3) n(2) Some unfolding memalign_ok_def alignment_asserts_def by blast
    then show ?thesis using r small fits by (auto simp: deallocate_def fun_upd_idem)
  qed
qed

text \<open>A system that always has the first buffer at address 4096, and nothing else.\<close>

definition one_buffer :: memalign where
  "one_buffer A n H = (if H = Map.empty \<and> unat A dvd 4096 \<and> unat n \<le> 4096 then Some 4096 else None)"

lemma one_buffer_ok: "memalign_ok one_buffer"
  by (auto simp: memalign_ok_def one_buffer_def split: if_splits)

theorem aligned_allocation_witness:
  "allocate one_buffer 4 kVectorBufferAlignment 128 Map.empty = (Pointer 4096, [4096 \<mapsto> 512]) \<and>
   deallocate 4096 [4096 \<mapsto> 512] = Map.empty"
proof -
  have "allocate one_buffer 4 64 128 Map.empty = (Pointer 4096, [4096 \<mapsto> 512])"
    by (simp add: allocate_def one_buffer_def)
  then show ?thesis
    using aligned_allocation [OF one_buffer_ok, of 4 64 4 128 Map.empty "Pointer 4096" "[4096 \<mapsto> 512]"]
    by (simp add: alignment_asserts_def kVectorBufferAlignment_def)
qed

end
