(* ===== verification/Byte_Stream.thy ===== *)
theory Byte_Stream
  imports Lumina_Prelude
begin

text \<open>
  Binary \<^verbatim>\<open>std::istream\<close> input, as the index file and the quantizers use it: a reader takes
  the bytes that are left and returns a value with the rest, or nothing once the stream has
  failed. \<open>reads f p x\<close> says that \<open>p\<close> is an encoding of \<open>x\<close> for the reader \<open>f\<close>: it is read back,
  whatever follows, and no proper prefix of it is accepted. The relation is closed under
  sequencing and repetition, so a file format is read back by one rule per field.
\<close>

section \<open>Readers\<close>

type_synonym 'a reader = "bytes \<Rightarrow> ('a \<times> bytes) option"

definition rd_return :: "'a \<Rightarrow> 'a reader" where
  "rd_return x bs = Some (x, bs)"

definition rd_fail :: "'a reader" where
  "rd_fail bs = None"

definition rd_bind :: "'a reader \<Rightarrow> ('a \<Rightarrow> 'b reader) \<Rightarrow> 'b reader" where
  "rd_bind f g bs = (case f bs of None \<Rightarrow> None | Some (x, bs) \<Rightarrow> g x bs)"

fun rd_many :: "'a reader \<Rightarrow> nat \<Rightarrow> 'a list reader" where
  "rd_many f 0 bs = Some ([], bs)"
| "rd_many f (Suc n) bs =
     (case f bs of
        None \<Rightarrow> None
      | Some (x, bs) \<Rightarrow> (case rd_many f n bs of None \<Rightarrow> None | Some (xs, bs) \<Rightarrow> Some (x # xs, bs)))"

definition rd_bytes :: "nat \<Rightarrow> bytes reader" where
  "rd_bytes n bs = (if length bs < n then None else Some (take n bs, drop n bs))"

definition rd_u8 :: "byte reader" where
  "rd_u8 = rd_bind (rd_bytes 1) (\<lambda>b. rd_return (hd b))"

definition rd_u16 :: "u16 reader" where
  "rd_u16 = rd_bind (rd_bytes 2) (\<lambda>b. rd_return (get_u16_le b))"

definition rd_u32 :: "u32 reader" where
  "rd_u32 = rd_bind (rd_bytes 4) (\<lambda>b. rd_return (get_u32_le b))"

definition rd_u64 :: "u64 reader" where
  "rd_u64 = rd_bind (rd_bytes 8) (\<lambda>b. rd_return (get_u64_le b))"

section \<open>What a reader accepts\<close>

definition reads :: "'a reader \<Rightarrow> bytes \<Rightarrow> 'a \<Rightarrow> bool" where
  "reads f p x \<longleftrightarrow> (\<forall>rest. f (p @ rest) = Some (x, rest)) \<and> (\<forall>n < length p. f (take n p) = None)"

named_theorems reads_intros \<open>readers and the encodings they read\<close>

lemma reads_whole: "reads f p x \<Longrightarrow> f p = Some (x, [])"
  using append_Nil2 unfolding reads_def by metis

lemma reads_prefix: "reads f p x \<Longrightarrow> n < length p \<Longrightarrow> f (take n p) = None"
  by (simp add: reads_def)

lemma reads_return [reads_intros]: "reads (rd_return x) [] x"
  by (simp add: reads_def rd_return_def)

lemma reads_bind [reads_intros]:
  assumes "reads f p x" and "reads (g x) q y"
  shows "reads (rd_bind f g) (p @ q) y"
proof -
  have "rd_bind f g (take n (p @ q)) = None" if "n < length (p @ q)" for n
  proof (cases "n < length p")
    case True
    then show ?thesis using assms(1) by (simp add: reads_def rd_bind_def)
  next
    case False
    then have "take n (p @ q) = p @ take (n - length p) q" by simp
    then show ?thesis using that False assms by (simp add: reads_def rd_bind_def)
  qed
  then show ?thesis using assms by (simp add: reads_def rd_bind_def)
qed

lemma reads_bytes [reads_intros]: "length p = n \<Longrightarrow> reads (rd_bytes n) p p"
  by (simp add: reads_def rd_bytes_def)

lemma rd_many_unfold:
  "rd_many f (Suc n) = rd_bind f (\<lambda>x. rd_bind (rd_many f n) (\<lambda>xs. rd_return (x # xs)))"
  by (rule ext) (simp add: rd_bind_def rd_return_def split: option.splits prod.splits)

lemma reads_many:
  assumes "list_all2 (reads f) ps xs"
  shows "reads (rd_many f (length xs)) (concat ps) xs"
  using assms
proof (induction rule: list_all2_induct)
  case Nil
  then show ?case by (simp add: reads_def)
next
  case (Cons p ps x xs)
  have "reads (rd_many f (Suc (length xs))) (p @ (concat ps @ [])) (x # xs)"
    unfolding rd_many_unfold by (intro reads_bind [OF Cons(1)] reads_bind [OF Cons(3)] reads_return)
  then show ?case by (simp del: rd_many.simps)
qed

section \<open>Codecs\<close>

text \<open>A writer and a reader for the same format; \<open>valid\<close> are the values the format can hold.\<close>

locale stream_codec =
  fixes put :: "'a \<Rightarrow> bytes" and get :: "'a reader" and valid :: "'a \<Rightarrow> bool"
  assumes reads_put: "valid x \<Longrightarrow> reads get (put x) x"
begin

lemma reads_list: "\<forall>x \<in> set xs. valid x \<Longrightarrow> reads (rd_many get (length xs)) (concat (map put xs)) xs"
  by (rule reads_many) (auto simp: list_all2_conv_all_nth intro: reads_put)

lemma put_inj: "valid x \<Longrightarrow> valid y \<Longrightarrow> put x = put y \<Longrightarrow> x = y"
  using reads_whole [OF reads_put] by (metis Pair_inject option.inject)

lemma truncated_rejected: "valid x \<Longrightarrow> n < length (put x) \<Longrightarrow> get (take n (put x)) = None"
  by (rule reads_prefix [OF reads_put])

end

lemma reads_fixed:
  assumes "length p = n"
  shows "reads (rd_bind (rd_bytes n) (\<lambda>b. rd_return (g b))) p (g p)"
  using reads_bind [OF reads_bytes [OF assms] reads_return, of "\<lambda>b. g b"] by simp

interpretation u8_codec: stream_codec put_u8 rd_u8 "\<lambda>_. True"
proof
  fix x :: byte
  show "reads rd_u8 (put_u8 x) x" using reads_fixed [of "put_u8 x" 1 hd] by (simp add: rd_u8_def put_u8_def)
qed

interpretation u16_codec: stream_codec put_u16 rd_u16 "\<lambda>_. True"
proof
  fix x :: u16
  show "reads rd_u16 (put_u16 x) x" using reads_fixed [of "put_u16 x" 2 get_u16_le] by (simp add: rd_u16_def)
qed

interpretation u32_codec: stream_codec put_u32 rd_u32 "\<lambda>_. True"
proof
  fix x :: u32
  show "reads rd_u32 (put_u32 x) x" using reads_fixed [of "put_u32 x" 4 get_u32_le] by (simp add: rd_u32_def)
qed

interpretation u64_codec: stream_codec put_u64 rd_u64 "\<lambda>_. True"
proof
  fix x :: u64
  show "reads rd_u64 (put_u64 x) x" using reads_fixed [of "put_u64 x" 8 get_u64_le] by (simp add: rd_u64_def)
qed

lemmas reads_ints [reads_intros] =
  u8_codec.reads_put [OF TrueI] u16_codec.reads_put [OF TrueI] u32_codec.reads_put [OF TrueI] u64_codec.reads_put [OF TrueI]

text \<open>Raw floats: \<open>n\<close> of them, as \<^verbatim>\<open>read\<close> of a float buffer takes them.\<close>

definition rd_floats :: "nat \<Rightarrow> u32 list reader" where
  "rd_floats n = rd_many rd_u32 n"

lemma reads_floats [reads_intros]: "length v = n \<Longrightarrow> reads (rd_floats n) (concat (map put_u32 v)) v"
  unfolding rd_floats_def using u32_codec.reads_list [of v] by auto

end
