(* ===== verification/Hnsw_File.thy ===== *)
theory Hnsw_File
  imports Byte_Stream Hnsw_Theorems
begin

text \<open>
  \<^verbatim>\<open>HNSWIndex::save\<close> and \<^verbatim>\<open>HNSWIndex::load\<close> (\<^verbatim>\<open>src/vector/hnsw_index.cpp\<close>): the index file.
  The file is what the output stream was given; how much of it reaches the disk, and whether
  the stream reports a failure before it is closed, is up to the environment. Integers are
  written in host order, little endian here. Layers and node indices are natural numbers in
  the model and \<^verbatim>\<open>int\<close> or \<^verbatim>\<open>size_t\<close> in the code; the theorems state the ranges.
\<close>

section \<open>Writing\<close>

definition hnsw_magic :: bytes where
  "hnsw_magic = [76, 77, 72, 78]"

definition put_nbrs :: "nat list \<Rightarrow> bytes" where
  "put_nbrs xs = put_u32 (of_nat (length xs)) @ concat (map (\<lambda>i. put_u64 (of_nat i)) xs)"

definition put_node :: "node \<Rightarrow> bytes" where
  "put_node n = put_u64 (n_id n) @ put_u32 (of_nat (n_max_layer n)) @ put_u8 (if n_deleted n then 1 else 0) @
     concat (map put_u32 (n_vec n)) @ concat (map put_nbrs (take (n_max_layer n + 1) (n_nbrs n)))"

definition hnsw_header :: "hnsw \<Rightarrow> bytes" where
  "hnsw_header h = hnsw_magic @ put_u16 1 @ put_u16 0 @
     put_u64 (of_nat (h_dim h)) @ put_u64 (of_nat (h_M h)) @ put_u32 (of_int (h_max_layer h)) @
     put_u32 (of_int (h_entry h)) @ put_u64 (of_nat (length (h_nodes h))) @ put_u64 (of_nat (h_active h))"

definition hnsw_bytes :: "hnsw \<Rightarrow> bytes" where
  "hnsw_bytes h = hnsw_header h @ concat (map put_node (h_nodes h))"

record save_env =
  sv_open :: bool
  sv_good :: bool
  sv_disk :: nat

definition hnsw_save :: "save_env \<Rightarrow> hnsw \<Rightarrow> status_code \<times> bytes option" where
  "hnsw_save E h =
     (if \<not> sv_open E then (kIOError, None)
      else (if \<not> sv_good E then kIOError else kOk, Some (take (sv_disk E) (hnsw_bytes h))))"

section \<open>Reading\<close>

definition rd_index :: "nat reader" where
  "rd_index = rd_bind rd_u64 (\<lambda>i. rd_return (unat i))"

definition rd_nbrs :: "nat list reader" where
  "rd_nbrs = rd_bind rd_u32 (\<lambda>ncount. rd_many rd_index (unat ncount))"

definition rd_node :: "nat \<Rightarrow> node reader" where
  "rd_node dim =
     rd_bind rd_u64 (\<lambda>i. rd_bind rd_u32 (\<lambda>node_layer. rd_bind rd_u8 (\<lambda>deleted.
       if sint node_layer < 0 then rd_fail
       else
         let layer = nat (sint node_layer)
         in rd_bind (rd_floats dim) (\<lambda>vec. rd_bind (rd_many rd_nbrs (layer + 1)) (\<lambda>nbrs.
              rd_return \<lparr>n_id = i, n_vec = vec, n_nbrs = nbrs, n_max_layer = layer, n_deleted = (deleted \<noteq> 0)\<rparr>)))))"

type_synonym loaded = "node list \<times> (u64 \<times> nat) list \<times> nat"

definition load_step :: "node \<Rightarrow> loaded \<Rightarrow> loaded" where
  "load_step n s = (case s of (nodes, ids, active) \<Rightarrow>
     (nodes @ [n], AList.update (n_id n) (length nodes) ids, if n_deleted n then active else active + 1))"

fun load_nodes :: "nat \<Rightarrow> nat \<Rightarrow> bytes \<Rightarrow> loaded \<Rightarrow> bool \<times> loaded" where
  "load_nodes dim 0 bs s = (True, s)"
| "load_nodes dim (Suc n) bs s =
     (case rd_node dim bs of
        None \<Rightarrow> (False, s)
      | Some (node, bs) \<Rightarrow> load_nodes dim n bs (load_step node s))"

record hnsw_head =
  hd_dim :: u64
  hd_M :: u64
  hd_max_layer :: u32
  hd_entry :: u32
  hd_nodes :: u64
  hd_active :: u64

definition rd_head :: "hnsw_head reader" where
  "rd_head =
     rd_bind rd_u64 (\<lambda>dim. rd_bind rd_u64 (\<lambda>m. rd_bind rd_u32 (\<lambda>ml. rd_bind rd_u32 (\<lambda>ep.
       rd_bind rd_u64 (\<lambda>n. rd_bind rd_u64 (\<lambda>a.
         rd_return \<lparr>hd_dim = dim, hd_M = m, hd_max_layer = ml, hd_entry = ep, hd_nodes = n, hd_active = a\<rparr>))))))"

definition rd_version :: "(u16 \<times> u16) reader" where
  "rd_version = rd_bind rd_u16 (\<lambda>v. rd_bind rd_u16 (\<lambda>r. rd_return (v, r)))"

definition hnsw_load :: "bytes option \<Rightarrow> hnsw \<Rightarrow> status_code \<times> hnsw" where
  "hnsw_load contents h =
     (case contents of
        None \<Rightarrow> (kIOError, h)
      | Some bs \<Rightarrow>
          case rd_bytes 4 bs of
            None \<Rightarrow> (kCorruption, h)
          | Some (magic, bs) \<Rightarrow>
              if magic \<noteq> hnsw_magic then (kCorruption, h)
              else case rd_version bs of
                None \<Rightarrow> (kCorruption, h)
              | Some ((version, reserved), bs) \<Rightarrow>
                  if version \<noteq> 1 then (kCorruption, h)
                  else case rd_head bs of
                    None \<Rightarrow> (kCorruption, h)
                  | Some (hdr, bs) \<Rightarrow>
                      if unat (hd_dim hdr) \<noteq> h_dim h then (kInvalidArgument, h)
                      else
                        let (ok, nodes, ids, active) = load_nodes (h_dim h) (unat (hd_nodes hdr)) bs ([], [], 0);
                            h = h\<lparr>h_M := unat (hd_M hdr), h_nodes := nodes, h_ids := ids\<rparr>
                        in if \<not> ok then (kCorruption, h)
                           else (kOk, h\<lparr>h_max_layer := sint (hd_max_layer hdr), h_entry := sint (hd_entry hdr),
                                        h_active := active\<rparr>))"

section \<open>What is saved is loaded\<close>

definition node_ok :: "nat \<Rightarrow> node \<Rightarrow> bool" where
  "node_ok dim n \<longleftrightarrow> length (n_vec n) = dim \<and> n_max_layer n < 2 ^ 31 \<and> length (n_nbrs n) = n_max_layer n + 1 \<and>
     (\<forall>xs \<in> set (n_nbrs n). length xs < 2 ^ 32 \<and> (\<forall>i \<in> set xs. i < 2 ^ 64))"

text \<open>The widths of the file format; graphs of any practical size are within them.\<close>

definition file_ok :: "hnsw \<Rightarrow> bool" where
  "file_ok h \<longleftrightarrow> h_dim h < 2 ^ 64 \<and> h_M h < 2 ^ 64 \<and> - (2 ^ 31) \<le> h_max_layer h \<and> h_max_layer h < 2 ^ 31 \<and>
     - (2 ^ 31) \<le> h_entry h \<and> h_entry h < 2 ^ 31 \<and> length (h_nodes h) < 2 ^ 64 \<and> (\<forall>n \<in> set (h_nodes h). node_ok (h_dim h) n)"

lemma sint_of_int_u32: "- (2 ^ 31) \<le> k \<Longrightarrow> k < 2 ^ 31 \<Longrightarrow> sint (of_int k :: u32) = k"
  by (simp add: signed_of_int signed_take_bit_int_eq_self)

lemma sint_of_nat_u32: "n < 2 ^ 31 \<Longrightarrow> sint (of_nat n :: u32) = int n"
  using sint_of_int_u32 [of "int n"] by simp

lemma reads_index: "i < 2 ^ 64 \<Longrightarrow> reads rd_index (put_u64 (of_nat i)) i"
  using reads_bind [OF reads_ints(4) [of "of_nat i"] reads_return, of unat] by (simp add: rd_index_def)

interpretation nbrs_codec: stream_codec put_nbrs rd_nbrs "\<lambda>xs. length xs < 2 ^ 32 \<and> (\<forall>i \<in> set xs. i < 2 ^ 64)"
proof
  fix xs :: "nat list"
  assume xs: "length xs < 2 ^ 32 \<and> (\<forall>i \<in> set xs. i < 2 ^ 64)"
  have "reads (rd_many rd_index (length xs)) (concat (map (\<lambda>i. put_u64 (of_nat i)) xs)) xs"
    using xs by (intro reads_many) (auto simp: list_all2_conv_all_nth intro!: reads_index)
  then show "reads rd_nbrs (put_nbrs xs) xs"
    using xs by (auto simp: rd_nbrs_def put_nbrs_def intro!: reads_bind [OF reads_ints(3)])
qed

interpretation node_codec: stream_codec put_node "rd_node dim" "node_ok dim" for dim
proof
  fix n
  assume ok: "node_ok dim n"
  have nbrs: "reads (rd_many rd_nbrs (n_max_layer n + 1)) (concat (map put_nbrs (n_nbrs n))) (n_nbrs n)"
    using nbrs_codec.reads_list [of "n_nbrs n"] ok by (simp add: node_ok_def)
  have layer: "\<not> sint (of_nat (n_max_layer n) :: u32) < 0" "nat (sint (of_nat (n_max_layer n) :: u32)) = n_max_layer n"
    using ok by (simp_all add: node_ok_def sint_of_nat_u32)
  let ?tail = "\<lambda>vec. rd_bind (rd_many rd_nbrs (n_max_layer n + 1)) (\<lambda>nbrs. rd_return
      \<lparr>n_id = n_id n, n_vec = vec, n_nbrs = nbrs, n_max_layer = n_max_layer n, n_deleted = n_deleted n\<rparr>)"
  have "\<lparr>n_id = n_id n, n_vec = n_vec n, n_nbrs = n_nbrs n, n_max_layer = n_max_layer n, n_deleted = n_deleted n\<rparr> = n"
    by (cases n) simp
  then have self: "reads (rd_return \<lparr>n_id = n_id n, n_vec = n_vec n, n_nbrs = n_nbrs n, n_max_layer = n_max_layer n,
      n_deleted = n_deleted n\<rparr>) [] n"
    by (simp only: reads_return)
  have "reads (rd_bind (rd_floats dim) ?tail) (concat (map put_u32 (n_vec n)) @ concat (map put_nbrs (n_nbrs n)) @ []) n"
    using ok by (intro reads_bind [OF reads_floats] reads_bind [OF nbrs] self) (simp add: node_ok_def)
  then have "reads (rd_node dim) (put_u64 (n_id n) @ put_u32 (of_nat (n_max_layer n)) @ put_u8 (if n_deleted n then 1 else 0) @
      concat (map put_u32 (n_vec n)) @ concat (map put_nbrs (n_nbrs n))) n"
    unfolding rd_node_def by (intro reads_bind [OF reads_ints(4)] reads_bind [OF reads_ints(3)] reads_bind [OF reads_ints(1)])
      (cases "n_deleted n"; simp add: layer Let_def)
  then show "reads (rd_node dim) (put_node n) n" using ok by (simp add: put_node_def node_ok_def)
qed

lemma load_nodes_all:
  "\<forall>n \<in> set ns. node_ok dim n \<Longrightarrow> load_nodes dim (length ns) (concat (map put_node ns) @ rest) s = (True, fold load_step ns s)"
proof (induction ns arbitrary: s)
  case (Cons n ns)
  then have "rd_node dim (put_node n @ concat (map put_node ns) @ rest) = Some (n, concat (map put_node ns) @ rest)"
    using node_codec.reads_put [of dim n] by (simp add: reads_def)
  then show ?case using Cons by simp
qed simp

lemma load_nodes_cut:
  "\<forall>n \<in> set ns. node_ok dim n \<Longrightarrow> k < length (concat (map put_node ns)) \<Longrightarrow>
    \<exists>j < length ns. load_nodes dim (length ns) (take k (concat (map put_node ns))) s = (False, fold load_step (take j ns) s)"
proof (induction ns arbitrary: k s)
  case (Cons n ns)
  note codec = node_codec.reads_put [of dim n, unfolded reads_def]
  show ?case
  proof (cases "k < length (put_node n)")
    case True
    then have "rd_node dim (take k (put_node n)) = None" using codec Cons.prems(1) by simp
    then show ?thesis using True by (intro exI [of _ 0]) simp
  next
    case False
    let ?k = "k - length (put_node n)"
    have "take k (concat (map put_node (n # ns))) = put_node n @ take ?k (concat (map put_node ns))" using False by simp
    moreover have "?k < length (concat (map put_node ns))" using Cons.prems(2) False by simp
    then obtain j where "j < length ns"
      "load_nodes dim (length ns) (take ?k (concat (map put_node ns))) (load_step n s) = (False, fold load_step (take j ns) (load_step n s))"
      using Cons.IH [of ?k "load_step n s"] Cons.prems(1) by auto
    ultimately show ?thesis using codec Cons.prems(1) by (intro exI [of _ "Suc j"]) simp
  qed
qed simp

lemma fold_load_step:
  assumes "distinct (map n_id ns)"
  shows "\<exists>ids. fold load_step ns ([], [], 0) = (ns, ids, length (filter (\<lambda>n. \<not> n_deleted n) ns)) \<and> distinct (map fst ids) \<and>
    (\<forall>i k. map_of ids i = Some k \<longleftrightarrow> k < length ns \<and> n_id (ns ! k) = i)"
  using assms
proof (induction ns rule: rev_induct)
  case (snoc n ns)
  then obtain ids where ids: "fold load_step ns ([], [], 0) = (ns, ids, length (filter (\<lambda>n. \<not> n_deleted n) ns))"
    "distinct (map fst ids)" "\<forall>i k. map_of ids i = Some k \<longleftrightarrow> k < length ns \<and> n_id (ns ! k) = i"
    by auto
  have "n_id n \<notin> n_id ` set ns" using snoc.prems by auto
  then have new: "n_id (ns ! k) \<noteq> n_id n" if "k < length ns" for k using that by (metis imageI nth_mem)
  have "map_of (AList.update (n_id n) (length ns) ids) i = Some k \<longleftrightarrow> k < length (ns @ [n]) \<and> n_id ((ns @ [n]) ! k) = i" for i k
    using ids(3) new by (auto simp: update_conv' nth_append less_Suc_eq)
  then show ?case
    using ids(1,2) by (intro exI [of _ "AList.update (n_id n) (length ns) ids"]) (simp add: load_step_def [of n] distinct_update)
qed simp

definition head_of :: "hnsw \<Rightarrow> hnsw_head" where
  "head_of h = \<lparr>hd_dim = of_nat (h_dim h), hd_M = of_nat (h_M h), hd_max_layer = of_int (h_max_layer h),
     hd_entry = of_int (h_entry h), hd_nodes = of_nat (length (h_nodes h)), hd_active = of_nat (h_active h)\<rparr>"

definition head_bytes :: "hnsw \<Rightarrow> bytes" where
  "head_bytes h = put_u64 (of_nat (h_dim h)) @ put_u64 (of_nat (h_M h)) @ put_u32 (of_int (h_max_layer h)) @
     put_u32 (of_int (h_entry h)) @ put_u64 (of_nat (length (h_nodes h))) @ put_u64 (of_nat (h_active h)) @ []"

lemma reads_head: "reads rd_head (head_bytes h) (head_of h)"
  unfolding rd_head_def head_bytes_def head_of_def
  by (intro reads_bind [OF reads_ints(4)] reads_bind [OF reads_ints(3)] reads_return)

lemma reads_version: "reads rd_version (put_u16 1 @ put_u16 0 @ []) (1, 0)"
  unfolding rd_version_def by (intro reads_bind [OF reads_ints(2)] reads_return)

lemma reads_magic: "reads (rd_bytes 4) hnsw_magic hnsw_magic"
  by (rule reads_bytes) (simp add: hnsw_magic_def)

lemma hnsw_header_parts: "hnsw_header h = hnsw_magic @ (put_u16 1 @ put_u16 0 @ []) @ head_bytes h"
  by (simp add: hnsw_header_def head_bytes_def)

lemma load_after_header:
  assumes "file_ok h" and "h_dim h0 = h_dim h"
  shows "hnsw_load (Some (hnsw_header h @ rest)) h0 =
    (let (ok, nodes, ids, active) = load_nodes (h_dim h) (length (h_nodes h)) rest ([], [], 0);
         h1 = h0\<lparr>h_M := h_M h, h_nodes := nodes, h_ids := ids\<rparr>
     in if \<not> ok then (kCorruption, h1)
        else (kOk, h1\<lparr>h_max_layer := h_max_layer h, h_entry := h_entry h, h_active := active\<rparr>))"
proof -
  have "rd_bytes 4 (hnsw_header h @ rest) = Some (hnsw_magic, (put_u16 1 @ put_u16 0 @ []) @ head_bytes h @ rest)"
    "rd_version ((put_u16 1 @ put_u16 0 @ []) @ head_bytes h @ rest) = Some ((1, 0), head_bytes h @ rest)"
    "rd_head (head_bytes h @ rest) = Some (head_of h, rest)"
    using reads_magic reads_version reads_head [of h] unfolding reads_def hnsw_header_parts by (simp_all only: append_assoc)
  then show ?thesis
    using assms by (simp add: hnsw_load_def file_ok_def head_of_def sint_of_int_u32 Let_def split: prod.splits)
qed

lemma load_saved:
  assumes "file_ok h" and "h_dim h0 = h_dim h" and "distinct (map n_id (h_nodes h))"
  shows "\<exists>ids. hnsw_load (Some (hnsw_bytes h)) h0 =
      (kOk, h0\<lparr>h_M := h_M h, h_nodes := h_nodes h, h_ids := ids, h_max_layer := h_max_layer h, h_entry := h_entry h,
               h_active := length (filter (\<lambda>n. \<not> n_deleted n) (h_nodes h))\<rparr>) \<and>
    distinct (map fst ids) \<and> (\<forall>i k. map_of ids i = Some k \<longleftrightarrow> k < length (h_nodes h) \<and> n_id (h_nodes h ! k) = i)"
  using load_after_header [OF assms(1,2), of "concat (map put_node (h_nodes h))"] fold_load_step [OF assms(3)]
    load_nodes_all [of "h_nodes h" "h_dim h" "[]" "([], [], 0)"] assms(1)
  by (auto simp: hnsw_bytes_def file_ok_def)

lemma inv_ids_distinct:
  assumes "hnsw_inv h"
  shows "distinct (map n_id (h_nodes h))"
  unfolding distinct_conv_nth using hnsw_invD(4) [OF assms] by (metis length_map nth_map option.inject)

text \<open>
  C30: saving and loading. An index that any operations built and whose sizes fit the file format
  is saved; if the whole file reaches the disk, loading it into a fresh index of the same
  dimension succeeds: it has the same nodes with their edges and deleted flags, the same \<open>M\<close>, entry
  point and top layer, an id table with the same entries, and the same live count; so the map of
  ids to vectors, the known ids and the answers to searches are the same.
\<close>

theorem hnsw_save_load:
  assumes "lib_ok L" and "hnsw_reaches L h m K" and "file_ok h"
    and "sv_open E" and "sv_good E" and "length (hnsw_bytes h) \<le> sv_disk E"
  shows "\<exists>h'. hnsw_load (snd (hnsw_save E h)) (new_hnsw (h_dim h) M efc) = (kOk, h') \<and> fst (hnsw_save E h) = kOk \<and>
    h_nodes h' = h_nodes h \<and> h_M h' = h_M h \<and> h_entry h' = h_entry h \<and> h_max_layer h' = h_max_layer h \<and>
    (\<forall>i. map_of (h_ids h') i = map_of (h_ids h) i) \<and>
    vec_of h' = m \<and> hnsw_size h' = card (dom m) \<and> (\<forall>i. hnsw_contains h' i \<longleftrightarrow> i \<in> K) \<and>
    (\<forall>L q k ef flt. search_top_k_filtered L q k ef flt h' = search_top_k_filtered L q k ef flt h)"
proof -
  have rep: "hnsw_inv h" "vec_of h = m" "hnsw_size h = card (dom m)" "\<forall>i. hnsw_contains h i \<longleftrightarrow> i \<in> K"
    using reaches_represents [OF assms(1,2)] by (auto simp: represents_def)
  let ?h0 = "new_hnsw (h_dim h) M efc"
  obtain ids where load: "hnsw_load (Some (hnsw_bytes h)) ?h0 =
      (kOk, ?h0\<lparr>h_M := h_M h, h_nodes := h_nodes h, h_ids := ids, h_max_layer := h_max_layer h, h_entry := h_entry h,
               h_active := length (filter (\<lambda>n. \<not> n_deleted n) (h_nodes h))\<rparr>)"
    and ids: "\<forall>i k. map_of ids i = Some k \<longleftrightarrow> k < length (h_nodes h) \<and> n_id (h_nodes h ! k) = i"
    using load_saved [OF assms(3) _ inv_ids_distinct [OF rep(1)], of ?h0] by (auto simp: new_hnsw_def)
  let ?h' = "?h0\<lparr>h_M := h_M h, h_nodes := h_nodes h, h_ids := ids, h_max_layer := h_max_layer h, h_entry := h_entry h,
               h_active := length (filter (\<lambda>n. \<not> n_deleted n) (h_nodes h))\<rparr>"
  have same: "map_of ids i = map_of (h_ids h) i" for i
    using ids hnsw_invD(4) [OF rep(1), of i] by (metis not_None_eq)
  have "vec_of ?h' = vec_of h" by (rule ext) (simp add: vec_of_def same split: option.splits)
  moreover have "hnsw_contains ?h' i = hnsw_contains h i" for i by (simp add: hnsw_contains_def same)
  moreover have "hnsw_size ?h' = hnsw_size h" using hnsw_invD(5) [OF rep(1)] by (simp add: hnsw_size_def)
  moreover have "search_top_k_filtered L q k ef flt ?h' = search_top_k_filtered L q k ef flt h" for L q k ef flt
    by (simp add: search_top_k_filtered_def)
  ultimately show ?thesis using load rep(2-4) assms(4-6) by (simp add: hnsw_save_def same)
qed

definition one_hnsw :: hnsw where
  "one_hnsw = snd (add_item zero_lib 0 7 [1] (new_hnsw 1 16 200))"

lemma one_hnsw_simps:
  "h_nodes one_hnsw = [\<lparr>n_id = 7, n_vec = [1], n_nbrs = [[]], n_max_layer = 0, n_deleted = False\<rparr>]"
  "h_dim one_hnsw = 1" "h_M one_hnsw = 16" "h_entry one_hnsw = 0" "h_max_layer one_hnsw = 0" "h_active one_hnsw = 1"
  by (simp_all add: one_hnsw_def add_item_def new_hnsw_def Let_def)

lemma one_hnsw_file_ok: "file_ok one_hnsw"
  by (simp add: file_ok_def one_hnsw_simps node_ok_def)

lemma one_hnsw_reached: "hnsw_reaches zero_lib one_hnsw [7 \<mapsto> [1]] {7}"
  using hnsw_reaches.added [OF hnsw_reaches.fresh prod.collapse [symmetric], of zero_lib 0 7 "[1]" 1 16 200]
  by (simp add: one_hnsw_def)

theorem hnsw_save_load_witness:
  "\<exists>h'. hnsw_load (snd (hnsw_save \<lparr>sv_open = True, sv_good = True, sv_disk = 100\<rparr> one_hnsw)) (new_hnsw (h_dim one_hnsw) 16 200) = (kOk, h') \<and>
    h_nodes h' = h_nodes one_hnsw \<and> vec_of h' = [7 \<mapsto> [1]] \<and> hnsw_contains h' 7"
proof -
  have "length (hnsw_bytes one_hnsw) \<le> 100"
    by (simp add: hnsw_bytes_def hnsw_header_def put_node_def put_nbrs_def one_hnsw_simps hnsw_magic_def)
  then show ?thesis
    using hnsw_save_load [OF lib_ok_zero one_hnsw_reached one_hnsw_file_ok, of "\<lparr>sv_open = True, sv_good = True, sv_disk = 100\<rparr>" 16 200]
    by auto
qed

section \<open>Damaged files\<close>

text \<open>
  a truncated index file is never loaded. Every proper prefix of a saved file is rejected with
  \<open>kCorruption\<close>, wherever it ends.
\<close>

theorem truncated_index_rejected:
  assumes "file_ok h" and "h_dim h0 = h_dim h" and "n < length (hnsw_bytes h)"
  shows "fst (hnsw_load (Some (take n (hnsw_bytes h))) h0) = kCorruption"
proof (cases "n < length (hnsw_header h)")
  case True
  let ?d = "take n (hnsw_header h)"
  let ?rd = "rd_bind (rd_bytes 4) (\<lambda>m. rd_bind rd_version (\<lambda>v. rd_bind rd_head (\<lambda>x. rd_return (m, v, x))))"
  have eq: "take n (hnsw_bytes h) = ?d" using True by (simp add: hnsw_bytes_def)
  have "reads ?rd (hnsw_magic @ (put_u16 1 @ put_u16 0 @ []) @ head_bytes h @ []) (hnsw_magic, (1, 0), head_of h)"
    by (intro reads_bind [OF reads_magic] reads_bind [OF reads_version] reads_bind [OF reads_head] reads_return)
  then have "?rd ?d = None" using True by (intro reads_prefix) (simp_all add: hnsw_header_parts)
  then show ?thesis
    unfolding eq by (auto simp: hnsw_load_def rd_bind_def rd_return_def split: option.splits prod.splits if_splits)
next
  case False
  let ?k = "n - length (hnsw_header h)"
  have "take n (hnsw_bytes h) = hnsw_header h @ take ?k (concat (map put_node (h_nodes h)))"
    using False by (simp add: hnsw_bytes_def)
  moreover have "?k < length (concat (map put_node (h_nodes h)))" using False assms(3) by (simp add: hnsw_bytes_def)
  then obtain j where "load_nodes (h_dim h) (length (h_nodes h)) (take ?k (concat (map put_node (h_nodes h)))) ([], [], 0) =
      (False, fold load_step (take j (h_nodes h)) ([], [], 0))"
    using load_nodes_cut [of "h_nodes h" "h_dim h" ?k "([], [], 0)"] assms(1) by (auto simp: file_ok_def)
  ultimately show ?thesis
    using load_after_header [OF assms(1,2), of "take ?k (concat (map put_node (h_nodes h)))"]
    by (cases "fold load_step (take j (h_nodes h)) ([], [], 0)") simp
qed

theorem truncated_index_rejected_witness:
  "fst (hnsw_load (Some (take 60 (hnsw_bytes one_hnsw))) one_hnsw) = kCorruption"
  by (rule truncated_index_rejected [OF one_hnsw_file_ok refl])
     (simp add: hnsw_bytes_def hnsw_header_def put_node_def put_nbrs_def one_hnsw_simps hnsw_magic_def)

text \<open>
  a failed load ruins the index. Load a file that was cut after its header into an index in
  use: the load reports \<open>kCorruption\<close>, but the nodes are already gone while the entry point, the
  top layer and the size are the old ones, so the entry point names a node that does not exist.
\<close>

theorem failed_load_ruins_index:
  assumes "file_ok h" and "h_dim h0 = h_dim h" and "h_nodes h \<noteq> []" and "0 \<le> h_entry h0"
  shows "\<exists>h'. hnsw_load (Some (hnsw_header h)) h0 = (kCorruption, h') \<and> h_nodes h' = [] \<and> h_ids h' = [] \<and>
    h_entry h' = h_entry h0 \<and> hnsw_size h' = hnsw_size h0 \<and> \<not> hnsw_inv h'"
proof -
  obtain n ns where ns: "h_nodes h = n # ns" using assms(3) by (cases "h_nodes h") auto
  then have "load_nodes (h_dim h) (length (h_nodes h)) [] ([], [], 0) = (False, [], [], 0)"
    by (simp add: rd_node_def rd_bind_def rd_u64_def rd_bytes_def)
  then have load: "hnsw_load (Some (hnsw_header h)) h0 = (kCorruption, h0\<lparr>h_M := h_M h, h_nodes := [], h_ids := []\<rparr>)"
    using load_after_header [OF assms(1,2), of "[]"] by simp
  have "\<not> hnsw_inv (h0\<lparr>h_M := h_M h, h_nodes := [], h_ids := []\<rparr>)"
  proof
    assume "hnsw_inv (h0\<lparr>h_M := h_M h, h_nodes := [], h_ids := []\<rparr>)"
    from hnsw_invD(7) [OF this] assms(4) show False by (simp add: live_at_def)
  qed
  then show ?thesis using load by (simp add: hnsw_size_def)
qed

theorem failed_load_ruins_index_witness:
  "\<exists>h'. hnsw_load (Some (hnsw_header one_hnsw)) one_hnsw = (kCorruption, h') \<and> h_nodes h' = [] \<and> h_ids h' = [] \<and>
    h_entry h' = h_entry one_hnsw \<and> hnsw_size h' = hnsw_size one_hnsw \<and> \<not> hnsw_inv h'"
  by (rule failed_load_ruins_index [OF one_hnsw_file_ok refl]) (simp_all add: one_hnsw_simps)

end
