(* ===== verification/Hnsw_Levels.thy ===== *)
theory Hnsw_Levels
  imports Hnsw Complex_Main
begin

text \<open>
  The random level of a new node (\<open>random_level\<close> in \<^verbatim>\<open>src/vector/hnsw_index.cpp\<close>): the number
  drawn from the unit interval is an argument. The arithmetic is the rounded one of
  \<^verbatim>\<open>double\<close>: every product, quotient and literal is rounded by \<open>fm_round\<close>, and \<open>fm_log\<close> is
  \<^verbatim>\<open>std::log\<close>. Both are parameters, with the error bounds of IEEE 754 and of the C library as
  the hypothesis \<open>float_math_ok\<close>. Elsewhere the levels are an arbitrary argument of the insertions,
  so nothing there depends on how they are drawn.
\<close>

section \<open>Rounded arithmetic\<close>

record float_math =
  fm_round :: "real \<Rightarrow> real"
  fm_log :: "real \<Rightarrow> real"

text \<open>\<open>y\<close> is \<open>x\<close> up to a relative error of \<open>e\<close>.\<close>

definition near :: "real \<Rightarrow> real \<Rightarrow> real \<Rightarrow> bool" where
  "near e x y \<longleftrightarrow> \<bar>y - x\<bar> \<le> e * \<bar>x\<bar>"

text \<open>
  The documented precision: rounding to nearest in the normal range, exact for integers up to
  \<open>2 ^ 53\<close>, and a logarithm with an error of at most one unit in the last place.
\<close>

definition float_math_ok :: "float_math \<Rightarrow> bool" where
  "float_math_ok A \<longleftrightarrow>
     (\<forall>x. 1 / 2 ^ 1022 \<le> \<bar>x\<bar> \<and> \<bar>x\<bar> \<le> 2 ^ 1023 \<longrightarrow> near (1 / 2 ^ 53) x (fm_round A x)) \<and>
     (\<forall>n. n \<le> 2 ^ 53 \<longrightarrow> fm_round A (real n) = real n) \<and>
     (\<forall>x > 0. near (1 / 2 ^ 52) (ln x) (fm_log A x))"

lemma near_mono: "near d x y \<Longrightarrow> d \<le> e \<Longrightarrow> near e x y"
  unfolding near_def by (meson abs_ge_zero mult_right_mono order_trans)

lemma near_trans:
  assumes "near d x y" and "near e y z" and "0 \<le> e"
  shows "near (d + e + d * e) x z"
proof -
  have "\<bar>y\<bar> \<le> \<bar>x\<bar> + d * \<bar>x\<bar>" using assms(1) unfolding near_def by linarith
  then have "e * \<bar>y\<bar> \<le> e * (\<bar>x\<bar> + d * \<bar>x\<bar>)" using assms(3) by (rule mult_left_mono)
  then have "\<bar>z - x\<bar> \<le> e * (\<bar>x\<bar> + d * \<bar>x\<bar>) + d * \<bar>x\<bar>" using assms(1,2) unfolding near_def by linarith
  then show ?thesis unfolding near_def by (simp add: algebra_simps)
qed

lemma near_mult: "near e x y \<Longrightarrow> near e (c * x) (c * y)"
  unfolding near_def using mult_left_mono [of "\<bar>y - x\<bar>" "e * \<bar>x\<bar>" "\<bar>c\<bar>"]
  by (simp add: abs_mult right_diff_distrib [symmetric] mult.left_commute)

lemma near_inverse:
  assumes "near e x y" and "0 < x" and "0 \<le> e" and "e < 1"
  shows "near (e / (1 - e)) (1 / x) (1 / y)"
proof -
  have y: "(1 - e) * x \<le> y" using assms(1,2) unfolding near_def by (simp add: algebra_simps)
  have pos: "0 < (1 - e) * x" using assms(2,4) by simp
  then have "0 < y" using y by linarith
  then have "\<bar>1 / y - 1 / x\<bar> = \<bar>y - x\<bar> / (y * x)"
    using assms(2) by (simp add: diff_divide_eq_iff divide_diff_eq_iff abs_divide abs_mult abs_minus_commute)
  also have "\<dots> \<le> (e * x) / (y * x)"
    using assms(1,2) \<open>0 < y\<close> unfolding near_def by (intro divide_right_mono) auto
  also have "\<dots> = e / y" using assms(2) by simp
  also have "\<dots> \<le> e / ((1 - e) * x)" using y pos assms(3) by (intro divide_left_mono) (auto simp: \<open>0 < y\<close>)
  finally show ?thesis unfolding near_def using assms(2) by simp
qed

section \<open>The code\<close>

text \<open>The factor \<^verbatim>\<open>ml\<close>, which the constructor computes from \<open>M\<close>, and which \<open>load\<close> computes again.\<close>

definition level_scale :: "float_math \<Rightarrow> nat \<Rightarrow> real" where
  "level_scale A M = fm_round A (1 / fm_log A (fm_round A (real (max M 2))))"

text \<open>The literal \<^verbatim>\<open>1e-12\<close> is rounded, too; the conversion to \<^verbatim>\<open>int\<close> truncates.\<close>

definition random_level :: "float_math \<Rightarrow> real \<Rightarrow> real \<Rightarrow> nat" where
  "random_level A ml u =
     (let x = max u (fm_round A (1 / 10 ^ 12))
      in nat \<lfloor>fm_round A (- fm_log A x * ml)\<rfloor>)"

section \<open>The level as a logarithm\<close>

lemma ln_two: "1 / 2 \<le> ln (2 :: real)" "ln (2 :: real) \<le> 1"
  using ln_le_minus_one [of "1 / 2"] ln_le_minus_one [of 2] by (simp_all add: ln_div)

lemma ln_clamped:
  fixes x :: real
  assumes "1 / 2 ^ 40 \<le> x"
  shows "- ln x \<le> 40"
proof -
  have "ln ((1 / 2) ^ 40) \<le> ln x" using assms by (intro ln_mono) (auto simp: power_one_over intro: less_le_trans [rotated])
  moreover have "ln ((1 / 2 :: real) ^ 40) = 40 * ln (1 / 2)" by (simp only: ln_realpow)
  moreover have "ln (1 / 2 :: real) = - ln 2" by (simp add: ln_div)
  ultimately show ?thesis using ln_two by linarith
qed

lemma ln_bounds:
  assumes "2 \<le> M" and "M \<le> 2 ^ 53"
  shows "1 / 2 \<le> ln (real M)" and "ln (real M) \<le> 53"
proof -
  have "ln (2 :: real) \<le> ln (real M)" using assms(1) by simp
  then show "1 / 2 \<le> ln (real M)" using ln_two by linarith
  have "real M \<le> real (2 ^ 53)" using assms(2) by (rule of_nat_mono)
  then have "ln (real M) \<le> ln (2 ^ 53)" using assms(1) by simp
  also have "ln (2 ^ 53 :: real) = 53 * ln 2" by (simp only: ln_realpow)
  finally show "ln (real M) \<le> 53" using ln_two by linarith
qed

lemma clamp_bounds:
  assumes "float_math_ok A"
  shows "1 / 2 ^ 40 \<le> fm_round A (1 / 10 ^ 12)" and "fm_round A (1 / 10 ^ 12) \<le> (1 + 1 / 2 ^ 53) / 10 ^ 12"
    and "(1 - 1 / 2 ^ 53) / 10 ^ 12 \<le> fm_round A (1 / 10 ^ 12)"
proof -
  have near: "near (1 / 2 ^ 53) (1 / 10 ^ 12) (fm_round A (1 / 10 ^ 12))"
    using assms unfolding float_math_ok_def by auto
  define c where "c = fm_round A (1 / 10 ^ 12)"
  have "c - 1 / 10 ^ 12 \<le> 1 / 2 ^ 53 * (1 / 10 ^ 12)" "1 / 10 ^ 12 - c \<le> 1 / 2 ^ 53 * (1 / 10 ^ 12)"
    using near unfolding near_def c_def [symmetric] by (simp_all add: abs_le_iff del: power_numeral)
  then show "1 / 2 ^ 40 \<le> fm_round A (1 / 10 ^ 12)" and "fm_round A (1 / 10 ^ 12) \<le> (1 + 1 / 2 ^ 53) / 10 ^ 12"
    and "(1 - 1 / 2 ^ 53) / 10 ^ 12 \<le> fm_round A (1 / 10 ^ 12)"
    unfolding c_def [symmetric] by simp_all
qed

text \<open>The value that is truncated, up to the accumulated error of the two logarithms and three roundings.\<close>

lemma near_bounds:
  assumes "near e x y" and "0 \<le> x"
  shows "(1 - e) * x \<le> y" and "y \<le> (1 + e) * x"
  using assms unfolding near_def by (simp_all add: abs_le_iff algebra_simps)

lemma level_value:
  assumes "float_math_ok A" and "2 \<le> M" and "M \<le> 2 ^ 53" and "x \<le> 1 - 1 / 2 ^ 53" and "1 / 2 ^ 40 \<le> x"
  shows "near (9 / 2 ^ 53) (- ln x / ln (real M)) (fm_round A (- fm_log A x * level_scale A M))"
proof -
  let ?M = "ln (real M)" and ?g = "fm_log A (real M)" and ?l = "- fm_log A x" and ?s = "level_scale A M"
  note ok = assms(1) [unfolded float_math_ok_def]
  have rnd: "near (1 / 2 ^ 53) r (fm_round A r)" if "1 / 2 ^ 100 \<le> r" "r \<le> 2 ^ 100" for r
  proof -
    have "(1 :: real) / 2 ^ 1022 \<le> 1 / 2 ^ 100" "(2 :: real) ^ 100 \<le> 2 ^ 1023" by simp_all
    then show ?thesis using ok that by auto
  qed
  have x: "0 < x" using assms(5) by (rule less_le_trans [rotated]) simp
  note M = ln_bounds [OF assms(2,3)]
  have g: "near (1 / 2 ^ 52) ?M ?g" using ok assms(2) by simp
  have "near (1 / 2 ^ 52 / (1 - 1 / 2 ^ 52)) (1 / ?M) (1 / ?g)" by (rule near_inverse [OF g]) (use M in simp_all)
  then have inv: "near (3 / 2 ^ 53) (1 / ?M) (1 / ?g)" by (rule near_mono) simp
  have g_pos: "1 / 4 \<le> ?g" "?g \<le> 64" using near_bounds [OF g] M by (simp_all add: field_simps)
  then have "near (1 / 2 ^ 53) (1 / ?g) (fm_round A (1 / ?g))" by (intro rnd) (simp_all add: field_simps)
  then have "near (3 / 2 ^ 53 + 1 / 2 ^ 53 + 3 / 2 ^ 53 * (1 / 2 ^ 53)) (1 / ?M) (fm_round A (1 / ?g))"
    by (rule near_trans [OF inv]) simp
  moreover have "?s = fm_round A (1 / ?g)" using ok assms(2,3) by (simp add: level_scale_def)
  ultimately have s: "near (5 / 2 ^ 53) (1 / ?M) ?s" by (simp only:) (rule near_mono, assumption, simp)
  have "near (1 / 2 ^ 52) (ln x) (fm_log A x)" using ok x by blast
  then have l: "near (1 / 2 ^ 52) (- ln x) ?l" by (simp add: near_def abs_minus_commute)
  have "near (1 / 2 ^ 52) (- ln x / ?M) (?l / ?M)" using near_mult [OF l, of "1 / ?M"] by simp
  moreover have "near (5 / 2 ^ 53) (?l / ?M) (?l * ?s)" using near_mult [OF s, of ?l] by simp
  ultimately have "near (1 / 2 ^ 52 + 5 / 2 ^ 53 + 1 / 2 ^ 52 * (5 / 2 ^ 53)) (- ln x / ?M) (?l * ?s)"
    by (rule near_trans) simp
  then have ls: "near (15 / 2 ^ 54) (- ln x / ?M) (?l * ?s)" by (rule near_mono) simp
  have "- ln x \<le> 40" by (rule ln_clamped [OF assms(5)])
  moreover have "1 / 2 ^ 53 \<le> - ln x" using ln_le_minus_one [OF x] assms(4) by linarith
  ultimately have range: "1 / 2 ^ 53 / 53 \<le> - ln x / ?M" "- ln x / ?M \<le> 40 / (1 / 2)"
    using M by (intro frac_le; simp)+
  have "0 \<le> - ln x / ?M" using range(1) by (rule order_trans [rotated]) simp
  note v = near_bounds [OF ls this]
  have "1 / 2 ^ 100 \<le> (1 - 15 / 2 ^ 54) * (1 / 2 ^ 53 / 53 :: real)" by simp
  also have "\<dots> \<le> (1 - 15 / 2 ^ 54) * (- ln x / ?M)" using range(1) by (rule mult_left_mono) simp
  finally have low: "1 / 2 ^ 100 \<le> ?l * ?s" using v(1) by (rule order_trans)
  have "(1 + 15 / 2 ^ 54) * (- ln x / ?M) \<le> (1 + 15 / 2 ^ 54) * (40 / (1 / 2))" using range(2) by (rule mult_left_mono) simp
  also have "\<dots> \<le> (2 :: real) ^ 100" by simp
  finally have high: "?l * ?s \<le> 2 ^ 100" by (rule order_trans [OF v(2)])
  have "near (1 / 2 ^ 53) (?l * ?s) (fm_round A (?l * ?s))" using low high by (rule rnd)
  then have "near (15 / 2 ^ 54 + 1 / 2 ^ 53 + 15 / 2 ^ 54 * (1 / 2 ^ 53)) (- ln x / ?M) (fm_round A (?l * ?s))"
    by (rule near_trans [OF ls]) simp
  then show ?thesis by (rule near_mono) simp
qed

text \<open>A value near the exact logarithm decides a level except within \<open>1 / 2 ^ 43\<close> of its threshold.\<close>

lemma level_threshold:
  assumes "near (9 / 2 ^ 53) (- ln x / ln (real M)) y" and "2 \<le> M" and "1 / 2 ^ 40 \<le> x" and "x \<le> 1"
  shows "0 \<le> y" and "real M ^ l * x \<le> 1 - 1 / 2 ^ 44 \<Longrightarrow> real l \<le> y" and "real l \<le> y \<Longrightarrow> real M ^ l * x \<le> 1 + 1 / 2 ^ 43"
proof -
  let ?M = "ln (real M)"
  have x: "0 < x" using assms(3) by (rule less_le_trans [rotated]) simp
  have M: "0 < ?M" using assms(2) by simp
  have a: "0 \<le> - ln x" "- ln x \<le> 40" using assms(4) x ln_clamped [OF assms(3)] by simp_all
  have prod: "ln (real M ^ l * x) = real l * ?M + ln x" using x assms(2) by (simp add: ln_mult ln_realpow)
  have pos: "0 < real M ^ l * x" using x assms(2) by simp
  have "0 \<le> - ln x / ?M" using a(1) M by (intro divide_nonneg_pos)
  then have "0 \<le> (1 - 9 / 2 ^ 53) * (- ln x / ?M)" by (intro mult_nonneg_nonneg) simp_all
  then show y: "0 \<le> y" using near_bounds(1) [OF assms(1)] \<open>0 \<le> - ln x / ?M\<close> by (meson order_trans)
  have "near (9 / 2 ^ 53) (- ln x) (?M * y)" using near_mult [OF assms(1), of ?M] M by simp
  then have log: "- ln x - 1 / 2 ^ 44 \<le> ?M * y" "?M * y \<le> - ln x + 1 / 2 ^ 44"
    using near_bounds [OF _ a(1)] a(2) by fastforce+
  show "real l \<le> y" if "real M ^ l * x \<le> 1 - 1 / 2 ^ 44"
  proof -
    have "real l * ?M + ln x \<le> - (1 / 2 ^ 44)" using ln_le_minus_one [OF pos] that prod by linarith
    then have "?M * real l \<le> ?M * y" using log(1) by (simp add: mult.commute)
    then show ?thesis using M by simp
  qed
  show "real M ^ l * x \<le> 1 + 1 / 2 ^ 43" if "real l \<le> y"
  proof -
    have "?M * real l \<le> ?M * y" using that M by simp
    then have "ln (real M ^ l * x) \<le> 1 / 2 ^ 44" using log(2) prod by (simp add: mult.commute)
    then have "real M ^ l * x \<le> exp (1 / 2 ^ 44)" using pos by (simp add: ln_ge_iff [symmetric] ln_le_cancel_iff [symmetric])
    moreover have "exp (1 / 2 ^ 44 :: real) \<le> 1 + 1 / 2 ^ 44 + (1 / 2 ^ 44)\<^sup>2" by (rule exp_bound) simp_all
    ultimately show ?thesis by (simp add: power2_eq_square)
  qed
qed

text \<open>
  C17: levels are drawn with the geometric distribution of the HNSW paper, up to rounding. With the
  arithmetic of \<^verbatim>\<open>double\<close> a number \<open>u\<close> drawn from the unit interval gives a level of at least \<open>l\<close>
  if \<open>M ^ l * u\<close> is below 1 by at least \<open>1 / 2 ^ 43\<close>, and a smaller level if it is above 1 by more
  than that; only thresholds \<open>M ^ l\<close> below \<open>10 ^ 12\<close> are reached at all, because \<open>u\<close> is clamped from
  below. At the threshold itself the rounding decides. Because of the clamp no level exceeds 39, and
  with the default of 16 links, or more, none exceeds 9.
\<close>

theorem level_geometric:
  assumes "float_math_ok A" and "2 \<le> M" and "M \<le> 2 ^ 53" and "0 \<le> u" and "u \<le> 1 - 1 / 2 ^ 53"
  shows "(M ^ l < 10 ^ 12 \<and> real M ^ l * u \<le> 1 - 1 / 2 ^ 43 \<longrightarrow> l \<le> random_level A (level_scale A M) u) \<and>
    (1 + 1 / 2 ^ 43 < real M ^ l * u \<longrightarrow> random_level A (level_scale A M) u < l) \<and>
    random_level A (level_scale A M) u \<le> 39 \<and> (16 \<le> M \<longrightarrow> random_level A (level_scale A M) u \<le> 9)"
proof -
  define c where "c = fm_round A (1 / 10 ^ 12)"
  define y where "y = fm_round A (- fm_log A (max u c) * level_scale A M)"
  note c = clamp_bounds [OF assms(1), folded c_def]
  have x: "1 / 2 ^ 40 \<le> max u c" "max u c \<le> 1 - 1 / 2 ^ 53" using c(1,2) assms(5) by simp_all
  note level = level_threshold [OF level_value [OF assms(1-3) x(2,1), folded y_def] assms(2) x(1)]
  have x1: "max u c \<le> 1" using x(2) by (rule order_trans) simp
  note y = level(1) [OF x1]
  have level_iff: "n \<le> random_level A (level_scale A M) u \<longleftrightarrow> real n \<le> y" for n
    unfolding random_level_def Let_def c_def [symmetric] y_def [symmetric] using y by (simp add: le_nat_iff le_floor_iff)
  have few: "random_level A (level_scale A M) u \<le> n" if "(2 :: real) ^ 40 \<le> b ^ Suc n" "b \<le> real M" "0 \<le> b" for b n
  proof (rule ccontr)
    assume "\<not> random_level A (level_scale A M) u \<le> n"
    then have "real M ^ Suc n * max u c \<le> 1 + 1 / 2 ^ 43" using level(3) [of "Suc n"] level_iff [of "Suc n"] x1 by simp
    moreover have "(2 :: real) ^ 40 \<le> real M ^ Suc n" using that(1) power_mono [OF that(2,3), of "Suc n"] by (rule order_trans)
    then have "(2 :: real) ^ 40 * ((1 - 1 / 2 ^ 53) / 10 ^ 12) \<le> real M ^ Suc n * max u c"
      using c(3) by (intro mult_mono) auto
    ultimately show False by simp
  qed
  have "l \<le> random_level A (level_scale A M) u" if "M ^ l < 10 ^ 12" "real M ^ l * u \<le> 1 - 1 / 2 ^ 43"
  proof -
    have "real (M ^ l) \<le> real (10 ^ 12 - 1)" using that(1) by (intro of_nat_mono) simp
    then have "real M ^ l * c \<le> (10 ^ 12 - 1) * ((1 + 1 / 2 ^ 53) / 10 ^ 12)"
      using c(1,2) by (intro mult_mono) (simp_all add: order_trans [OF _ c(1)])
    then have "real M ^ l * c \<le> 1 - 1 / 2 ^ 44" by simp
    then have "real M ^ l * max u c \<le> 1 - 1 / 2 ^ 44" using that(2) by (simp add: max_def)
    then show ?thesis using level(2) level_iff x1 by simp
  qed
  moreover have "random_level A (level_scale A M) u < l" if "1 + 1 / 2 ^ 43 < real M ^ l * u"
  proof (rule ccontr)
    assume "\<not> random_level A (level_scale A M) u < l"
    then have "real M ^ l * max u c \<le> 1 + 1 / 2 ^ 43" using level(3) [of l] level_iff [of l] x1 by simp
    moreover have "real M ^ l * u \<le> real M ^ l * max u c" by (intro mult_left_mono) simp_all
    ultimately show False using that by simp
  qed
  moreover have "random_level A (level_scale A M) u \<le> 39" by (rule few [of 2]) (use assms(2) in auto)
  moreover have "16 \<le> M \<longrightarrow> random_level A (level_scale A M) u \<le> 9" using few [of 16 9] by auto
  ultimately show ?thesis by blast
qed

text \<open>Exact arithmetic satisfies the hypothesis.\<close>

definition exact_math :: float_math where
  "exact_math = \<lparr>fm_round = (\<lambda>x. x), fm_log = ln\<rparr>"

lemma float_math_ok_exact: "float_math_ok exact_math"
  by (simp add: float_math_ok_def exact_math_def near_def)

theorem level_geometric_witness:
  "1 \<le> random_level exact_math (level_scale exact_math 16) (1 / 20) \<and>
   random_level exact_math (level_scale exact_math 16) (1 / 20) < 2"
  using level_geometric [of exact_math 16 "1 / 20" 1] level_geometric [of exact_math 16 "1 / 20" 2] float_math_ok_exact
  by simp

end
