(* ===== verification/Hnsw_Visited.thy ===== *)
theory Hnsw_Visited
  imports Hnsw_Search
begin

text \<open>
  The visited marks of \<^verbatim>\<open>search_layer\<close> as the code keeps them: one thread-local vector of
  32-bit stamps for all indexes and a counter that numbers the searches. A node is visited if its
  mark is the number of the current search. The search of \<^verbatim>\<open>Hnsw\<close> uses a fresh list of booleans;
  here the two are related. The loop is the loop of the code with a bound on its rounds.
\<close>

section \<open>Stamps\<close>

record visited =
  v_marks :: "u32 list"
  v_stamp :: u32

definition no_visits :: visited where
  "no_visits = \<lparr>v_marks = [], v_stamp = 0\<rparr>"

definition next_stamp :: "visited \<Rightarrow> u32 \<times> visited" where
  "next_stamp v = (let s = v_stamp v + 1; s = (if s = 0 then s + 1 else s) in (s, v\<lparr>v_stamp := s\<rparr>))"

definition reserve_marks :: "nat \<Rightarrow> u32 list \<Rightarrow> u32 list" where
  "reserve_marks n marks = (if length marks < n then replicate n 0 else marks)"

section \<open>The search\<close>

text \<open>As in \<open>expand\<close>, the tests for empty queues only matter for a beam width of 0 (\<open>queue_tests_redundant\<close>).\<close>

fun expand_stamped ::
  "hnsw_lib \<Rightarrow> node list \<Rightarrow> fvec \<Rightarrow> nat \<Rightarrow> nat \<Rightarrow> (u64 \<Rightarrow> bool) option \<Rightarrow> u32 \<Rightarrow> nat list \<Rightarrow>
     u32 list \<times> cand list \<times> cand list \<Rightarrow> u32 list \<times> cand list \<times> cand list" where
  "expand_stamped L ns q ef layer flt stamp [] s = s"
| "expand_stamped L ns q ef layer flt stamp (nb # nbs) (marks, C, R) =
     (if nb \<ge> length ns \<or> marks ! nb = stamp then expand_stamped L ns q ef layer flt stamp nbs (marks, C, R)
      else
        let marks = marks[nb := stamp]
        in if n_deleted (ns ! nb) \<or> layer > n_max_layer (ns ! nb)
           then expand_stamped L ns q ef layer flt stamp nbs (marks, C, R)
           else
             let nd = hl_dist L q (n_vec (ns ! nb));
                 C = (if length C < ef \<or> C \<noteq> [] \<and> flt_less nd (fst (C ! queue_top L C)) then C @ [(nd, nb)] else C);
                 R = (case flt of
                        Some p \<Rightarrow> if \<not> p (n_id (ns ! nb)) then R else result_push ef (nd, nb) R
                      | None \<Rightarrow> result_push ef (nd, nb) R)
             in expand_stamped L ns q ef layer flt stamp nbs (marks, C, R))"

fun stamped_loop ::
  "nat \<Rightarrow> hnsw_lib \<Rightarrow> node list \<Rightarrow> fvec \<Rightarrow> nat \<Rightarrow> nat \<Rightarrow> (u64 \<Rightarrow> bool) option \<Rightarrow> u32 \<Rightarrow>
     u32 list \<times> cand list \<times> cand list \<Rightarrow> (cand list \<times> u32 list) option" where
  "stamped_loop 0 L ns q ef layer flt stamp s = None"
| "stamped_loop (Suc fuel) L ns q ef layer flt stamp (marks, C, R) =
     (if C = [] then Some (R, marks)
      else
        let j = queue_top L C; (cand_dist, cand_idx) = C ! j; C = queue_pop j C
        in if length R \<ge> ef \<and> R \<noteq> [] \<and> flt_less (fst (result_top R)) cand_dist then Some (R, marks)
           else if layer > n_max_layer (ns ! cand_idx) then stamped_loop fuel L ns q ef layer flt stamp (marks, C, R)
           else stamped_loop fuel L ns q ef layer flt stamp
                  (expand_stamped L ns q ef layer flt stamp (n_nbrs (ns ! cand_idx) ! layer) (marks, C, R)))"

definition search_layer_stamped ::
  "nat \<Rightarrow> hnsw_lib \<Rightarrow> node list \<Rightarrow> fvec \<Rightarrow> nat \<Rightarrow> nat \<Rightarrow> nat \<Rightarrow> (u64 \<Rightarrow> bool) option \<Rightarrow> visited \<Rightarrow>
     (cand list \<times> visited) option" where
  "search_layer_stamped fuel L ns q entry ef layer flt v =
     (let (stamp, v) = next_stamp v;
          v = v\<lparr>v_marks := reserve_marks (length ns) (v_marks v)\<rparr>;
          e = ns ! entry
      in if n_deleted e \<or> layer > n_max_layer e then Some ([], v)
         else
           let de = hl_dist L q (n_vec e);
               R = (case flt of None \<Rightarrow> [(de, entry)] | Some p \<Rightarrow> if p (n_id e) then [(de, entry)] else []);
               marks = (v_marks v)[entry := stamp]
           in case stamped_loop fuel L ns q ef layer flt stamp (marks, [(de, entry)], R) of
                None \<Rightarrow> None
              | Some (R, marks) \<Rightarrow> Some (hl_sort L R, v\<lparr>v_marks := marks\<rparr>))"

section \<open>Stamps against fresh marks\<close>

definition seen_as :: "nat \<Rightarrow> u32 \<Rightarrow> u32 list \<Rightarrow> bool list" where
  "seen_as n stamp marks = map (\<lambda>m. m = stamp) (take n marks)"

lemma seen_as_length [simp]: "n \<le> length marks \<Longrightarrow> length (seen_as n stamp marks) = n"
  by (simp add: seen_as_def)

lemma seen_as_nth: "i < n \<Longrightarrow> n \<le> length marks \<Longrightarrow> seen_as n stamp marks ! i \<longleftrightarrow> marks ! i = stamp"
  by (simp add: seen_as_def)

lemma seen_as_mark: "seen_as n stamp (marks[i := stamp]) = (seen_as n stamp marks)[i := True]"
  by (simp add: seen_as_def take_update_swap map_update)

definition marks_grow :: "u32 \<Rightarrow> u32 list \<Rightarrow> u32 list \<Rightarrow> bool" where
  "marks_grow stamp ms ms' \<longleftrightarrow> length ms' = length ms \<and> (\<forall>i < length ms. ms' ! i = ms ! i \<or> ms' ! i = stamp)"

lemma marks_grow_refl [simp]: "marks_grow stamp ms ms"
  by (simp add: marks_grow_def)

lemma marks_grow_trans: "marks_grow s a b \<Longrightarrow> marks_grow s b c \<Longrightarrow> marks_grow s a c"
  unfolding marks_grow_def by metis

lemma marks_grow_mark [simp]: "marks_grow s ms (ms[k := s])"
  unfolding marks_grow_def by (metis length_list_update nth_list_update_eq nth_list_update_neq)

lemma expand_stamped_refines:
  assumes "length ns \<le> length marks"
    and "expand_stamped L ns q ef layer flt stamp nbs (marks, C, R) = (marks', C', R')"
  shows "expand L ns q ef layer flt nbs (seen_as (length ns) stamp marks, C, R) = (seen_as (length ns) stamp marks', C', R') \<and>
    marks_grow stamp marks marks'"
  using assms
proof (induction nbs arbitrary: marks C R)
  case (Cons nb nbs)
  show ?case
  proof (cases "nb \<ge> length ns \<or> marks ! nb = stamp")
    case True
    then show ?thesis using Cons by (auto simp: seen_as_nth)
  next
    case False
    then have "\<not> (nb \<ge> length (seen_as (length ns) stamp marks) \<or> seen_as (length ns) stamp marks ! nb)"
      using Cons.prems(1) by (simp add: seen_as_nth)
    moreover note IH = Cons.IH [of "marks[nb := stamp]"]
    ultimately show ?thesis
      using False Cons.prems marks_grow_trans [OF marks_grow_mark [of stamp marks nb]]
      by (simp add: seen_as_mark [symmetric] Let_def split: if_splits) (blast dest: IH)+
  qed
qed simp

lemma stamped_loop_returns:
  assumes "length ns \<le> length marks" and "unseen (seen_as (length ns) stamp marks) + length C < fuel"
  shows "\<exists>marks'. stamped_loop fuel L ns q ef layer flt stamp (marks, C, R) =
      Some (layer_loop L ns q ef layer flt (seen_as (length ns) stamp marks, C, R), marks') \<and> marks_grow stamp marks marks'"
  using assms
proof (induction fuel arbitrary: marks C R)
  case (Suc fuel)
  let ?vis = "seen_as (length ns) stamp marks"
  show ?case
  proof (cases "C = []")
    case True
    then show ?thesis by (simp add: layer_loop.simps)
  next
    case False
    define D where "D = queue_pop (queue_top L C) C"
    obtain cd ci where top: "C ! queue_top L C = (cd, ci)" by fastforce
    have D: "Suc (length D) = length C" using length_queue_pop [OF False, of L] by (simp add: D_def)
    consider (stop) "length R \<ge> ef \<and> R \<noteq> [] \<and> flt_less (fst (result_top R)) cd"
      | (skip) "\<not> (length R \<ge> ef \<and> R \<noteq> [] \<and> flt_less (fst (result_top R)) cd)" "layer > n_max_layer (ns ! ci)"
      | (expand) "\<not> (length R \<ge> ef \<and> R \<noteq> [] \<and> flt_less (fst (result_top R)) cd)" "\<not> layer > n_max_layer (ns ! ci)"
      by blast
    then show ?thesis
    proof cases
      case stop
      then show ?thesis using False by (simp add: layer_loop.simps [of L ns q ef layer flt ?vis C R] Let_def top)
    next
      case skip
      have "layer_loop L ns q ef layer flt (?vis, C, R) = layer_loop L ns q ef layer flt (?vis, D, R)"
        using False skip by (auto simp: layer_loop.simps [of L ns q ef layer flt ?vis C R] Let_def top D_def [symmetric])
      moreover have "stamped_loop (Suc fuel) L ns q ef layer flt stamp (marks, C, R) =
          stamped_loop fuel L ns q ef layer flt stamp (marks, D, R)"
        using False skip by (auto simp: Let_def top D_def [symmetric])
      ultimately show ?thesis using Suc.IH [of marks D R] Suc.prems D by simp
    next
      case expand
      obtain marks' C' R' where ex: "expand_stamped L ns q ef layer flt stamp (n_nbrs (ns ! ci) ! layer) (marks, D, R) = (marks', C', R')"
        by (metis prod_cases3)
      note ref = expand_stamped_refines [OF Suc.prems(1) ex]
      have "unseen (seen_as (length ns) stamp marks') + length C' \<le> unseen ?vis + length D"
        using expand_measure [OF conjunct1 [OF ref]] .
      moreover have "length ns \<le> length marks'" using ref Suc.prems(1) by (simp add: marks_grow_def)
      ultimately obtain m where m: "stamped_loop fuel L ns q ef layer flt stamp (marks', C', R') =
          Some (layer_loop L ns q ef layer flt (seen_as (length ns) stamp marks', C', R'), m)" "marks_grow stamp marks' m"
        using Suc.IH [of marks' C' R'] Suc.prems(2) D by auto
      have "layer_loop L ns q ef layer flt (?vis, C, R) = layer_loop L ns q ef layer flt (seen_as (length ns) stamp marks', C', R')"
        using False expand ref by (auto simp: layer_loop.simps [of L ns q ef layer flt ?vis C R] Let_def top D_def [symmetric])
      moreover have "stamped_loop (Suc fuel) L ns q ef layer flt stamp (marks, C, R) =
          stamped_loop fuel L ns q ef layer flt stamp (marks', C', R')"
        using False expand by (auto simp: Let_def top D_def [symmetric] ex)
      ultimately show ?thesis using m marks_grow_trans [OF conjunct2 [OF ref] m(2)] by simp
    qed
  qed
qed simp

lemma next_stamp_nonzero: "fst (next_stamp v) \<noteq> 0"
  by (simp add: next_stamp_def Let_def)

lemma unseen_le: "unseen vis \<le> length vis"
  by (simp add: unseen_def)

lemma search_layer_stamped_fresh:
  assumes "fst (next_stamp v) \<notin> set (v_marks v)" and "entry < length ns"
  shows "\<exists>v'. search_layer_stamped (length ns + 1) L ns q entry ef layer flt v = Some (search_layer L ns q entry ef layer flt, v') \<and>
    v_stamp v' = fst (next_stamp v) \<and> set (v_marks v') \<subseteq> set (v_marks v) \<union> {0, fst (next_stamp v)}"
proof -
  define stamp where "stamp = fst (next_stamp v)"
  define ms where "ms = reserve_marks (length ns) (v_marks v)"
  have len: "length ns \<le> length ms" by (simp add: ms_def reserve_marks_def)
  have ms: "set ms \<subseteq> set (v_marks v) \<union> {0}" by (auto simp: ms_def reserve_marks_def)
  have fresh: "stamp \<notin> set ms" using assms(1) next_stamp_nonzero [of v] ms by (auto simp: stamp_def)
  have nx: "next_stamp v = (stamp, v\<lparr>v_stamp := stamp\<rparr>)" by (simp add: stamp_def next_stamp_def Let_def)
  let ?e = "ns ! entry"
  show ?thesis
  proof (cases "n_deleted ?e \<or> layer > n_max_layer ?e")
    case True
    then have "search_layer_stamped (length ns + 1) L ns q entry ef layer flt v = Some ([], v\<lparr>v_stamp := stamp, v_marks := ms\<rparr>)"
      unfolding search_layer_stamped_def nx ms_def by (simp add: Let_def)
    moreover have "search_layer L ns q entry ef layer flt = []" using True by (simp add: search_layer_def Let_def)
    ultimately show ?thesis using ms unfolding stamp_def [symmetric] by auto
  next
    case False
    define de where "de = hl_dist L q (n_vec ?e)"
    define R where "R = (case flt of None \<Rightarrow> [(de, entry)] | Some p \<Rightarrow> if p (n_id ?e) then [(de, entry)] else [])"
    let ?ms = "ms[entry := stamp]"
    have vis: "seen_as (length ns) stamp ?ms = (replicate (length ns) False)[entry := True]"
    proof -
      have "seen_as (length ns) stamp ms = replicate (length ns) False"
        using fresh len by (intro nth_equalityI) (auto simp: seen_as_nth in_set_conv_nth)
      then show ?thesis by (simp add: seen_as_mark)
    qed
    have "Suc (unseen ((replicate (length ns) False)[entry := True])) = unseen (replicate (length ns) False)"
      using assms(2) by (intro unseen_mark) simp_all
    then have "unseen (seen_as (length ns) stamp ?ms) + length [(de, entry)] < length ns + 1"
      unfolding vis using unseen_le [of "replicate (length ns) False"] by simp
    from stamped_loop_returns [OF _ this] len obtain m where
      m: "stamped_loop (length ns + 1) L ns q ef layer flt stamp (?ms, [(de, entry)], R) =
        Some (layer_loop L ns q ef layer flt ((replicate (length ns) False)[entry := True], [(de, entry)], R), m)" "marks_grow stamp ?ms m"
      unfolding vis by fastforce
    have "set m \<subseteq> set ?ms \<union> {stamp}"
    proof
      fix x assume "x \<in> set m"
      then obtain k where "k < length m" "m ! k = x" by (auto simp: in_set_conv_nth)
      then show "x \<in> set ?ms \<union> {stamp}" using m(2) nth_mem [of k ?ms] unfolding marks_grow_def by (metis UnI1 UnI2 singletonI)
    qed
    then have "set m \<subseteq> set (v_marks v) \<union> {0, stamp}" using ms set_update_subset_insert [of ms entry stamp] by auto
    moreover have "search_layer_stamped (length ns + 1) L ns q entry ef layer flt v =
        Some (search_layer L ns q entry ef layer flt, v\<lparr>v_stamp := stamp, v_marks := m\<rparr>)"
      using False m(1) unfolding search_layer_stamped_def nx search_layer_def
      by (simp add: Let_def ms_def [symmetric] de_def [symmetric] R_def [symmetric] del: stamped_loop.simps)
    ultimately show ?thesis unfolding stamp_def [symmetric] by auto
  qed
qed

section \<open>All the searches of a thread\<close>

record layer_query =
  lq_nodes :: "node list"
  lq_vec :: fvec
  lq_entry :: nat
  lq_ef :: nat
  lq_layer :: nat
  lq_filter :: "(u64 \<Rightarrow> bool) option"

definition answer :: "hnsw_lib \<Rightarrow> layer_query \<Rightarrow> cand list" where
  "answer L x = search_layer L (lq_nodes x) (lq_vec x) (lq_entry x) (lq_ef x) (lq_layer x) (lq_filter x)"

definition stamped_answer :: "hnsw_lib \<Rightarrow> layer_query \<Rightarrow> visited \<Rightarrow> (cand list \<times> visited) option" where
  "stamped_answer L x =
     search_layer_stamped (length (lq_nodes x) + 1) L (lq_nodes x) (lq_vec x) (lq_entry x) (lq_ef x) (lq_layer x) (lq_filter x)"

fun run_stamped :: "hnsw_lib \<Rightarrow> layer_query list \<Rightarrow> visited \<Rightarrow> (cand list list \<times> visited) option" where
  "run_stamped L [] v = Some ([], v)"
| "run_stamped L (x # xs) v =
     (case stamped_answer L x v of
        None \<Rightarrow> None
      | Some (r, v) \<Rightarrow> (case run_stamped L xs v of None \<Rightarrow> None | Some (rs, v) \<Rightarrow> Some (r # rs, v)))"

lemma next_stamp_small: "unat (v_stamp v) + 1 < 2 ^ 32 \<Longrightarrow> unat (fst (next_stamp v)) = unat (v_stamp v) + 1"
proof -
  assume "unat (v_stamp v) + 1 < 2 ^ 32"
  then have "unat (v_stamp v + 1) = unat (v_stamp v) + 1" by (simp add: unat_word_ariths(1))
  then show ?thesis by (auto simp: next_stamp_def Let_def)
qed

lemma run_stamped_exact:
  assumes "\<forall>x \<in> set xs. lq_entry x < length (lq_nodes x)" and "unat (v_stamp v) + length xs < 2 ^ 32"
    and "\<forall>m \<in> set (v_marks v). unat m \<le> unat (v_stamp v)"
  shows "\<exists>v'. run_stamped L xs v = Some (map (answer L) xs, v')"
  using assms
proof (induction xs arbitrary: v)
  case (Cons x xs)
  have s: "unat (fst (next_stamp v)) = unat (v_stamp v) + 1" using Cons.prems(2) by (intro next_stamp_small) simp
  then have "fst (next_stamp v) \<notin> set (v_marks v)" using Cons.prems(3) by force
  from search_layer_stamped_fresh [OF this, of "lq_entry x" "lq_nodes x" L "lq_vec x" "lq_ef x" "lq_layer x" "lq_filter x"]
    Cons.prems(1) obtain v1 where
    v1: "stamped_answer L x v = Some (answer L x, v1)" "v_stamp v1 = fst (next_stamp v)"
    "set (v_marks v1) \<subseteq> set (v_marks v) \<union> {0, fst (next_stamp v)}"
    unfolding stamped_answer_def answer_def by auto
  have "\<forall>m \<in> set (v_marks v1). unat m \<le> unat (v_stamp v1)" using v1(2,3) s Cons.prems(3) by fastforce
  then obtain v' where "run_stamped L xs v1 = Some (map (answer L) xs, v')"
    using Cons.IH [of v1] Cons.prems(1,2) v1(2) s by auto
  then show ?case using v1(1) by simp
qed simp

text \<open>
  C24: the stamps stand for fresh marks, and every search ends. Let a thread make fewer than \<open>2^32\<close>
  searches of layers, on any indexes in any order, all entered at existing nodes. Each of them
  returns, after at most one round per node and one more, and gives the result of the search with
  a fresh list of visited marks.
\<close>

theorem stamped_searches_exact:
  assumes "\<forall>x \<in> set xs. lq_entry x < length (lq_nodes x)" and "length xs < 2 ^ 32"
  shows "\<exists>v. run_stamped L xs no_visits = Some (map (answer L) xs, v)"
  by (rule run_stamped_exact) (use assms in \<open>simp_all add: no_visits_def\<close>)

definition tie_lib :: hnsw_lib where
  "tie_lib = \<lparr>hl_dist = (\<lambda>_ _. 0), hl_top = (\<lambda>_. 0), hl_sort = (\<lambda>xs. xs)\<rparr>"

definition pair_query :: layer_query where
  "pair_query = \<lparr>lq_nodes = [\<lparr>n_id = 1, n_vec = [], n_nbrs = [[1]], n_max_layer = 0, n_deleted = False\<rparr>,
       \<lparr>n_id = 2, n_vec = [], n_nbrs = [[0]], n_max_layer = 0, n_deleted = False\<rparr>],
     lq_vec = [], lq_entry = 0, lq_ef = 2, lq_layer = 0, lq_filter = None\<rparr>"

lemma pair_query_first:
  "stamped_answer tie_lib pair_query no_visits = Some ([(0, 1), (0, 0)], \<lparr>v_marks = [1, 1], v_stamp = 1\<rparr>)"
  by (simp add: stamped_answer_def pair_query_def tie_lib_def no_visits_def search_layer_stamped_def next_stamp_def
    reserve_marks_def queue_top_def nearest_def queue_pop_def result_push_def flt_less_def flt_nan_def numeral_2_eq_2 upt_rec Let_def)

theorem stamped_searches_exact_witness:
  "\<exists>v. run_stamped tie_lib [pair_query] no_visits = Some ([answer tie_lib pair_query], v)"
  using stamped_searches_exact [of "[pair_query]" tie_lib] by (simp add: pair_query_def)

section \<open>After the counter has wrapped around\<close>

text \<open>A search entered at a deleted node ends at once and only counts.\<close>

definition dead_query :: layer_query where
  "dead_query = \<lparr>lq_nodes = [\<lparr>n_id = 3, n_vec = [], n_nbrs = [[]], n_max_layer = 0, n_deleted = True\<rparr>],
     lq_vec = [], lq_entry = 0, lq_ef = 2, lq_layer = 0, lq_filter = None\<rparr>"

lemma dead_query_counts:
  assumes "v_marks v \<noteq> []" and "unat (v_stamp v) + n < 2 ^ 32"
  shows "\<exists>rs. run_stamped L (replicate n dead_query) v = Some (rs, v\<lparr>v_stamp := v_stamp v + of_nat n\<rparr>) \<and> length rs = n"
  using assms
proof (induction n arbitrary: v)
  case (Suc n)
  have u: "unat (fst (next_stamp v)) = unat (v_stamp v) + 1" using Suc.prems(2) by (intro next_stamp_small) simp
  moreover have "unat (v_stamp v + 1) = unat (v_stamp v) + 1" using Suc.prems(2) by (simp add: unat_word_ariths(1))
  ultimately have s: "fst (next_stamp v) = v_stamp v + 1" by (simp add: word_unat_eq_iff)
  have "reserve_marks 1 (v_marks v) = v_marks v" using Suc.prems(1) by (cases "v_marks v") (simp_all add: reserve_marks_def)
  moreover have "next_stamp v = (v_stamp v + 1, v\<lparr>v_stamp := v_stamp v + 1\<rparr>)"
    using s by (simp add: next_stamp_def Let_def split: if_splits)
  ultimately have one: "stamped_answer L dead_query v = Some ([], v\<lparr>v_stamp := v_stamp v + 1\<rparr>)"
    by (simp add: stamped_answer_def dead_query_def search_layer_stamped_def)
  have "unat (v_stamp v + 1) + n < 2 ^ 32" using u s Suc.prems(2) by simp
  then obtain rs where "run_stamped L (replicate n dead_query) (v\<lparr>v_stamp := v_stamp v + 1\<rparr>) =
      Some (rs, v\<lparr>v_stamp := v_stamp v + 1 + of_nat n\<rparr>)" "length rs = n"
    using Suc.IH [of "v\<lparr>v_stamp := v_stamp v + 1\<rparr>"] Suc.prems(1) by auto
  then show ?case using one by (auto simp: add.assoc)
qed simp

lemma run_stamped_append:
  "run_stamped L xs v = Some (rs, v1) \<Longrightarrow> run_stamped L ys v1 = Some (rs', v2) \<Longrightarrow>
    run_stamped L (xs @ ys) v = Some (rs @ rs', v2)"
  by (induction xs arbitrary: v rs) (auto split: option.splits)

lemma pair_query_stale:
  "stamped_answer tie_lib pair_query \<lparr>v_marks = [1, 1], v_stamp = - 1\<rparr> = Some ([(0, 0)], \<lparr>v_marks = [1, 1], v_stamp = 1\<rparr>)"
  by (simp add: stamped_answer_def pair_query_def tie_lib_def search_layer_stamped_def next_stamp_def
    reserve_marks_def queue_top_def nearest_def queue_pop_def result_push_def flt_less_def flt_nan_def numeral_2_eq_2 upt_rec Let_def)

text \<open>
  after \<open>2^32 - 1\<close> searches the numbers repeat, and the marks of the first searches count as
  visits of the new ones: there is a sequence of \<open>2^32\<close> searches of one thread in which the last one
  misses a live neighbour that the same search found at the beginning.
\<close>

theorem stamp_wraparound_hides_node:
  "\<exists>xs rs v. list_all (\<lambda>x. lq_entry x < length (lq_nodes x)) xs \<and> length xs = 2 ^ 32 \<and>
     run_stamped tie_lib xs no_visits = Some (rs, v) \<and> hd xs = last xs \<and>
     snd ` set (hd rs) = {0, 1} \<and> snd ` set (last rs) = {0}"
proof -
  define n :: nat where "n = 2 ^ 32 - 2"
  define v1 :: visited where "v1 = \<lparr>v_marks = [1, 1], v_stamp = 1\<rparr>"
  have "unat (v_stamp v1) + n < 2 ^ 32" "v_marks v1 \<noteq> []" by (simp_all add: v1_def n_def)
  then obtain rs where rs: "run_stamped tie_lib (replicate n dead_query) v1 = Some (rs, v1\<lparr>v_stamp := v_stamp v1 + of_nat n\<rparr>)"
    using dead_query_counts by blast
  have "v_stamp v1 + of_nat n = - 1" by (simp add: v1_def n_def of_nat_diff)
  then have v2: "v1\<lparr>v_stamp := v_stamp v1 + of_nat n\<rparr> = \<lparr>v_marks = [1, 1], v_stamp = - 1\<rparr>" by (simp add: v1_def)
  have first: "run_stamped tie_lib [pair_query] no_visits = Some ([[(0, 1), (0, 0)]], v1)"
    using pair_query_first by (simp add: v1_def)
  have last: "run_stamped tie_lib [pair_query] \<lparr>v_marks = [1, 1], v_stamp = - 1\<rparr> = Some ([[(0, 0)]], \<lparr>v_marks = [1, 1], v_stamp = 1\<rparr>)"
    using pair_query_stale by simp
  let ?xs = "[pair_query] @ replicate n dead_query @ [pair_query]"
  have run: "run_stamped tie_lib ?xs no_visits = Some ([[(0, 1), (0, 0)]] @ rs @ [[(0, 0)]], \<lparr>v_marks = [1, 1], v_stamp = 1\<rparr>)"
    by (rule run_stamped_append [OF first run_stamped_append [OF rs [unfolded v2] last]])
  have "list_all (\<lambda>x. lq_entry x < length (lq_nodes x)) ?xs" by (simp add: pair_query_def dead_query_def list_all_iff)
  moreover have "length ?xs = 2 ^ 32" by (simp add: n_def)
  ultimately show ?thesis using run by (intro exI [of _ ?xs] exI) (auto simp: insert_commute)
qed

end
