(* ===== verification/Hnsw_Locks.thy ===== *)
theory Hnsw_Locks
  imports Hnsw_Theorems
begin

text \<open>
  The locks of the index (\<^verbatim>\<open>HNSWIndex::Impl\<close>): a mutex per stripe of ids, a shared mutex for the
  structure, a mutex for the random generator and a mutex per stripe of nodes. An operation is
  the sequence of its lock actions; threads run one operation each, interleaved in any order.
  The locks are taken in the order of their ranks, so no set of operations can deadlock. The
  second part is about what is read before a lock is taken: \<^verbatim>\<open>search_top_k_filtered\<close> tests the
  entry point first, takes the lock, and reads the entry point again.
\<close>

section \<open>Locks and programs\<close>

datatype lock = Label nat | Struct | Rng | Stripe nat

datatype action = Acquire lock | AcquireShared lock | Release lock

definition stripe_for :: "u64 \<Rightarrow> nat" where
  "stripe_for i = unat (i AND (65536 - 1))"

definition node_stripe :: "u64 \<Rightarrow> nat" where
  "node_stripe idx = unat (idx AND (4096 - 1))"

text \<open>The scope of a \<^verbatim>\<open>NodeLock\<close> and of a \<^verbatim>\<open>DualNodeLock\<close>; members are destroyed last one first.\<close>

definition node_lock :: "u64 \<Rightarrow> action list" where
  "node_lock idx = [Acquire (Stripe (node_stripe idx)), Release (Stripe (node_stripe idx))]"

definition dual_node_lock :: "u64 \<Rightarrow> u64 \<Rightarrow> action list" where
  "dual_node_lock a b =
     (let sa = node_stripe a; sb = node_stripe b
      in if sa = sb then [Acquire (Stripe sa), Release (Stripe sa)]
         else
           let lo = min sa sb; hi = max sa sb
           in [Acquire (Stripe lo), Acquire (Stripe hi), Release (Stripe hi), Release (Stripe lo)])"

datatype scope = OneNode u64 | TwoNodes u64 u64

fun scope_actions :: "scope \<Rightarrow> action list" where
  "scope_actions (OneNode i) = node_lock i"
| "scope_actions (TwoNodes i j) = dual_node_lock i j"

definition scopes :: "scope list \<Rightarrow> action list" where
  "scopes ss = concat (map scope_actions ss)"

definition random_level_lock :: "action list" where
  "random_level_lock = [Acquire Rng, Release Rng]"

text \<open>
  The operations, with the node scopes they go through. A writer that returns early (a known id,
  an unknown id) goes through none and draws no level.
\<close>

datatype lock_op =
    LAdd u64 "scope list"
  | LUpdate u64 "scope list" "scope list"
  | LRemove u64 "scope list"
  | LSearch "scope list"
  | LContains
  | LWriteRefused u64

fun program :: "lock_op \<Rightarrow> action list" where
  "program (LAdd i ss) =
     [Acquire (Label (stripe_for i)), Acquire Struct] @ random_level_lock @ scopes ss @
     [Release Struct, Release (Label (stripe_for i))]"
| "program (LUpdate i ss ss') =
     [Acquire (Label (stripe_for i)), Acquire Struct] @ scopes ss @ random_level_lock @ scopes ss' @
     [Release Struct, Release (Label (stripe_for i))]"
| "program (LRemove i ss) =
     [Acquire (Label (stripe_for i)), Acquire Struct] @ scopes ss @ [Release Struct, Release (Label (stripe_for i))]"
| "program (LSearch ss) = AcquireShared Struct # scopes ss @ [Release Struct]"
| "program LContains = [AcquireShared Struct, Release Struct]"
| "program (LWriteRefused i) =
     [Acquire (Label (stripe_for i)), Acquire Struct, Release Struct, Release (Label (stripe_for i))]"

section \<open>Threads\<close>

text \<open>A thread: the locks it holds, last taken first, with whether they are exclusive; what is left to do.\<close>

record thread =
  th_held :: "(lock \<times> bool) list"
  th_todo :: "action list"

definition start :: "lock_op list \<Rightarrow> thread list" where
  "start ops = map (\<lambda>p. \<lparr>th_held = [], th_todo = program p\<rparr>) ops"

definition holds :: "lock \<Rightarrow> bool \<Rightarrow> thread \<Rightarrow> bool" where
  "holds l excl t \<longleftrightarrow> (l, excl) \<in> set (th_held t)"

inductive lock_step :: "thread list \<Rightarrow> thread list \<Rightarrow> bool" where
  acquire: "i < length ts \<Longrightarrow> ts ! i = \<lparr>th_held = hs, th_todo = Acquire l # as\<rparr> \<Longrightarrow>
     \<forall>t \<in> set ts. \<not> holds l True t \<and> \<not> holds l False t \<Longrightarrow>
     lock_step ts (ts[i := \<lparr>th_held = (l, True) # hs, th_todo = as\<rparr>])"
| acquire_shared: "i < length ts \<Longrightarrow> ts ! i = \<lparr>th_held = hs, th_todo = AcquireShared l # as\<rparr> \<Longrightarrow>
     \<forall>t \<in> set ts. \<not> holds l True t \<Longrightarrow>
     lock_step ts (ts[i := \<lparr>th_held = (l, False) # hs, th_todo = as\<rparr>])"
| release: "i < length ts \<Longrightarrow> ts ! i = \<lparr>th_held = (l, m) # hs, th_todo = Release l # as\<rparr> \<Longrightarrow>
     lock_step ts (ts[i := \<lparr>th_held = hs, th_todo = as\<rparr>])"

section \<open>The order of the locks\<close>

fun rank :: "lock \<Rightarrow> nat" where
  "rank (Label s) = 0"
| "rank Struct = 1"
| "rank Rng = 2"
| "rank (Stripe s) = 3 + s"

fun ranked :: "(lock \<times> bool) list \<Rightarrow> action list \<Rightarrow> bool" where
  "ranked hs [] \<longleftrightarrow> hs = []"
| "ranked hs (Acquire l # as) \<longleftrightarrow> (\<forall>h \<in> set hs. rank (fst h) < rank l) \<and> ranked ((l, True) # hs) as"
| "ranked hs (AcquireShared l # as) \<longleftrightarrow> (\<forall>h \<in> set hs. rank (fst h) < rank l) \<and> ranked ((l, False) # hs) as"
| "ranked hs (Release l # as) \<longleftrightarrow> hs \<noteq> [] \<and> fst (hd hs) = l \<and> ranked (tl hs) as"

lemma ranked_scopes:
  assumes "\<forall>h \<in> set hs. rank (fst h) \<le> 2" and "ranked hs as"
  shows "ranked hs (scopes ss @ as)"
proof (induction ss)
  case (Cons s ss)
  have "ranked hs (scope_actions s @ as')" if "ranked hs as'" for as'
    using assms(1) that
    by (cases s) (auto simp: node_lock_def dual_node_lock_def Let_def min_def max_def le_imp_less_Suc intro!: order.strict_trans1 [of "rank _" 2])
  then show ?case using Cons by (simp add: scopes_def)
qed (simp add: scopes_def assms(2))

lemma ranked_program: "ranked [] (program p)"
proof -
  have r: "ranked hs (random_level_lock @ as)" if "\<forall>h \<in> set hs. rank (fst h) \<le> 1" "ranked hs as" for hs as
    using that by (force simp: random_level_lock_def)
  show ?thesis
    by (cases p) (auto intro!: ranked_scopes r)
qed

definition all_ranked :: "thread list \<Rightarrow> bool" where
  "all_ranked ts \<longleftrightarrow> (\<forall>t \<in> set ts. ranked (th_held t) (th_todo t))"

lemma all_ranked_start: "all_ranked (start ops)"
  by (auto simp: all_ranked_def start_def ranked_program)

lemma all_ranked_update: "all_ranked ts \<Longrightarrow> ranked (th_held t) (th_todo t) \<Longrightarrow> all_ranked (ts[i := t])"
  by (auto simp: all_ranked_def dest!: set_update_subset_insert [THEN subsetD])

lemma all_ranked_step: "lock_step ts ts' \<Longrightarrow> all_ranked ts \<Longrightarrow> all_ranked ts'"
proof (induction rule: lock_step.induct)
  case (acquire i ts hs l as)
  then have "ranked hs (Acquire l # as)" by (metis all_ranked_def nth_mem thread.select_convs)
  then show ?case by (intro all_ranked_update acquire.prems) simp
next
  case (acquire_shared i ts hs l as)
  then have "ranked hs (AcquireShared l # as)" by (metis all_ranked_def nth_mem thread.select_convs)
  then show ?case by (intro all_ranked_update acquire_shared.prems) simp
next
  case (release i ts l m hs as)
  then have "ranked ((l, m) # hs) (Release l # as)" by (metis all_ranked_def nth_mem thread.select_convs)
  then show ?case by (intro all_ranked_update release.prems) simp
qed

section \<open>Progress\<close>

text \<open>The lock an unfinished thread asks for next.\<close>

fun wanted :: "action list \<Rightarrow> lock option" where
  "wanted (Acquire l # as) = Some l"
| "wanted (AcquireShared l # as) = Some l"
| "wanted _ = None"

lemma ranked_wanted: "ranked hs as \<Longrightarrow> wanted as = Some l \<Longrightarrow> (l', m) \<in> set hs \<Longrightarrow> rank l' < rank l"
  by (cases as rule: wanted.cases) force+

lemma ranked_holder: "ranked hs as \<Longrightarrow> hs \<noteq> [] \<Longrightarrow> as \<noteq> []"
  by (cases as) auto

lemma release_steps:
  assumes "all_ranked ts" and "t \<in> set ts" and "th_todo t \<noteq> []" and "wanted (th_todo t) = None"
  shows "\<exists>ts'. lock_step ts ts'"
proof -
  obtain i where i: "i < length ts" "ts ! i = t" using assms(2) by (auto simp: in_set_conv_nth)
  obtain l as where todo: "th_todo t = Release l # as" using assms(3,4) by (cases "th_todo t" rule: wanted.cases) auto
  have "ranked (th_held t) (Release l # as)" using assms(1,2) todo by (auto simp: all_ranked_def)
  then obtain m hs where "th_held t = (l, m) # hs" by (cases "th_held t") auto
  then have "ts ! i = \<lparr>th_held = (l, m) # hs, th_todo = Release l # as\<rparr>" using i(2) todo by (cases t) simp
  from lock_step.release [OF i(1) this] show ?thesis by blast
qed

lemma progress:
  assumes "all_ranked ts" and "t0 \<in> set ts" and "th_todo t0 \<noteq> []"
  shows "\<exists>ts'. lock_step ts ts'"
proof (cases "\<exists>t \<in> set ts. th_todo t \<noteq> [] \<and> wanted (th_todo t) = None")
  case True
  then show ?thesis using release_steps [OF assms(1)] by blast
next
  case False
  let ?W = "{t \<in> set ts. th_todo t \<noteq> []}" and ?r = "\<lambda>t. rank (the (wanted (th_todo t)))"
  have "finite ?W" "t0 \<in> ?W" using assms(2,3) by simp_all
  then have "Max (?r ` ?W) \<in> ?r ` ?W" by (intro Max_in) auto
  then obtain t where t: "t \<in> set ts" "th_todo t \<noteq> []" and mx: "?r t = Max (?r ` ?W)" by auto
  have top: "?r u \<le> ?r t" if "u \<in> set ts" "th_todo u \<noteq> []" for u
    unfolding mx using that by (intro Max_ge) auto
  obtain l where l: "wanted (th_todo t) = Some l" using False t by auto
  have free: "\<not> holds l m u" if mem: "u \<in> set ts" for u m
  proof
    assume h: "holds l m u"
    have rk: "ranked (th_held u) (th_todo u)" using assms(1) mem by (auto simp: all_ranked_def)
    have "th_held u \<noteq> []" using h by (auto simp: holds_def)
    then have u: "th_todo u \<noteq> []" by (rule ranked_holder [OF rk])
    then obtain l' where l': "wanted (th_todo u) = Some l'" using False mem by (metis option.exhaust)
    have "rank l < rank l'" using ranked_wanted [OF rk l'] h by (simp add: holds_def)
    then show False using top [OF mem u] l l' by simp
  qed
  obtain i where i: "i < length ts" "ts ! i = t" using t(1) by (auto simp: in_set_conv_nth)
  show ?thesis
  proof (cases "th_todo t" rule: wanted.cases)
    case (1 l1 as)
    then have "ts ! i = \<lparr>th_held = th_held t, th_todo = Acquire l # as\<rparr>" using i(2) l by (cases t) simp
    from lock_step.acquire [OF i(1) this] free show ?thesis by blast
  next
    case (2 l1 as)
    then have "ts ! i = \<lparr>th_held = th_held t, th_todo = AcquireShared l # as\<rparr>" using i(2) l by (cases t) simp
    from lock_step.acquire_shared [OF i(1) this] free show ?thesis by blast
  qed (use l in auto)
qed

definition work :: "thread list \<Rightarrow> nat" where
  "work ts = sum_list (map (length \<circ> th_todo) ts)"

lemma work_update:
  "i < length ts \<Longrightarrow> length (th_todo (ts ! i)) = Suc (length (th_todo t)) \<Longrightarrow> work ts = Suc (work (ts[i := t]))"
proof (induction ts arbitrary: i)
  case (Cons u ts)
  then show ?case by (cases i) (auto simp: work_def)
qed simp

lemma step_work: "lock_step ts ts' \<Longrightarrow> work ts = Suc (work ts')"
  by (induction rule: lock_step.induct) (rule work_update, simp, simp)+

lemma work_0_iff: "work ts = 0 \<longleftrightarrow> (\<forall>t \<in> set ts. th_todo t = [])"
  by (auto simp: work_def)

lemma run_work: "(lock_step ^^ n) ts ts' \<Longrightarrow> all_ranked ts \<Longrightarrow> all_ranked ts' \<and> work ts = n + work ts'"
proof (induction n arbitrary: ts')
  case (Suc n)
  then obtain u where "(lock_step ^^ n) ts u" "lock_step u ts'" by auto
  then show ?case using Suc.IH [of u] Suc.prems(2) all_ranked_step step_work by fastforce
qed simp

text \<open>
  C23: no deadlock, and every operation finishes. Let any number of threads add, update, remove,
  search and look up, in any interleaving, through any nodes. As long as an operation is not
  finished some thread can make a step, no run is longer than the number of lock actions, and
  after that many steps all operations are finished and all locks free.
\<close>

theorem lock_order_deadlock_free:
  assumes "(lock_step ^^ n) (start ops) ts"
  shows "n \<le> work (start ops) \<and>
    (n < work (start ops) \<longleftrightarrow> (\<exists>ts'. lock_step ts ts')) \<and>
    (n = work (start ops) \<longleftrightarrow> list_all (\<lambda>t. th_todo t = [] \<and> th_held t = []) ts)"
proof -
  have r: "all_ranked ts" "work (start ops) = n + work ts" using run_work [OF assms all_ranked_start] by auto
  have "\<exists>ts'. lock_step ts ts'" if w: "work ts \<noteq> 0"
  proof -
    obtain t where "t \<in> set ts" "th_todo t \<noteq> []" using w unfolding work_0_iff by blast
    then show ?thesis by (rule progress [OF r(1)])
  qed
  moreover have "work ts \<noteq> 0" if "lock_step ts ts'" for ts' using step_work [OF that] by simp
  moreover have "work ts = 0 \<longleftrightarrow> list_all (\<lambda>t. th_todo t = [] \<and> th_held t = []) ts"
    using r(1) ranked.simps(1) by (fastforce simp: work_0_iff list_all_iff all_ranked_def)
  ultimately show ?thesis using r(2) by auto
qed

theorem lock_order_deadlock_free_witness:
  "\<exists>ts'. lock_step (start [LAdd 7 [TwoNodes 1 0], LSearch [OneNode 0]]) ts'"
  using lock_order_deadlock_free [of 0 "[LAdd 7 [TwoNodes 1 0], LSearch [OneNode 0]]"]
  by (simp add: work_def start_def)

section \<open>Exclusion\<close>

definition exclusive :: "thread list \<Rightarrow> bool" where
  "exclusive ts \<longleftrightarrow> (\<forall>i < length ts. \<forall>j < length ts. i \<noteq> j \<longrightarrow> (\<forall>l m. holds l True (ts ! i) \<longrightarrow> \<not> holds l m (ts ! j)))"

lemma exclusive_step: "lock_step ts ts' \<Longrightarrow> exclusive ts \<Longrightarrow> exclusive ts'"
proof (induction rule: lock_step.induct)
  case (acquire i ts hs l as)
  have free: "\<not> holds l m (ts ! j)" if "j < length ts" for j m using acquire(3) that by (cases m) auto
  have h: "holds l' m (ts[i := \<lparr>th_held = (l, True) # hs, th_todo = as\<rparr>] ! j) \<longleftrightarrow>
      holds l' m (ts ! j) \<or> j = i \<and> l' = l \<and> m" if "j < length ts" for j l' m
    using acquire(1,2) that by (auto simp: holds_def nth_list_update)
  show ?case using acquire.prems free unfolding exclusive_def by (auto simp: h)
next
  case (acquire_shared i ts hs l as)
  have free: "\<not> holds l True (ts ! j)" if "j < length ts" for j using acquire_shared(3) that by auto
  have h: "holds l' m (ts[i := \<lparr>th_held = (l, False) # hs, th_todo = as\<rparr>] ! j) \<longleftrightarrow>
      holds l' m (ts ! j) \<or> j = i \<and> l' = l \<and> \<not> m" if "j < length ts" for j l' m
    using acquire_shared(1,2) that by (auto simp: holds_def nth_list_update)
  show ?case using acquire_shared.prems free unfolding exclusive_def by (auto simp: h)
next
  case (release i ts l m hs as)
  have "holds l' m' (ts ! j)" if "holds l' m' (ts[i := \<lparr>th_held = hs, th_todo = as\<rparr>] ! j)" "j < length ts" for j l' m'
    using release(1,2) that by (auto simp: holds_def nth_list_update split: if_splits)
  then show ?case using release.prems unfolding exclusive_def length_list_update by blast
qed

lemma run_exclusive: "(lock_step ^^ n) ts ts' \<Longrightarrow> exclusive ts \<Longrightarrow> exclusive ts'"
  by (induction n arbitrary: ts') (auto dest: exclusive_step)

lemma start_exclusive: "exclusive (start ops)"
  by (simp add: exclusive_def start_def holds_def)

text \<open>
  writers are alone. In every state that any interleaving reaches, a lock held exclusively is
  held by one thread only; in particular no thread is inside a search or a look-up while another
  holds the structure exclusively.
\<close>

theorem exclusive_locks_exclude:
  assumes "(lock_step ^^ n) (start ops) ts" and "i < length ts" and "j < length ts" and "i \<noteq> j"
    and "holds l True (ts ! i)"
  shows "\<not> holds l m (ts ! j)"
  using run_exclusive [OF assms(1) start_exclusive] assms(2-5) by (simp add: exclusive_def)

text \<open>Two threads: an add holds the structure while a search waits for it.\<close>

theorem exclusive_locks_exclude_witness:
  "\<not> holds Struct False ([\<lparr>th_held = [(Struct, True), (Label 7, True)], th_todo = [Release Struct, Release (Label 7)]\<rparr>,
      \<lparr>th_held = [], th_todo = program (LSearch [])\<rparr>] ! 1)"
proof (rule exclusive_locks_exclude [where i = 0 and ops = "[LWriteRefused 7, LSearch []]" and n = 2])
  let ?a = "\<lparr>th_held = [], th_todo = program (LWriteRefused 7)\<rparr>" and ?s = "\<lparr>th_held = [], th_todo = program (LSearch [])\<rparr>"
  let ?a1 = "\<lparr>th_held = [(Label 7, True)], th_todo = [Acquire Struct, Release Struct, Release (Label 7)]\<rparr>"
  let ?a2 = "\<lparr>th_held = [(Struct, True), (Label 7, True)], th_todo = [Release Struct, Release (Label 7)]\<rparr>"
  have lab: "stripe_for 7 = 7" by (simp add: stripe_for_def)
  have "lock_step [?a, ?s] ([?a, ?s][0 := ?a1])"
    by (rule lock_step.acquire) (simp_all add: holds_def lab)
  moreover have "lock_step [?a1, ?s] ([?a1, ?s][0 := ?a2])"
    by (rule lock_step.acquire) (simp_all add: holds_def)
  ultimately show "(lock_step ^^ 2) (start [LWriteRefused 7, LSearch []]) [?a2, ?s]"
    by (auto simp: numeral_2_eq_2 start_def)
qed (simp_all add: holds_def)

section \<open>The entry point is read twice\<close>

text \<open>
  One search among writers. A writer changes the index in one step, at any moment at which the
  search does not hold the lock. The search tests the entry point before it takes the lock and
  reads it again afterwards; with no entry point this second read yields the index
  \<^verbatim>\<open>size_t(-1)\<close> and the access to that node is out of bounds.
\<close>

datatype search_pc = STest | SLock | SRead | SDone "search_result list" | SOut_Of_Bounds

inductive search_race ::
  "hnsw_lib \<Rightarrow> fvec \<Rightarrow> nat \<Rightarrow> nat \<Rightarrow> hnsw \<times> search_pc \<Rightarrow> hnsw \<times> search_pc \<Rightarrow> bool"
  for L q k ef where
  test: "search_race L q k ef (h, STest) (h, if k = 0 \<or> h_entry h < 0 then SDone [] else SLock)"
| lock: "search_race L q k ef (h, SLock) (h, SRead)"
| read: "search_race L q k ef (h, SRead)
     (h, if h_entry h < 0 then SOut_Of_Bounds else SDone (search_top_k L q k ef h))"
| write_add: "pc \<noteq> SRead \<Longrightarrow> search_race L q k ef (h, pc) (snd (add_item L level i vec h), pc)"
| write_remove: "pc \<noteq> SRead \<Longrightarrow> search_race L q k ef (h, pc) (snd (hnsw_remove i h), pc)"
| write_update: "pc \<noteq> SRead \<Longrightarrow> search_race L q k ef (h, pc) (snd (update_item L level i vec h), pc)"

definition last_node :: hnsw where
  "last_node = snd (add_item zero_lib 0 7 [1] (new_hnsw 1 16 200))"

lemma last_node_entry: "h_entry last_node = 0" "h_entry (snd (hnsw_remove 7 last_node)) = -1"
  by (simp_all add: last_node_def add_item_def new_hnsw_def hnsw_remove_def Let_def)

text \<open>
  a search can run into the removal of the last entry. From an index with one live entry there
  is an interleaving of one search and one removal in which the search, having seen an entry point,
  reads it again after the removal and accesses a node out of bounds.
\<close>

theorem search_races_with_removal:
  "\<exists>h. (search_race zero_lib [1] 1 10)\<^sup>*\<^sup>* (last_node, STest) (h, SOut_Of_Bounds)"
proof -
  let ?h = "snd (hnsw_remove 7 last_node)" and ?step = "search_race zero_lib [1] 1 10"
  have "?step (last_node, STest) (last_node, SLock)"
    using search_race.test [of zero_lib "[1]" 1 10 last_node] by (simp add: last_node_entry)
  moreover have "?step (last_node, SLock) (?h, SLock)" by (rule search_race.write_remove) simp
  moreover have "?step (?h, SLock) (?h, SRead)" by (rule search_race.lock)
  moreover have "?step (?h, SRead) (?h, SOut_Of_Bounds)"
    using search_race.read [of zero_lib "[1]" 1 10 ?h] by (simp add: last_node_entry)
  ultimately show ?thesis by (meson converse_rtranclp_into_rtranclp rtranclp.rtrancl_refl)
qed

end
