(* ===== verification/Fvecs.thy ===== *)
theory Fvecs
  imports Byte_Stream
begin

text \<open>
  The reader of the \<open>fvecs\<close> file format (\<^verbatim>\<open>tools/fvecs_reader.h\<close>): each vector is its dimension
  as a 32-bit integer, followed by that many 32-bit floats, which are kept as words. The file is
  what its path holds, \<open>None\<close> when it cannot be opened; each exception of the code is a
  constructor of \<open>fvecs_error\<close>. The theorem says that the reader accepts exactly the encodings
  of the non-empty lists of vectors of one dimension, and that its two checks for a short read
  inside the loop can never fail.
\<close>

section \<open>Reader\<close>

datatype fvecs_error =
    CannotOpen
  | EmptyFile
  | InvalidDim int
  | SizeMismatch
  | TruncatedHeader
  | InconsistentDim
  | TruncatedVector

record fvecs_data =
  fd_dim :: nat
  fd_count :: nat
  fd_flat :: "u32 list"

text \<open>The floats from the start of vector \<open>i\<close> on.\<close>

definition fd_vec :: "fvecs_data \<Rightarrow> nat \<Rightarrow> u32 list" where
  "fd_vec d i = drop (i * fd_dim d) (fd_flat d)"

fun read_rows :: "nat \<Rightarrow> nat \<Rightarrow> bytes \<Rightarrow> fvecs_error + u32 list" where
  "read_rows dm 0 bs = Inr []"
| "read_rows dm (Suc n) bs =
     (case rd_u32 bs of
        None \<Rightarrow> Inl TruncatedHeader
      | Some (d, bs) \<Rightarrow>
          if d \<noteq> of_nat dm then Inl InconsistentDim
          else case rd_floats dm bs of
            None \<Rightarrow> Inl TruncatedVector
          | Some (v, bs) \<Rightarrow>
              case read_rows dm n bs of Inl e \<Rightarrow> Inl e | Inr flat \<Rightarrow> Inr (v @ flat))"

definition read_fvecs :: "bytes option \<Rightarrow> fvecs_error + fvecs_data" where
  "read_fvecs file =
     (case file of None \<Rightarrow> Inl CannotOpen | Some bs \<Rightarrow>
      case rd_u32 bs of None \<Rightarrow> Inl EmptyFile | Some (d, _) \<Rightarrow>
      if sint d \<le> 0 \<or> sint d > 65536 then Inl (InvalidDim (sint d))
      else
        let dm = nat (sint d); per = 4 + dm * 4; count = length bs div per
        in if length bs \<le> 0 \<or> length bs mod per \<noteq> 0 then Inl SizeMismatch
           else case read_rows dm count bs of
             Inl e \<Rightarrow> Inl e
           | Inr flat \<Rightarrow> Inr \<lparr>fd_dim = dm, fd_count = count, fd_flat = flat\<rparr>)"

section \<open>Format\<close>

definition put_fvec :: "u32 list \<Rightarrow> bytes" where
  "put_fvec v = put_u32 (of_nat (length v)) @ concat (map put_u32 v)"

lemma length_put_words: "length (concat (map put_u32 v)) = 4 * length v"
  by (induction v) simp_all

lemma length_put_fvec: "length (put_fvec v) = 4 + length v * 4"
  by (simp add: put_fvec_def length_put_words)

lemma length_put_rows:
  "\<forall>v \<in> set vs. length v = dm \<Longrightarrow> length (concat (map put_fvec vs)) = length vs * (4 + dm * 4)"
  by (induction vs) (simp_all add: length_put_fvec)

text \<open>What was accepted is what the writer produces, for one field, for a row and for the file.\<close>

lemma rd_u32_some: "rd_u32 bs = Some (w, rest) \<Longrightarrow> bs = put_u32 w @ rest"
  by (auto simp: rd_u32_def rd_bind_def rd_bytes_def rd_return_def put_get_u32 split: if_splits)

lemma rd_floats_some: "rd_floats n bs = Some (v, rest) \<Longrightarrow> length v = n \<and> bs = concat (map put_u32 v) @ rest"
  unfolding rd_floats_def
proof (induction n arbitrary: bs v)
  case (Suc n)
  then obtain w bs' ws where "rd_u32 bs = Some (w, bs')" "rd_many rd_u32 n bs' = Some (ws, rest)" "v = w # ws"
    by (auto split: option.splits)
  then show ?case using Suc.IH rd_u32_some by fastforce
qed simp

lemma rd_field_none: "rd_u32 bs = None \<Longrightarrow> length bs < 4" "rd_floats n cs = None \<Longrightarrow> length cs < 4 * n"
proof -
  show "rd_u32 bs = None \<Longrightarrow> length bs < 4"
    by (auto simp: rd_u32_def rd_bind_def rd_bytes_def rd_return_def split: if_splits)
  show "rd_floats n cs = None \<Longrightarrow> length cs < 4 * n"
    unfolding rd_floats_def
  proof (induction n arbitrary: cs)
    case (Suc n)
    show ?case
    proof (cases "rd_u32 cs")
      case None
      then show ?thesis by (auto simp: rd_u32_def rd_bind_def rd_bytes_def rd_return_def split: if_splits)
    next
      case (Some r)
      then have "rd_many rd_u32 n (snd r) = None" using Suc.prems by (auto split: option.splits prod.splits)
      then show ?thesis using Suc.IH [of "snd r"] rd_u32_some [of cs "fst r" "snd r"] Some
        by (metis add_less_cancel_left length_append length_put(3) mult_Suc_right prod.collapse)
    qed
  qed simp
qed

lemma read_rows_some:
  "read_rows dm n bs = Inr flat \<Longrightarrow>
    \<exists>vs rest. length vs = n \<and> (\<forall>v \<in> set vs. length v = dm) \<and> bs = concat (map put_fvec vs) @ rest \<and> flat = concat vs"
proof (induction n arbitrary: bs flat)
  case (Suc n)
  then obtain bs1 v bs2 flat' where r: "rd_u32 bs = Some (of_nat dm, bs1)" "rd_floats dm bs1 = Some (v, bs2)"
      "read_rows dm n bs2 = Inr flat'" "flat = v @ flat'"
    by (auto split: option.splits sum.splits if_splits)
  obtain vs rest where "length vs = n" "\<forall>v \<in> set vs. length v = dm" "bs2 = concat (map put_fvec vs) @ rest" "flat' = concat vs"
    using Suc.IH [OF r(3)] by blast
  then show ?case using rd_u32_some [OF r(1)] rd_floats_some [OF r(2)] r(4)
    by (intro exI [of _ "v # vs"] exI [of _ rest]) (simp add: put_fvec_def [of v])
qed simp

lemma read_rows_put:
  "\<forall>v \<in> set vs. length v = dm \<Longrightarrow> read_rows dm (length vs) (concat (map put_fvec vs)) = Inr (concat vs)"
proof (induction vs)
  case (Cons v vs)
  have "rd_u32 (put_u32 (of_nat dm) @ rest) = Some (of_nat dm, rest)" for rest
    using reads_ints(3) by (simp add: reads_def)
  moreover have "rd_floats dm (concat (map put_u32 v) @ rest) = Some (v, rest)" for rest
    using reads_floats [of v dm] Cons.prems by (simp add: reads_def)
  ultimately show ?case using Cons by (simp add: put_fvec_def)
qed simp

lemma read_rows_never_short:
  "length bs = n * (4 + dm * 4) \<Longrightarrow> read_rows dm n bs \<noteq> Inl TruncatedHeader \<and> read_rows dm n bs \<noteq> Inl TruncatedVector"
proof (induction n arbitrary: bs)
  case (Suc n)
  obtain w bs1 where h: "rd_u32 bs = Some (w, bs1)"
    using rd_field_none(1) [of bs] Suc.prems by (cases "rd_u32 bs") auto
  then have len: "length bs1 = dm * 4 + n * (4 + dm * 4)" using rd_u32_some [OF h] Suc.prems by simp
  obtain v bs2 where r: "rd_floats dm bs1 = Some (v, bs2)"
    using rd_field_none(2) [of dm bs1] len by (cases "rd_floats dm bs1") auto
  then have "length bs2 = n * (4 + dm * 4)" using rd_floats_some [OF r] len by (simp add: length_put_words)
  from Suc.IH [OF this] show ?case using h r by (cases "read_rows dm n bs2") auto
qed simp

section \<open>The reader accepts exactly the format\<close>

lemma sint_of_nat_dim: "n \<le> 65536 \<Longrightarrow> sint (of_nat n :: u32) = int n"
  by (simp add: sint_uint uint_nat unsigned_of_nat take_bit_nat_eq_self signed_take_bit_eq_if_positive signed_take_bit_int_eq_self)

lemma read_fvecs_put:
  assumes "vs \<noteq> []" and "0 < dm" and "dm \<le> 65536" and "\<forall>v \<in> set vs. length v = dm"
  shows "read_fvecs (Some (concat (map put_fvec vs))) = Inr \<lparr>fd_dim = dm, fd_count = length vs, fd_flat = concat vs\<rparr>"
proof -
  have "rd_u32 (concat (map put_fvec vs)) = Some (of_nat dm, drop 4 (concat (map put_fvec vs)))"
    using assms(1,4) reads_ints(3) [of "of_nat dm"] by (cases vs) (simp_all add: put_fvec_def reads_def)
  moreover have "0 < length vs * (4 + dm * 4)" using assms(1) by simp
  ultimately show ?thesis
    using assms(2,3) length_put_rows [OF assms(4)] read_rows_put [OF assms(4)]
    by (simp add: read_fvecs_def Let_def sint_of_nat_dim)
qed

lemma read_fvecs_some:
  assumes "read_fvecs file = Inr d"
  obtains vs where "vs \<noteq> []" "0 < fd_dim d" "fd_dim d \<le> 65536" "\<forall>v \<in> set vs. length v = fd_dim d"
    "file = Some (concat (map put_fvec vs))" "fd_count d = length vs" "fd_flat d = concat vs"
proof -
  obtain bs w rest flat where f: "file = Some bs" "rd_u32 bs = Some (w, rest)" "0 < sint w" "sint w \<le> 65536"
      "0 < length bs" "length bs mod (4 + nat (sint w) * 4) = 0"
      "read_rows (nat (sint w)) (length bs div (4 + nat (sint w) * 4)) bs = Inr flat"
      "d = \<lparr>fd_dim = nat (sint w), fd_count = length bs div (4 + nat (sint w) * 4), fd_flat = flat\<rparr>"
    using assms by (auto simp: read_fvecs_def Let_def split: option.splits if_splits sum.splits)
  obtain vs tl where vs: "length vs = length bs div (4 + nat (sint w) * 4)" "\<forall>v \<in> set vs. length v = nat (sint w)"
      "bs = concat (map put_fvec vs) @ tl" "flat = concat vs"
    using read_rows_some [OF f(7)] by blast
  have "length bs = length vs * (4 + nat (sint w) * 4)" using f(6) vs(1) by (metis add.right_neutral div_mult_mod_eq)
  then have "tl = []" and "vs \<noteq> []" using vs(3) length_put_rows [OF vs(2)] f(5) by auto
  then show thesis using that [of vs] f vs by auto
qed

lemma concat_rows:
  assumes "\<forall>v \<in> set vs. length v = dm"
  shows "length (concat vs) = length vs * dm" and "i < length vs \<Longrightarrow> take dm (drop (i * dm) (concat vs)) = vs ! i"
proof -
  show "length (concat vs) = length vs * dm" using assms by (induction vs) simp_all
  show "i < length vs \<Longrightarrow> take dm (drop (i * dm) (concat vs)) = vs ! i"
    using assms
  proof (induction vs arbitrary: i)
    case (Cons v vs)
    then show ?case by (cases i) simp_all
  qed simp
qed

text \<open>
  C37: the reader and the format. A file is accepted with the result \<open>d\<close> just when it is the
  encoding of a non-empty list of vectors, all of one dimension between 1 and 65536, and then
  \<open>d\<close> holds these vectors; every other file is refused, and never for a short read inside a row.
\<close>

theorem fvecs_accepts_exactly:
  "(read_fvecs file = Inr d \<longleftrightarrow>
      (\<exists>vs. vs \<noteq> [] \<and> 0 < fd_dim d \<and> fd_dim d \<le> 65536 \<and> (\<forall>v \<in> set vs. length v = fd_dim d) \<and>
         file = Some (concat (map put_fvec vs)) \<and> fd_count d = length vs \<and> fd_flat d = concat vs)) \<and>
    read_fvecs file \<noteq> Inl TruncatedHeader \<and> read_fvecs file \<noteq> Inl TruncatedVector"
proof (intro conjI iffI)
  assume "read_fvecs file = Inr d"
  then show "\<exists>vs. vs \<noteq> [] \<and> 0 < fd_dim d \<and> fd_dim d \<le> 65536 \<and> (\<forall>v \<in> set vs. length v = fd_dim d) \<and>
         file = Some (concat (map put_fvec vs)) \<and> fd_count d = length vs \<and> fd_flat d = concat vs"
    by (rule read_fvecs_some) blast
next
  assume "\<exists>vs. vs \<noteq> [] \<and> 0 < fd_dim d \<and> fd_dim d \<le> 65536 \<and> (\<forall>v \<in> set vs. length v = fd_dim d) \<and>
         file = Some (concat (map put_fvec vs)) \<and> fd_count d = length vs \<and> fd_flat d = concat vs"
  then show "read_fvecs file = Inr d" using read_fvecs_put by (cases d) auto
next
  have mult: "length bs = length bs div per * per" if "length bs mod per = 0" for bs :: bytes and per
    using that by (metis add.right_neutral div_mult_mod_eq)
  show "read_fvecs file \<noteq> Inl TruncatedHeader" "read_fvecs file \<noteq> Inl TruncatedVector"
    using read_rows_never_short [OF mult]
    by (auto simp: read_fvecs_def Let_def split: option.splits if_splits sum.splits)
qed

theorem fvecs_accepts_exactly_witness:
  "read_fvecs (Some (put_fvec [1, 2] @ put_fvec [3, 4])) = Inr \<lparr>fd_dim = 2, fd_count = 2, fd_flat = [1, 2, 3, 4]\<rparr>"
  by (rule iffD2 [OF conjunct1 [OF fvecs_accepts_exactly]], rule exI [of _ "[[1, 2], [3, 4]]"]) simp

end
