(* ===== verification/Ann_Bench.thy ===== *)
theory Ann_Bench
  imports Complex_Main C_Api Hnsw_Theorems Fvecs
begin

text \<open>
  The benchmark of the index (\<^verbatim>\<open>tools/ann_bench.cpp\<close>): its command line, the base vectors and
  queries, the exact nearest neighbours found by brute force, and for each beam width the recall
  and the latency it prints. What is outside is the record \<open>bench_env\<close>: the file system, the draws
  of the random generator, the parameters of the index, and the durations that the clock shows.
  Times and ratios are real numbers instead of \<^verbatim>\<open>double\<close>; leaving an array is \<open>Out_Of_Bounds\<close>, as
  in the C interface. The index uses the same L2 distance as the brute force, \<open>hl_dist\<close>.
\<close>

section \<open>Command line\<close>

text \<open>\<^verbatim>\<open>std::strtoull\<close> in base 10: 0 without a digit, the largest value on overflow.\<close>

definition strtoull :: "bytes \<Rightarrow> nat" where
  "strtoull s =
     (let s = dropWhile is_space s;
          neg = (s \<noteq> [] \<and> hd s = 45);
          s = (if s \<noteq> [] \<and> (hd s = 45 \<or> hd s = 43) then tl s else s);
          n = digits_value (takeWhile is_digit s)
      in if n \<ge> 2 ^ 64 then 2 ^ 64 - 1
         else unat (if neg then - of_nat n else of_nat n :: u64))"

function parse_efs :: "bytes \<Rightarrow> nat list" where
  "parse_efs s =
     (if s = [] then []
      else strtoull s # (case dropWhile (\<lambda>c. c \<noteq> 44) s of [] \<Rightarrow> [] | comma # rest \<Rightarrow> parse_efs rest))"
  by pat_completeness auto
termination
proof (relation "measure length")
  fix s comma and rest :: bytes
  assume "dropWhile (\<lambda>c. c \<noteq> 44) s = comma # rest"
  then show "(rest, s) \<in> measure length" using length_dropWhile_le [of "\<lambda>c. c \<noteq> 44" s] by simp
qed simp

declare parse_efs.simps [simp del]

record bench_args =
  ba_n :: nat
  ba_dim :: nat
  ba_nq :: nat
  ba_k :: nat
  ba_M :: nat
  ba_efc :: nat
  ba_data :: bytes
  ba_queries :: bytes
  ba_efs :: "nat list"
  ba_pos :: nat

definition default_args :: bench_args where
  "default_args = \<lparr>ba_n = 50000, ba_dim = 128, ba_nq = 200, ba_k = 10, ba_M = 16, ba_efc = 200,
     ba_data = [], ba_queries = [], ba_efs = [10, 50, 100, 200, 400], ba_pos = 0\<rparr>"

definition positional :: "bytes \<Rightarrow> bench_args \<Rightarrow> bench_args" where
  "positional arg a =
     (let p = ba_pos a; a = a\<lparr>ba_pos := p + 1\<rparr>
      in if p = 0 then a\<lparr>ba_n := strtoull arg\<rparr>
         else if p = 1 then a\<lparr>ba_dim := strtoull arg\<rparr>
         else if p = 2 then a\<lparr>ba_nq := strtoull arg\<rparr>
         else if p = 3 then a\<lparr>ba_k := strtoull arg\<rparr>
         else if p = 4 then a\<lparr>ba_efs := parse_efs arg\<rparr>
         else a)"

text \<open>The options with a value. The sixth test repeats the second, as the code does.\<close>

definition take_option :: "bytes \<Rightarrow> bytes \<Rightarrow> bench_args \<Rightarrow> bench_args option" where
  "take_option arg v a =
     (if arg = ascii ''--data'' then Some (a\<lparr>ba_data := v\<rparr>)
      else if arg = ascii ''--queries'' then Some (a\<lparr>ba_queries := v\<rparr>)
      else if arg = ascii ''--M'' then Some (a\<lparr>ba_M := strtoull v\<rparr>)
      else if arg = ascii ''--efc'' then Some (a\<lparr>ba_efc := strtoull v\<rparr>)
      else if arg = ascii ''--k'' then Some (a\<lparr>ba_k := strtoull v\<rparr>)
      else if arg = ascii ''--queries'' then Some (a\<lparr>ba_nq := strtoull v\<rparr>)
      else if arg = ascii ''--ef'' then Some (a\<lparr>ba_efs := parse_efs v\<rparr>)
      else None)"

definition plain_arg :: "bytes \<Rightarrow> bench_args \<Rightarrow> bench_args" where
  "plain_arg arg a = (if arg = [] \<or> hd arg \<noteq> 45 then positional arg a else a)"

fun parse_args :: "bytes list \<Rightarrow> bench_args \<Rightarrow> bench_args" where
  "parse_args [] a = a"
| "parse_args [arg] a = plain_arg arg a"
| "parse_args (arg # v # rest) a =
     (case take_option arg v a of
        Some a \<Rightarrow> parse_args rest a
      | None \<Rightarrow> parse_args (v # rest) (plain_arg arg a))"

section \<open>Vectors and queries\<close>

record bench_env =
  be_file :: "bytes \<Rightarrow> bytes option"
  be_rand :: "nat \<Rightarrow> u32"
  be_lib :: hnsw_lib
  be_level :: "nat \<Rightarrow> nat"
  be_us :: "nat \<Rightarrow> nat \<Rightarrow> real"
  be_ms :: "nat \<Rightarrow> real"

definition fvecs_rows :: "fvecs_data \<Rightarrow> nat \<Rightarrow> nat \<Rightarrow> fvec list outcome" where
  "fvecs_rows d n m =
     (if list_all (\<lambda>i. m \<le> length (fd_vec d i)) [0..<n] then Returns (map (\<lambda>i. take m (fd_vec d i)) [0..<n])
      else Out_Of_Bounds)"

definition random_rows :: "bench_env \<Rightarrow> nat \<Rightarrow> nat \<Rightarrow> nat \<Rightarrow> fvec list" where
  "random_rows e start n m = map (\<lambda>i. map (\<lambda>j. be_rand e (start + i * m + j)) [0..<m]) [0..<n]"

text \<open>\<open>Inl\<close> is the exit code after an unreadable file.\<close>

definition load_data :: "bench_env \<Rightarrow> bench_args \<Rightarrow> (int + bench_args \<times> fvec list \<times> fvec list) outcome" where
  "load_data e a =
     (if ba_data a \<noteq> [] then
        (case read_fvecs (be_file e (ba_data a)) of
           Inl _ \<Rightarrow> Returns (Inl 1)
         | Inr f \<Rightarrow>
             let a = a\<lparr>ba_dim := fd_dim f, ba_n := fd_count f\<rparr>
             in case fvecs_rows f (ba_n a) (ba_dim a) of
                  Out_Of_Bounds \<Rightarrow> Out_Of_Bounds
                | Returns vecs \<Rightarrow>
                    if ba_queries a \<noteq> [] then
                      (case read_fvecs (be_file e (ba_queries a)) of
                         Inl _ \<Rightarrow> Returns (Inl 1)
                       | Inr q \<Rightarrow>
                           let a = a\<lparr>ba_nq := min (ba_nq a) (fd_count q)\<rparr>
                           in case fvecs_rows q (ba_nq a) (ba_dim a) of
                                Out_Of_Bounds \<Rightarrow> Out_Of_Bounds
                              | Returns qs \<Rightarrow> Returns (Inr (a, vecs, qs)))
                    else Returns (Inr (a, vecs, random_rows e 0 (ba_nq a) (ba_dim a))))
      else Returns (Inr (a, random_rows e 0 (ba_n a) (ba_dim a),
                         random_rows e (ba_n a * ba_dim a) (ba_nq a) (ba_dim a))))"

section \<open>Index and exact neighbours\<close>

fun build_loop :: "bench_env \<Rightarrow> nat \<Rightarrow> fvec list \<Rightarrow> hnsw \<Rightarrow> hnsw" where
  "build_loop e i [] h = h"
| "build_loop e i (v # vs) h =
     build_loop e (i + 1) vs (snd (add_item (be_lib e) (be_level e i) (of_nat i) v h))"

definition build_index :: "bench_env \<Rightarrow> bench_args \<Rightarrow> fvec list \<Rightarrow> hnsw" where
  "build_index e a vecs = build_loop e 0 vecs (new_hnsw (ba_dim a) (ba_M a) (ba_efc a))"

text \<open>\<^verbatim>\<open>std::partial_sort\<close> with \<^verbatim>\<open>operator<\<close> of pairs; it needs at least \<open>k\<close> elements.\<close>

fun cand_insert :: "cand \<Rightarrow> cand list \<Rightarrow> cand list" where
  "cand_insert x [] = [x]"
| "cand_insert x (y # ys) = (if cand_less y x then y # cand_insert x ys else x # y # ys)"

definition partial_sort :: "nat \<Rightarrow> cand list \<Rightarrow> cand list outcome" where
  "partial_sort k xs = (if k > length xs then Out_Of_Bounds else Returns (take k (foldr cand_insert xs [])))"

definition truth_for :: "hnsw_lib \<Rightarrow> fvec list \<Rightarrow> nat \<Rightarrow> fvec \<Rightarrow> nat list outcome" where
  "truth_for L vecs k q =
     (case partial_sort k (map (\<lambda>i. (hl_dist L q (vecs ! i), i)) [0..<length vecs]) of
        Out_Of_Bounds \<Rightarrow> Out_Of_Bounds
      | Returns xs \<Rightarrow> Returns (map snd xs))"

fun collect :: "'a outcome list \<Rightarrow> 'a list outcome" where
  "collect [] = Returns []"
| "collect (r # rs) =
     (case r of Out_Of_Bounds \<Rightarrow> Out_Of_Bounds
      | Returns x \<Rightarrow> (case collect rs of Out_Of_Bounds \<Rightarrow> Out_Of_Bounds | Returns xs \<Rightarrow> Returns (x # xs)))"

section \<open>Measurement\<close>

record bench_row =
  br_ef :: nat
  br_recall :: "real option"
  br_qps :: real
  br_p50 :: real
  br_p99 :: real

definition true_hits :: "search_result list \<Rightarrow> nat list \<Rightarrow> nat" where
  "true_hits found truth = length (filter (\<lambda>t. of_nat t \<in> set (map sr_id found)) truth)"

text \<open>The counts of one pass over the queries, and the sorted latencies that the program looks up.\<close>

definition ef_hits :: "hnsw_lib \<Rightarrow> hnsw \<Rightarrow> nat \<Rightarrow> fvec list \<Rightarrow> nat list list \<Rightarrow> nat \<Rightarrow> nat list" where
  "ef_hits L h k qs truth ef =
     map (\<lambda>qi. true_hits (search_top_k L (qs ! qi) k ef h) (truth ! qi)) [0..<length qs]"

definition ef_latencies :: "(nat \<Rightarrow> real) \<Rightarrow> nat list \<Rightarrow> real list" where
  "ef_latencies us hits = sort (map (\<lambda>qi. us qi + real (hits ! qi)) [0..<length hits])"

definition p99_index :: "nat \<Rightarrow> nat" where
  "p99_index n = nat \<lfloor>real n * 0.99\<rfloor>"

text \<open>\<open>None\<close> is the NaN of a division by zero.\<close>

definition eval_ef ::
  "bench_env \<Rightarrow> hnsw \<Rightarrow> nat \<Rightarrow> fvec list \<Rightarrow> nat list list \<Rightarrow> nat \<times> nat \<Rightarrow> bench_row outcome" where
  "eval_ef e h k qs truth x =
     (case x of (pos, ef) \<Rightarrow>
      if qs = [] then Out_Of_Bounds
      else
        let nq = length qs;
            hits = ef_hits (be_lib e) h k qs truth ef;
            lat_us = ef_latencies (be_us e pos) hits;
            total = u64_wrap (nq * k)
        in Returns \<lparr>br_ef = ef,
             br_recall = (if total = 0 then None else Some (real (sum_list hits) / real total)),
             br_qps = real nq / (be_ms e pos / 1000),
             br_p50 = lat_us ! (nq div 2),
             br_p99 = lat_us ! p99_index nq\<rparr>)"

definition bench_main :: "bench_env \<Rightarrow> bytes list \<Rightarrow> (int \<times> bench_row list) outcome" where
  "bench_main e argv =
     (case load_data e (parse_args argv default_args) of
        Out_Of_Bounds \<Rightarrow> Out_Of_Bounds
      | Returns (Inl code) \<Rightarrow> Returns (code, [])
      | Returns (Inr (a, vecs, qs)) \<Rightarrow>
          let h = build_index e a vecs
          in case collect (map (truth_for (be_lib e) vecs (ba_k a)) qs) of
               Out_Of_Bounds \<Rightarrow> Out_Of_Bounds
             | Returns truth \<Rightarrow>
                 case collect (map (eval_ef e h (ba_k a) qs truth) (enumerate 0 (ba_efs a))) of
                   Out_Of_Bounds \<Rightarrow> Out_Of_Bounds
                 | Returns rows \<Rightarrow> Returns (0, rows))"

end
