(* ===== verification/Ann_Bench_Correct.thy ===== *)
theory Ann_Bench_Correct
  imports Ann_Bench
begin

text \<open>
  What the benchmark of the index reports: the brute force finds the exact nearest vectors, the
  recall is a ratio between 0 and 1 and is 1 exactly when the index finds the same vectors for
  every query, no array is left for at least one query and at most as many neighbours as
  vectors; and the latency is too long by the number of hits.
\<close>

section \<open>Input\<close>

text \<open>The vectors of an accepted file are the rows that the program works on.\<close>

lemma fvecs_rows_accepted:
  assumes "read_fvecs file = Inr d"
  shows "\<exists>vs. file = Some (concat (map put_fvec vs)) \<and> fvecs_rows d (fd_count d) (fd_dim d) = Returns vs"
  using assms
proof (rule read_fvecs_some)
  fix vs assume vs: "\<forall>v \<in> set vs. length v = fd_dim d" "file = Some (concat (map put_fvec vs))"
      "fd_count d = length vs" "fd_flat d = concat vs"
  have row: "take (fd_dim d) (fd_vec d i) = vs ! i" if "i < length vs" for i
    using concat_rows(2) [OF vs(1) that] by (simp add: fd_vec_def vs(4))
  have long: "fd_dim d \<le> length (fd_vec d i)" if "i < length vs" for i
  proof -
    have "length (vs ! i) = fd_dim d" using vs(1) nth_mem [OF that] by blast
    then have "min (length (fd_vec d i)) (fd_dim d) = fd_dim d" using length_take [of "fd_dim d" "fd_vec d i"] row [OF that] by argo
    then show ?thesis by linarith
  qed
  have "map (\<lambda>i. take (fd_dim d) (fd_vec d i)) [0..<length vs] = map (nth vs) [0..<length vs]"
    using row by (intro map_cong) auto
  then have "fvecs_rows d (length vs) (fd_dim d) = Returns vs"
    using long by (simp add: fvecs_rows_def list_all_iff map_nth)
  then show ?thesis using vs(2,3) by auto
qed

lemma fvecs_rows_within:
  assumes "read_fvecs file = Inr d" and "n \<le> fd_count d" and "m \<le> fd_dim d"
  shows "\<exists>rows. fvecs_rows d n m = Returns rows"
proof -
  obtain vs where vs: "fvecs_rows d (fd_count d) (fd_dim d) = Returns vs" using fvecs_rows_accepted [OF assms(1)] by blast
  then have "\<forall>i < fd_count d. fd_dim d \<le> length (fd_vec d i)"
    by (auto simp: fvecs_rows_def list_all_iff split: if_splits)
  then have "\<forall>i < n. m \<le> length (fd_vec d i)" using assms(2,3) by (meson less_le_trans order_trans)
  then show ?thesis by (simp add: fvecs_rows_def list_all_iff)
qed

text \<open>The files that were named can be read, and the queries are at least as long as the base vectors.\<close>

definition inputs_readable :: "bench_env \<Rightarrow> bench_args \<Rightarrow> bool" where
  "inputs_readable e a \<longleftrightarrow> ba_data a = [] \<or>
     (case read_fvecs (be_file e (ba_data a)) of
        Inl _ \<Rightarrow> False
      | Inr f \<Rightarrow> ba_queries a = [] \<or>
          (case read_fvecs (be_file e (ba_queries a)) of Inl _ \<Rightarrow> False | Inr q \<Rightarrow> fd_dim f \<le> fd_dim q))"

lemma load_data_returns:
  assumes "inputs_readable e a"
  obtains b vecs qs where "load_data e a = Returns (Inr (b, vecs, qs))"
proof (cases "ba_data a = []")
  case False
  then obtain f where f: "read_fvecs (be_file e (ba_data a)) = Inr f"
    using assms by (auto simp: inputs_readable_def split: sum.splits)
  obtain vecs where vecs: "fvecs_rows f (fd_count f) (fd_dim f) = Returns vecs" using fvecs_rows_accepted [OF f] by blast
  show ?thesis
  proof (cases "ba_queries a = []")
    case True
    then show ?thesis using f vecs False by (intro that) (simp add: load_data_def Let_def)
  next
    case named: False
    then obtain q where q: "read_fvecs (be_file e (ba_queries a)) = Inr q" "fd_dim f \<le> fd_dim q"
      using assms f False by (auto simp: inputs_readable_def split: sum.splits)
    obtain qs where "fvecs_rows q (min (ba_nq a) (fd_count q)) (fd_dim f) = Returns qs"
      using fvecs_rows_within [OF q(1), of "min (ba_nq a) (fd_count q)" "fd_dim f"] q(2) by auto
    then show ?thesis using f vecs q(1) False named by (intro that) (simp add: load_data_def Let_def)
  qed
qed (use that in \<open>simp add: load_data_def\<close>)

text \<open>Queries are cut with the dimension of the base vectors: a file of shorter ones is overrun.\<close>

lemma short_queries_overread:
  assumes "ba_data a \<noteq> []" and "read_fvecs (be_file e (ba_data a)) = Inr f"
    and "ba_queries a \<noteq> []" and "read_fvecs (be_file e (ba_queries a)) = Inr q"
    and "fd_dim q < fd_dim f" and "fd_count q \<le> ba_nq a"
  shows "load_data e a = Out_Of_Bounds"
  using assms(4)
proof (rule read_fvecs_some)
  fix vs assume vs: "vs \<noteq> []" "\<forall>v \<in> set vs. length v = fd_dim q" "fd_count q = length vs" "fd_flat q = concat vs"
  have "length vs * fd_dim q - (length vs - 1) * fd_dim q = fd_dim q" using vs(1) by (cases vs) simp_all
  then have "length (fd_vec q (length vs - 1)) < fd_dim f"
    using assms(5) concat_rows(1) [OF vs(2)] by (simp add: fd_vec_def vs(4))
  then have "fvecs_rows q (length vs) (fd_dim f) = Out_Of_Bounds"
    using vs(1) unfolding fvecs_rows_def list_all_iff by (auto simp: not_le intro!: bexI [of _ "length vs - 1"])
  then show ?thesis
    using assms vs(3) fvecs_rows_accepted [OF assms(2)] by (auto simp: load_data_def Let_def min_def)
qed

text \<open>The number of queries cannot be given by an option: \<^verbatim>\<open>--queries\<close> always names a file.\<close>

lemma queries_option_is_path: "take_option arg v a = Some b \<Longrightarrow> ba_nq b = ba_nq a"
  by (auto simp: take_option_def split: if_splits)

section \<open>Brute force\<close>

lemma cand_less_iff:
  "\<not> flt_nan (fst a) \<Longrightarrow> \<not> flt_nan (fst b) \<Longrightarrow>
    cand_less a b \<longleftrightarrow> flt_key (fst a) < flt_key (fst b) \<or> flt_key (fst a) = flt_key (fst b) \<and> snd a < snd b"
  by (auto simp: cand_less_def flt_less_def)

lemma mset_cand_insert [simp]: "mset (cand_insert x xs) = add_mset x (mset xs)"
  by (induction xs) auto

lemma set_cand_insert [simp]: "set (cand_insert x xs) = insert x (set xs)"
  by (metis mset_cand_insert set_mset_add_mset_insert set_mset_mset)

lemma mset_insertion [simp]: "mset (foldr cand_insert xs []) = mset xs"
  by (induction xs) auto

lemma sorted_cand_insert:
  assumes "\<forall>c \<in> insert x (set xs). \<not> flt_nan (fst c)" and "snd x \<notin> snd ` set xs" and "sorted_wrt cand_less xs"
  shows "sorted_wrt cand_less (cand_insert x xs)"
  using assms
proof (induction xs)
  case (Cons y ys)
  have trans: "cand_less x c" if "cand_less x y" "c \<in> set ys" for c
    using that Cons.prems by (auto simp: cand_less_iff)
  have "cand_less x y" if "\<not> cand_less y x" using that Cons.prems by (auto simp: cand_less_iff)
  then show ?case using Cons trans by auto
qed simp

lemma sorted_insertion:
  "\<forall>c \<in> set xs. \<not> flt_nan (fst c) \<Longrightarrow> distinct (map snd xs) \<Longrightarrow> sorted_wrt cand_less (foldr cand_insert xs [])"
proof (induction xs)
  case (Cons x xs)
  have "set (foldr cand_insert xs []) = set xs" by (metis mset_insertion set_mset_mset)
  then show ?case using Cons sorted_cand_insert [of x "foldr cand_insert xs []"] by simp
qed simp

text \<open>The indices of the \<open>k\<close> nearest vectors, equally near ones in the order of their indices.\<close>

definition nearest_k :: "hnsw_lib \<Rightarrow> fvec list \<Rightarrow> nat \<Rightarrow> fvec \<Rightarrow> nat list \<Rightarrow> bool" where
  "nearest_k L vecs k q ts \<longleftrightarrow>
     length ts = k \<and> distinct ts \<and> set ts \<subseteq> {..<length vecs} \<and>
     sorted_wrt (\<lambda>s t. cand_less (hl_dist L q (vecs ! s), s) (hl_dist L q (vecs ! t), t)) ts \<and>
     (\<forall>t \<in> set ts. \<forall>i < length vecs. i \<notin> set ts \<longrightarrow>
        cand_less (hl_dist L q (vecs ! t), t) (hl_dist L q (vecs ! i), i))"

text \<open>\<open>ts\<close> are the \<open>k\<close> nearest of the candidates \<open>js\<close>, where \<open>d\<close> gives the distances.\<close>

definition nearest_of :: "(nat \<Rightarrow> u32) \<Rightarrow> nat list \<Rightarrow> nat \<Rightarrow> nat list \<Rightarrow> bool" where
  "nearest_of d js k ts \<longleftrightarrow> length ts = k \<and> distinct ts \<and> set ts \<subseteq> set js \<and>
     sorted_wrt (\<lambda>s t. cand_less (d s, s) (d t, t)) ts \<and>
     (\<forall>t \<in> set ts. \<forall>i \<in> set js. i \<notin> set ts \<longrightarrow> cand_less (d t, t) (d i, i))"

lemma insertion_take:
  fixes k :: nat
  assumes "mset s = mset (map (\<lambda>i. (d i, i)) js)" and "sorted_wrt cand_less s" and "distinct js"
  defines "ts \<equiv> map snd (take k s)"
  shows "take k s = map (\<lambda>i. (d i, i)) ts" and "distinct ts" and "set ts \<subseteq> set js"
    and "t \<in> set ts \<Longrightarrow> i \<in> set js \<Longrightarrow> i \<notin> set ts \<Longrightarrow> cand_less (d t, t) (d i, i)"
proof -
  have set: "set s = (\<lambda>i. (d i, i)) ` set js" using arg_cong [OF assms(1), of set_mset] by auto
  have "mset (map snd s) = mset (map snd (map (\<lambda>i. (d i, i)) js))" by (simp only: assms(1) mset_map)
  also have "\<dots> = mset js" by (simp only: map_map comp_def snd_conv map_ident)
  finally have dist: "distinct (map snd s)" using assms(3) mset_eq_imp_distinct_iff by blast
  have elem: "(d (snd c), snd c) = c" if "c \<in> set (take k s)" for c
    using set_take_subset [of k s] that set by auto
  show tk: "take k s = map (\<lambda>i. (d i, i)) ts"
    using elem by (simp add: ts_def comp_def map_idI)
  show "distinct ts" using dist by (simp add: ts_def take_map [symmetric])
  show sub: "set ts \<subseteq> set js" using set set_take_subset [of k s] by (auto simp: ts_def)
  assume t: "t \<in> set ts" and i: "i \<in> set js" "i \<notin> set ts"
  have "(d i, i) \<in> set (take k s) \<union> set (drop k s)" using i(1) set by (simp flip: set_append)
  moreover have "(d i, i) \<notin> set (take k s)" using i(2) by (force simp: ts_def)
  ultimately have "(d i, i) \<in> set (drop k s)" by simp
  moreover have "(d t, t) \<in> set (take k s)" using t by (simp add: tk)
  moreover have "sorted_wrt cand_less (take k s @ drop k s)" using assms(2) by simp
  ultimately show "cand_less (d t, t) (d i, i)" unfolding sorted_wrt_append by blast
qed

lemma partial_sort_nearest:
  assumes "k \<le> length js" and "distinct js" and "\<forall>i \<in> set js. \<not> flt_nan (d i)"
  obtains ts where "partial_sort k (map (\<lambda>i. (d i, i)) js) = Returns (map (\<lambda>i. (d i, i)) ts)" and "nearest_of d js k ts"
proof -
  let ?all = "map (\<lambda>i. (d i, i)) js"
  let ?s = "foldr cand_insert ?all []"
  let ?ts = "map snd (take k ?s)"
  have sorted: "sorted_wrt cand_less ?s"
    using assms(2,3) by (intro sorted_insertion) (auto simp: comp_def)
  note tk = insertion_take [OF mset_insertion sorted assms(2), where k = k]
  have len: "length ?s = length js" using mset_eq_length [OF mset_insertion [of ?all]] by simp
  have "sorted_wrt cand_less (take k ?s)" using sorted by (rule sorted_wrt_take)
  then have "sorted_wrt (\<lambda>s t. cand_less (d s, s) (d t, t)) ?ts" by (subst (asm) tk(1)) (simp only: sorted_wrt_map)
  then have "nearest_of d js k ?ts" using assms(1) len tk(2-4) by (simp add: nearest_of_def)
  moreover have "partial_sort k ?all = Returns (map (\<lambda>i. (d i, i)) ?ts)" using assms(1) tk(1) by (simp add: partial_sort_def)
  ultimately show ?thesis using that by blast
qed

lemma truth_nearest:
  assumes "k \<le> length vecs" and "\<forall>v \<in> set vecs. \<not> flt_nan (hl_dist L q v)"
  shows "\<exists>ts. truth_for L vecs k q = Returns ts \<and> nearest_k L vecs k q ts"
proof -
  let ?d = "\<lambda>i. hl_dist L q (vecs ! i)"
  obtain ts where ts: "partial_sort k (map (\<lambda>i. (?d i, i)) [0..<length vecs]) = Returns (map (\<lambda>i. (?d i, i)) ts)"
      "nearest_of ?d [0..<length vecs] k ts"
    by (rule partial_sort_nearest [of k "[0..<length vecs]" ?d]) (use assms in auto)
  have "nearest_k L vecs k q ts" using ts(2) by (auto simp: nearest_of_def nearest_k_def)
  moreover have "truth_for L vecs k q = Returns ts" using ts(1) by (simp add: truth_for_def comp_def)
  ultimately show ?thesis by blast
qed

section \<open>The index that is measured\<close>

definition bench_map :: "fvec list \<Rightarrow> u64 \<rightharpoonup> fvec" where
  "bench_map vecs i = (if unat i < length vecs then Some (vecs ! unat i) else None)"

lemma build_reaches:
  assumes "hnsw_reaches (be_lib e) h (bench_map pre) {i. unat i < length pre}" and "length (pre @ vs) \<le> 2 ^ 64"
  shows "hnsw_reaches (be_lib e) (build_loop e (length pre) vs h) (bench_map (pre @ vs)) {i. unat i < length (pre @ vs)}"
  using assms
proof (induction vs arbitrary: pre h)
  case (Cons v vs)
  let ?i = "of_nat (length pre) :: u64"
  have i: "unat ?i = length pre" using Cons.prems(2) by (simp add: unat_of_nat_u64)
  have eq: "unat j = length pre \<longleftrightarrow> j = ?i" for j using i by (metis word_unat_eq_iff)
  have "bench_map (pre @ [v]) = (bench_map pre)(?i \<mapsto> v)"
    by (rule ext) (auto simp: bench_map_def nth_append less_Suc_eq eq i)
  moreover have "{j. unat j < length (pre @ [v])} = insert ?i {j. unat j < length pre}"
    by (auto simp: less_Suc_eq eq)
  ultimately have "hnsw_reaches (be_lib e) (snd (add_item (be_lib e) (be_level e (length pre)) ?i v h))
      (bench_map (pre @ [v])) {j. unat j < length (pre @ [v])}"
    using hnsw_reaches.added [OF Cons.prems(1) prod.collapse [symmetric], of "be_level e (length pre)" ?i v] i by simp
  from Cons.IH [OF this] show ?case using Cons.prems(2) by simp
qed simp

lemma index_reaches:
  assumes "length vecs \<le> 2 ^ 64"
  shows "hnsw_reaches (be_lib e) (build_index e a vecs) (bench_map vecs) {i. unat i < length vecs}"
proof -
  have "bench_map [] = Map.empty" by (rule ext) (simp add: bench_map_def)
  then show ?thesis
    using build_reaches [of e "new_hnsw (ba_dim a) (ba_M a) (ba_efc a)" "[]" vecs] assms
    by (simp add: build_index_def hnsw_reaches.fresh)
qed

section \<open>What is printed\<close>

lemma collect_map: "(\<And>x. x \<in> set xs \<Longrightarrow> f x = Returns (g x)) \<Longrightarrow> collect (map f xs) = Returns (map g xs)"
  by (induction xs) simp_all

lemma true_hits_le: "true_hits found ts \<le> length ts"
  by (simp add: true_hits_def)

text \<open>All true neighbours are found: at most \<open>k\<close> results then are exactly these.\<close>

lemma true_hits_all:
  assumes "length found \<le> k" and "nearest_k L vecs k q ts" and "length vecs \<le> 2 ^ 64"
  shows "true_hits found ts = k \<longleftrightarrow> sr_id ` set found = of_nat ` set ts"
proof
  have ts: "length ts = k" "distinct ts" "set ts \<subseteq> {..<length vecs}" using assms(2) by (auto simp: nearest_k_def)
  have "inj_on (of_nat :: nat \<Rightarrow> u64) (set ts)"
  proof (rule inj_on_inverseI)
    fix t assume "t \<in> set ts"
    then show "unat (of_nat t :: u64) = t" using ts(3) assms(3) by auto
  qed
  then have card: "card (of_nat ` set ts :: u64 set) = k" using ts by (simp add: card_image distinct_card)
  {
    assume "true_hits found ts = k"
    then have "filter (\<lambda>t. of_nat t \<in> set (map sr_id found)) ts = ts"
      using ts(1) by (metis filter_id_conv length_filter_less less_irrefl true_hits_def)
    then have "of_nat ` set ts \<subseteq> sr_id ` set found" by (auto simp: filter_id_conv)
    moreover have "card (sr_id ` set found) \<le> k"
      using assms(1) card_image_le [of "set found" sr_id] card_length [of found] by simp
    ultimately show "sr_id ` set found = of_nat ` set ts"
      using card card_seteq [of "sr_id ` set found" "of_nat ` set ts"] by simp
  }
  assume eq: "sr_id ` set found = of_nat ` set ts"
  then have "filter (\<lambda>t. of_nat t \<in> set (map sr_id found)) ts = ts" by (simp add: filter_id_conv)
  then show "true_hits found ts = k" using ts(1) by (simp add: true_hits_def)
qed

lemma sum_list_max:
  fixes xs :: "nat list"
  assumes "\<forall>x \<in> set xs. x \<le> k"
  shows "sum_list xs \<le> length xs * k \<and> (sum_list xs = length xs * k \<longleftrightarrow> (\<forall>x \<in> set xs. x = k))"
  using assms by (induction xs) auto

lemma percentile_index:
  assumes "0 < n"
  shows "n div 2 \<le> p99_index n" and "p99_index n < n"
proof -
  have "2 * (n div 2) \<le> n" by simp
  then have "2 * real (n div 2) \<le> real n" by linarith
  then have "real (n div 2) \<le> real n * 0.99" by (simp add: power2_eq_square)
  then show "n div 2 \<le> p99_index n" by (simp add: p99_index_def le_nat_iff le_floor_iff)
  have "real n * 0.99 < real n" using assms by simp
  then show "p99_index n < n" using assms by (simp add: p99_index_def nat_less_iff floor_less_iff)
qed

lemma real_ratio: "0 < y \<Longrightarrow> (real x / real y \<le> 1 \<longleftrightarrow> x \<le> y) \<and> (real x / real y = 1 \<longleftrightarrow> x = y)"
  by (auto simp: divide_le_eq_1 divide_eq_1_iff)

lemma set_ef_hits:
  "set (ef_hits L h k qs truth ef) = (\<lambda>qi. true_hits (search_top_k L (qs ! qi) k ef h) (truth ! qi)) ` {..<length qs}"
  by (simp add: ef_hits_def atLeast0LessThan)

lemma length_ef_hits [simp]: "length (ef_hits L h k qs truth ef) = length qs"
  by (simp add: ef_hits_def)

lemma length_latencies [simp]: "length (ef_latencies us hits) = length hits"
  by (simp add: ef_latencies_def)

lemma eval_ef_row:
  assumes "qs \<noteq> []" and "0 < k" and "length qs * k < 2 ^ 64" and "\<forall>qi < length qs. length (truth ! qi) = k"
  shows "\<exists>row r. eval_ef e h k qs truth (pos, ef) = Returns row \<and> br_ef row = ef \<and> br_recall row = Some r \<and>
    0 \<le> r \<and> r \<le> 1 \<and> br_p50 row \<le> br_p99 row \<and>
    (r = 1 \<longleftrightarrow> (\<forall>qi < length qs. true_hits (search_top_k (be_lib e) (qs ! qi) k ef h) (truth ! qi) = k))"
proof -
  define hits where "hits = ef_hits (be_lib e) h k qs truth ef"
  define lat where "lat = ef_latencies (be_us e pos) hits"
  define total where "total = length qs * k"
  have pos: "0 < length qs" "0 < total" "u64_wrap total = total" using assms(1-3) by (simp_all add: total_def)
  have len: "length hits = length qs" by (simp add: hits_def)
  have "\<forall>x \<in> set hits. x \<le> k"
    using assms(4) true_hits_le by (metis (no_types, lifting) hits_def image_iff lessThan_iff set_ef_hits)
  from sum_list_max [OF this] have "sum_list hits \<le> total \<and> (sum_list hits = total \<longleftrightarrow> (\<forall>x \<in> set hits. x = k))"
    by (simp add: total_def len)
  moreover have "(\<forall>x \<in> set hits. x = k) \<longleftrightarrow>
      (\<forall>qi < length qs. true_hits (search_top_k (be_lib e) (qs ! qi) k ef h) (truth ! qi) = k)"
    unfolding hits_def set_ef_hits by blast
  ultimately have "real (sum_list hits) / real total \<le> 1 \<and>
      (real (sum_list hits) / real total = 1 \<longleftrightarrow>
        (\<forall>qi < length qs. true_hits (search_top_k (be_lib e) (qs ! qi) k ef h) (truth ! qi) = k))"
    using real_ratio [OF pos(2)] by simp
  moreover have "lat ! (length qs div 2) \<le> lat ! p99_index (length qs)"
    by (rule sorted_nth_mono) (use percentile_index [OF pos(1)] in \<open>simp_all add: lat_def len, simp add: ef_latencies_def\<close>)
  moreover have "eval_ef e h k qs truth (pos, ef) = Returns \<lparr>br_ef = ef, br_recall = Some (real (sum_list hits) / real total),
      br_qps = real (length qs) / (be_ms e pos / 1000), br_p50 = lat ! (length qs div 2), br_p99 = lat ! p99_index (length qs)\<rparr>"
    using assms(1) pos(2,3) by (simp add: eval_ef_def Let_def hits_def [symmetric] lat_def [symmetric] total_def [symmetric])
  ultimately show ?thesis by simp
qed

text \<open>The input as it was loaded: \<open>1 \<le> k \<le> n\<close>, a construction width of at least 1, a query, sizes of 64 bits, and no distance that is a NaN.\<close>

definition usable_input :: "bench_env \<Rightarrow> bench_args \<Rightarrow> fvec list \<Rightarrow> fvec list \<Rightarrow> bool" where
  "usable_input e a vecs qs \<longleftrightarrow> qs \<noteq> [] \<and> 0 < ba_efc a \<and> 0 < ba_k a \<and> ba_k a \<le> length vecs \<and> length vecs \<le> 2 ^ 64 \<and>
     length qs * ba_k a < 2 ^ 64 \<and> (\<forall>q \<in> set qs. \<forall>v \<in> set vecs. \<not> flt_nan (hl_dist (be_lib e) q v))"

lemma bench_rows:
  assumes "lib_ok (be_lib e)"
    and "load_data e (parse_args argv default_args) = Returns (Inr (a, vecs, qs))"
    and "qs \<noteq> []" and "0 < ba_k a" and "ba_k a \<le> length vecs" and "length vecs \<le> 2 ^ 64"
    and "length qs * ba_k a < 2 ^ 64"
    and "\<forall>q \<in> set qs. \<forall>v \<in> set vecs. \<not> flt_nan (hl_dist (be_lib e) q v)"
  shows "\<exists>rows truth. bench_main e argv = Returns (0, rows) \<and> map br_ef rows = ba_efs a \<and>
    (\<forall>qi < length qs. nearest_k (be_lib e) vecs (ba_k a) (qs ! qi) (truth ! qi)) \<and>
    (\<forall>row \<in> set rows. \<exists>r. br_recall row = Some r \<and> 0 \<le> r \<and> r \<le> 1 \<and> br_p50 row \<le> br_p99 row \<and>
       (r = 1 \<longleftrightarrow> (\<forall>qi < length qs.
          sr_id ` set (search_top_k (be_lib e) (qs ! qi) (ba_k a) (br_ef row) (build_index e a vecs)) =
          of_nat ` set (truth ! qi))))"
proof -
  let ?L = "be_lib e" and ?k = "ba_k a" and ?h = "build_index e a vecs"
  obtain t where t: "truth_for ?L vecs ?k q = Returns (t q) \<and> nearest_k ?L vecs ?k q (t q)" if "q \<in> set qs" for q
    using truth_nearest [OF assms(5), of ?L] assms(8) by metis
  let ?truth = "map t qs"
  have truth: "collect (map (truth_for ?L vecs ?k) qs) = Returns ?truth" using t by (intro collect_map) blast
  have near: "nearest_k ?L vecs ?k (qs ! qi) (?truth ! qi)" if "qi < length qs" for qi using t that by simp
  have short: "length (search_top_k ?L q ?k ef ?h) \<le> ?k" for q ef
    using search_represents [OF assms(1) reaches_represents [OF assms(1) index_reaches [OF assms(6), of e a]]]
    by (simp add: search_top_k_def)
  define ok where "ok ef row r \<longleftrightarrow> br_ef row = ef \<and> br_recall row = Some r \<and> 0 \<le> r \<and> r \<le> 1 \<and> br_p50 row \<le> br_p99 row \<and>
      (r = 1 \<longleftrightarrow> (\<forall>qi < length qs. sr_id ` set (search_top_k ?L (qs ! qi) ?k ef ?h) = of_nat ` set (?truth ! qi)))"
    for ef and row :: bench_row and r :: real
  have "\<exists>row r. eval_ef e ?h ?k qs ?truth x = Returns row \<and> ok (snd x) row r" for x
    using eval_ef_row [OF assms(3,4,7), of ?truth e ?h "fst x" "snd x"] near true_hits_all [OF short near assms(6)]
    by (simp add: ok_def nearest_k_def)
  then obtain g where g: "eval_ef e ?h ?k qs ?truth x = Returns (g x) \<and> (\<exists>r. ok (snd x) (g x) r)" for x by metis
  let ?rows = "map g (enumerate 0 (ba_efs a))"
  have "bench_main e argv = Returns (0, ?rows)"
    using assms(2) truth collect_map [of "enumerate 0 (ba_efs a)" "eval_ef e ?h ?k qs ?truth" g] g
    by (simp add: bench_main_def Let_def)
  moreover have "map br_ef ?rows = ba_efs a"
  proof -
    have "br_ef (g x) = snd x" for x using g [of x] by (auto simp: ok_def)
    then show ?thesis by (simp add: comp_def map_snd_enumerate)
  qed
  ultimately show ?thesis using g near unfolding ok_def by (intro exI [of _ ?rows] exI [of _ ?truth]) fastforce
qed

text \<open>
  C33: the recall that the benchmark prints. If the files that were named are readable and the
  queries of a file are at least as long as the base vectors, loading leaves no array; if what was
  loaded has at least one query, \<open>1 \<le> k \<le> n\<close>, a construction width of at least 1, sizes of 64 bits and no distance that is a NaN, the
  rest of the program leaves none either and prints one row per beam width. There
  are lists \<open>truth\<close>, the exact \<open>k\<close> nearest vectors of each query, such that the recall of a row
  is a number between 0 and 1, and 1 exactly if the search of the index found, for every query,
  the very vectors of \<open>truth\<close>; the median is at most the 99th percentile. Shorter queries
  overrun their array (\<open>short_queries_overread\<close>).
\<close>

theorem bench_recall:
  assumes "lib_ok (be_lib e)" and "inputs_readable e (parse_args argv default_args)"
  shows "\<exists>a vecs qs. load_data e (parse_args argv default_args) = Returns (Inr (a, vecs, qs)) \<and>
    (usable_input e a vecs qs \<longrightarrow>
      (\<exists>rows truth. bench_main e argv = Returns (0, rows) \<and> map br_ef rows = ba_efs a \<and>
        (\<forall>qi < length qs. nearest_k (be_lib e) vecs (ba_k a) (qs ! qi) (truth ! qi)) \<and>
        (\<forall>row \<in> set rows. \<exists>r. br_recall row = Some r \<and> 0 \<le> r \<and> r \<le> 1 \<and> br_p50 row \<le> br_p99 row \<and>
           (r = 1 \<longleftrightarrow> (\<forall>qi < length qs.
              sr_id ` set (search_top_k (be_lib e) (qs ! qi) (ba_k a) (br_ef row) (build_index e a vecs)) =
              of_nat ` set (truth ! qi))))))"
proof -
  obtain a vecs qs where load: "load_data e (parse_args argv default_args) = Returns (Inr (a, vecs, qs))"
    using assms(2) by (rule load_data_returns)
  show ?thesis
    unfolding usable_input_def using load bench_rows [OF assms(1) load] by (intro exI [of _ a] exI [of _ vecs] exI [of _ qs]) blast
qed

definition sample_bench :: bench_env where
  "sample_bench = \<lparr>be_file = (\<lambda>_. None), be_rand = (\<lambda>i. of_nat i), be_lib = zero_lib, be_level = (\<lambda>_. 0),
     be_us = (\<lambda>_ _. 7), be_ms = (\<lambda>_. 2)\<rparr>"

definition sample_argv :: "bytes list" where
  "sample_argv = map ascii [''2'', ''1'', ''1'', ''1'', ''10'']"

definition sample_args :: bench_args where
  "sample_args = \<lparr>ba_n = 2, ba_dim = 1, ba_nq = 1, ba_k = 1, ba_M = 16, ba_efc = 200, ba_data = [], ba_queries = [],
     ba_efs = [10], ba_pos = 5\<rparr>"

lemma sample_parsed: "parse_args sample_argv default_args = sample_args"
  by (simp add: sample_args_def sample_argv_def default_args_def take_option_def plain_arg_def positional_def
      strtoull_def parse_efs.simps [of "[_, _]"] digits_value_def is_space_def is_digit_def)

lemma sample_load: "load_data sample_bench sample_args = Returns (Inr (sample_args, [[0], [1]], [[2]]))"
  by (simp add: sample_bench_def sample_args_def load_data_def random_rows_def upt_rec)

theorem bench_recall_witness:
  "\<exists>rows. bench_main sample_bench sample_argv = Returns (0, rows) \<and> map br_ef rows = [10]"
proof -
  have "lib_ok (be_lib sample_bench)" by (simp add: sample_bench_def lib_ok_zero)
  moreover have "inputs_readable sample_bench sample_args" by (simp add: inputs_readable_def sample_args_def)
  moreover have "usable_input sample_bench sample_args [[0], [1]] [[2]]"
    by (simp add: usable_input_def sample_args_def sample_bench_def zero_lib_def plain_lib_def flt_nan_def)
  ultimately show ?thesis
    using bench_recall [of sample_bench sample_argv, unfolded sample_parsed sample_load] by (auto simp: sample_args_def)
qed

text \<open>
  the latency includes the hits. The loop that measures a search then adds one microsecond for
  every true neighbour found, so when all searches take \<open>t\<close> microseconds and the recall is
  perfect, the benchmark prints \<open>t + k\<close> for the median and for the 99th percentile.
\<close>

theorem latency_counts_hits:
  assumes "eval_ef e h k qs truth (pos, ef) = Returns row"
    and "\<forall>qi < length qs. be_us e pos qi = t"
    and "\<forall>qi < length qs. true_hits (search_top_k (be_lib e) (qs ! qi) k ef h) (truth ! qi) = k"
  shows "br_p50 row = t + real k \<and> br_p99 row = t + real k"
proof -
  have qs: "qs \<noteq> []" using assms(1) by (auto simp: eval_ef_def)
  define lat where "lat = ef_latencies (be_us e pos) (ef_hits (be_lib e) h k qs truth ef)"
  have "x = t + real k" if "x \<in> set lat" for x
    using that assms(2,3) by (auto simp: lat_def ef_latencies_def ef_hits_def)
  then have "lat ! i = t + real k" if "i < length qs" for i using that by (simp add: lat_def)
  moreover have "br_p50 row = lat ! (length qs div 2)" "br_p99 row = lat ! p99_index (length qs)"
    using assms(1) qs by (auto simp: eval_ef_def Let_def lat_def)
  ultimately show ?thesis using percentile_index [of "length qs"] qs by simp
qed

lemma single_found:
  "true_hits (search_top_k zero_lib [1] 1 10 (snd (add_item zero_lib 0 7 [1] (new_hnsw 1 16 200)))) [7] = 1"
proof -
  let ?h = "snd (add_item zero_lib 0 7 [1] (new_hnsw 1 16 200))"
  have "hnsw_reaches zero_lib ?h [7 \<mapsto> [1]] {7}"
    using hnsw_reaches.added [OF hnsw_reaches.fresh prod.collapse [symmetric], of zero_lib 0 7 "[1]"] by simp
  note s = search_represents [OF lib_ok_zero reaches_represents [OF lib_ok_zero this], where q = "[1]" and k = 1 and ef = 10 and flt = None]
  have "sr_id r = 7" if "r \<in> set (search_top_k zero_lib [1] 1 10 ?h)" for r
    using s that by (auto simp: search_top_k_def split: if_splits)
  moreover have "search_top_k zero_lib [1] 1 10 ?h \<noteq> []" using s by simp
  ultimately show ?thesis by (cases "search_top_k zero_lib [1] 1 10 ?h") (auto simp: true_hits_def)
qed

theorem latency_counts_hits_witness:
  "\<exists>row. eval_ef sample_bench (snd (add_item zero_lib 0 7 [1] (new_hnsw 1 16 200))) 1 [[1]] [[7]] (0, 10) = Returns row \<and>
    br_p50 row = 8"
proof -
  let ?h = "snd (add_item zero_lib 0 7 [1] (new_hnsw 1 16 200))"
  obtain row where row: "eval_ef sample_bench ?h 1 [[1]] [[7]] (0, 10) = Returns row"
    using eval_ef_row [of "[[1]]" 1 "[[7]]" sample_bench ?h 0 10] by auto
  then have "br_p50 row = 7 + real 1 \<and> br_p99 row = 7 + real 1"
    by (rule latency_counts_hits) (use single_found in \<open>simp_all add: sample_bench_def\<close>)
  then show ?thesis using row by simp
qed

end
