(* ===== verification/Storage_Bench.thy ===== *)
theory Storage_Bench
  imports Engine_Theorems
begin

text \<open>
  The benchmark of the storage engine (\<^verbatim>\<open>bench/storage_bench.cpp\<close>): writing keys in sequence, and
  reading random keys of a preloaded store. The number of iterations is chosen by the benchmark
  library, and the random draws are those of the C++ library: both are arguments. The log file
  is removed first, so the engine opens an empty one. A run that is skipped with an error is
  \<open>Inl\<close>; otherwise the result is what the loop hands to \<^verbatim>\<open>DoNotOptimize\<close>.
\<close>

definition storage_opts :: options where
  "storage_opts = \<lparr>o_sync_writes = False, o_group_commit = False, o_sync_every_n_appends = 0,
     o_snapshot_dir = ascii ''lumina_snap''\<rparr>"

definition bench_key :: "nat \<Rightarrow> bytes" where
  "bench_key i = ascii ''key_'' @ to_string i"

definition kPreload :: nat where
  "kPreload = 10000"

definition preload_value :: "nat \<Rightarrow> bytes" where
  "preload_value i = replicate 128 (of_nat (97 + i mod 26))"

text \<open>\<open>put_all value V i n st\<close> writes the keys from \<open>i\<close> on, \<open>n\<close> of them, and stops at the first error.\<close>

fun put_all :: "(nat \<Rightarrow> bytes) \<Rightarrow> store_env \<Rightarrow> nat \<Rightarrow> nat \<Rightarrow> engine \<Rightarrow> (status_code + nat) \<times> engine" where
  "put_all value V i 0 st = (Inr i, st)"
| "put_all value V i (Suc n) st =
     (let (s, st) = engine_put V (bench_key i) (value i) st
      in if \<not> status_ok s then (Inl s, st) else put_all value V (i + 1) n st)"

definition bm_sequential_write :: "store_env \<Rightarrow> dir \<Rightarrow> nat \<Rightarrow> (status_code + nat) \<times> engine" where
  "bm_sequential_write V d iterations =
     (let (s, st) = engine_open V [] d (new_engine storage_opts)
      in if \<not> status_ok s then (Inl s, st) else put_all (\<lambda>i. replicate 128 118) V 0 iterations st)"

fun read_all :: "store_env \<Rightarrow> engine \<Rightarrow> nat list \<Rightarrow> status_code + bytes list" where
  "read_all V st [] = Inr []"
| "read_all V st (j # js) =
     (case engine_get V st (bench_key j) of
        Inl s \<Rightarrow> Inl s
      | Inr out \<Rightarrow> map_sum id (\<lambda>outs. out # outs) (read_all V st js))"

definition bm_random_read :: "store_env \<Rightarrow> dir \<Rightarrow> nat list \<Rightarrow> status_code + bytes list" where
  "bm_random_read V d draws =
     (let (s, st) = engine_open V [] d (new_engine storage_opts)
      in if \<not> status_ok s then Inl s
         else case put_all preload_value V 0 kPreload st of
           (Inl s, st) \<Rightarrow> Inl s
         | (Inr _, st) \<Rightarrow> read_all V st draws)"

section \<open>Keys\<close>

lemma bench_key_inj [simp]: "bench_key i = bench_key j \<longleftrightarrow> i = j"
  unfolding bench_key_def by (metis append_eq_append_conv digits_value_to_string)

lemma length_to_string: "0 < k \<Longrightarrow> n < 10 ^ k \<Longrightarrow> length (to_string n) \<le> k"
proof (induction n arbitrary: k rule: to_string.induct)
  case (1 n)
  show ?case
  proof (cases "n < 10")
    case True
    then show ?thesis using 1(2) by (subst to_string.simps) simp
  next
    case False
    have "k \<noteq> 1" using 1(3) False by auto
    then obtain k' where k: "k = Suc k'" "0 < k'" using 1(2) by (cases k) auto
    then have "length (to_string (n div 10)) \<le> k'" using 1(1) [OF False k(2)] 1(3) by (simp add: less_mult_imp_div_less mult.commute)
    then show ?thesis using False k by (subst to_string.simps) simp
  qed
qed

definition bench_records :: "(nat \<Rightarrow> bytes) \<Rightarrow> nat \<Rightarrow> nat \<Rightarrow> record_kv list" where
  "bench_records value i n = map (\<lambda>j. (OpPut, bench_key j, value j)) [i..<i + n]"

lemma store_of_bench:
  "store_of (bench_records value 0 n) k = (if \<exists>j < n. k = bench_key j then Some (value (THE j. k = bench_key j)) else None)"
proof (induction n)
  case (Suc n)
  have "bench_records value 0 (Suc n) = bench_records value 0 n @ [(OpPut, bench_key n, value n)]"
    by (simp add: bench_records_def)
  then have "store_of (bench_records value 0 (Suc n)) k =
      (if k = bench_key n then Some (value n) else store_of (bench_records value 0 n) k)"
    by simp
  then show ?case unfolding Suc by (auto simp: less_Suc_eq)
qed (simp add: bench_records_def)

lemma bench_records_Suc: "bench_records value i (Suc n) = (OpPut, bench_key i, value i) # bench_records value (i + 1) n"
proof -
  have "[i..<i + Suc n] = i # [i + 1..<i + 1 + n]" by (simp add: upt_conv_Cons del: upt_Suc)
  then show ?thesis by (simp only: bench_records_def list.map)
qed

lemma put_all_holds:
  assumes "benign_env V"
  shows "engine_holds st es \<Longrightarrow> room_for st (bench_records value i n) \<Longrightarrow>
    \<exists>st'. put_all value V i n st = (Inr (i + n), st') \<and> engine_holds st' (es @ bench_records value i n)"
proof (induction n arbitrary: i st es)
  case 0
  then show ?case by (simp add: bench_records_def)
next
  case (Suc n)
  have room: "room_for st (req_record (RPut (bench_key i) (value i)))"
    using Suc.prems(2) by (simp add: room_for_def bench_records_Suc)
  obtain st1 where one: "exec V (RPut (bench_key i) (value i)) st = (kOk, st1)"
      "engine_holds st1 (es @ req_record (RPut (bench_key i) (value i)))"
      "l_eof (e_log st1) \<le> l_eof (e_log st) + sum_list (map rec_cost (req_record (RPut (bench_key i) (value i))))"
    by (rule exec_holds [OF assms Suc.prems(1) room])
  have "room_for st1 (bench_records value (i + 1) n)"
    using Suc.prems(2) one(3) by (simp add: room_for_def bench_records_Suc)
  from Suc.IH [OF one(2) this] one(1) show ?case by (auto simp: status_ok_def bench_records_Suc)
qed

lemma bench_room:
  assumes "l_eof (e_log st) = 0" and "n \<le> 10 ^ 15" and "\<And>i. length (value i) = 128"
  shows "room_for st (bench_records value 0 n)"
proof -
  have key: "length (bench_key i) \<le> 24" if "i < n" for i
    using length_to_string [of 20 i] that assms(2) by (simp add: bench_key_def)
  have "sum_list (map rec_cost (bench_records value 0 n)) \<le> sum_list (map (\<lambda>i. 171) [0..<n])"
    unfolding bench_records_def map_map using key by (simp only: add_0) (intro sum_list_mono, force simp: rec_cost_def assms(3))
  also have "\<dots> = 171 * n" by (simp add: sum_list_triv)
  finally show ?thesis
    using key assms by (fastforce simp: room_for_def bench_records_def fits_rec_def fits_def)
qed

lemma bench_open:
  assumes "benign_env V" and "d (ascii ''lumina_snap/MANIFEST'') = None"
  obtains st where "engine_open V [] d (new_engine storage_opts) = (kOk, st)" and "engine_holds st []" and "l_eof (e_log st) = 0"
proof -
  have "d (o_snapshot_dir storage_opts @ ascii ''/MANIFEST'') = None" using assms(2) by (simp add: storage_opts_def ascii_def)
  from engine_open_empty [of V d storage_opts, OF assms(1) this] show ?thesis using that by blast
qed

section \<open>The benchmarks measure what they say\<close>

lemma read_all_map:
  "\<forall>j \<in> set js. engine_get V st (bench_key j) = Inr (f j) \<Longrightarrow> read_all V st js = Inr (map f js)"
  by (induction js) simp_all

text \<open>
  the storage benchmarks complete. With system calls that succeed and no snapshot of another
  program in the working directory, the sequential benchmark writes as many keys as it has
  iterations, up to \<open>10 ^ 15\<close>, without being skipped, and the engine then has exactly these
  keys; and in the read benchmark, whose draws lie among the preloaded keys, no read fails and each returns
  the value that was preloaded under the key drawn.
\<close>

theorem storage_bench_completes:
  assumes "benign_env V" and "d (ascii ''lumina_snap/MANIFEST'') = None" and "n \<le> 10 ^ 15" and "\<forall>j \<in> set draws. j < kPreload"
  shows "\<exists>st. bm_sequential_write V d n = (Inr n, st) \<and> key_count st = n \<and>
      (\<forall>i < n. engine_get V st (bench_key i) = Inr (replicate 128 118)) \<and>
    bm_random_read V d draws = Inr (map preload_value draws)"
proof -
  obtain st0 where st0: "engine_open V [] d (new_engine storage_opts) = (kOk, st0)" "engine_holds st0 []" "l_eof (e_log st0) = 0"
    by (rule bench_open [of V d, OF assms(1,2)])
  let ?v = "\<lambda>i. replicate 128 118 :: bytes"
  obtain st where st: "put_all ?v V 0 n st0 = (Inr n, st)" "engine_holds st (bench_records ?v 0 n)"
    using put_all_holds [OF assms(1) st0(2) bench_room [OF st0(3) assms(3), of ?v]] by auto
  have "kPreload \<le> 10 ^ 15" by (simp add: kPreload_def)
  from put_all_holds [OF assms(1) st0(2) bench_room [OF st0(3) this, of preload_value]] obtain st1 where
    st1: "put_all preload_value V 0 kPreload st0 = (Inr kPreload, st1)" "engine_holds st1 (bench_records preload_value 0 kPreload)"
    by (auto simp: preload_value_def)
  have seq: "bm_sequential_write V d n = (Inr n, st)" using st0(1) st(1) by (simp add: bm_sequential_write_def status_ok_def)
  have "dom (store_of (bench_records ?v 0 n)) = bench_key ` {..<n}" by (auto simp: store_of_bench split: if_splits)
  then have "card (dom (store_of (bench_records ?v 0 n))) = n" by (simp add: card_image inj_on_def)
  then have count: "key_count st = n"
    using kv.dom_indexed [of "env_wal V" "e_log st" "e_index st" "bench_records ?v 0 n"] st(2) assms(1)
      index_size_card [OF engine_holds_log(5) [OF st(2)]]
    by (simp add: key_count_def engine_holds_def benign_env_def)
  have get: "\<forall>i < n. engine_get V st (bench_key i) = Inr (replicate 128 118)"
    using engine_get_store [OF assms(1) st(2)] by (auto simp: store_of_bench store_result_def)
  have "\<forall>j \<in> set draws. engine_get V st1 (bench_key j) = Inr (preload_value j)"
    using engine_get_store [OF assms(1) st1(2)] assms(4) by (auto simp: store_of_bench store_result_def)
  then have "bm_random_read V d draws = Inr (map preload_value draws)"
    using st0(1) st1(1) by (simp add: bm_random_read_def status_ok_def read_all_map)
  then show ?thesis using seq count get by blast
qed

theorem storage_bench_completes_witness:
  "(\<exists>st. bm_sequential_write calm_store Map.empty 1000 = (Inr 1000, st) \<and> key_count st = 1000) \<and>
    bm_random_read calm_store Map.empty [27, 0] = Inr [replicate 128 98, replicate 128 97]"
proof -
  have "benign_env calm_store" by (simp add: benign_env_def calm_store_def is_order_def)
  from storage_bench_completes [OF this, of Map.empty 1000 "[27, 0]"] show ?thesis
    by (auto simp: kPreload_def preload_value_def)
qed

end
