(* ===== verification/Filter_Bench.thy ===== *)
theory Filter_Bench
  imports Collection_Recovery Ann_Bench_Correct Storage_Bench
begin

text \<open>
  The benchmark of filtered searches (\<^verbatim>\<open>bench/filter_bench.cpp\<close>): a collection of 10000 random
  vectors, each with the field \<open>cat\<close>, three filters on it, the exact nearest neighbours among
  the entries that a filter selects, and the recall of the two filter modes. The vectors and
  the number of iterations are arguments. As in the code the statuses of \<open>open\<close> and \<open>add\<close> are not
  looked at. The distances are those of the collection, \<open>hl_dist\<close>.
\<close>

section \<open>The environment of the benchmark\<close>

definition kDim :: nat where "kDim = 64"
definition kN :: nat where "kN = 10000"

definition cat_of :: "nat \<Rightarrow> u64" where
  "cat_of i = of_nat (i mod 100)"

definition cat_meta :: "fvec \<Rightarrow> nat \<Rightarrow> entry_meta" where
  "cat_meta v i = make_meta v (ascii ''p'') [\<lparr>sf_name = ascii ''cat'', sf_value = VInt (cat_of i)\<rparr>]"

definition bench_adds :: "(nat \<Rightarrow> fvec) \<Rightarrow> coll_request list" where
  "bench_adds vecs = map (\<lambda>i. CAdd (of_nat i) (cat_meta (vecs i) i)) [0..<kN]"

definition bench_collection :: "coll_env \<Rightarrow> bytes \<Rightarrow> dir \<Rightarrow> (nat \<Rightarrow> fvec) \<Rightarrow> collection" where
  "bench_collection V dir d vecs =
     snd (coll_run V (bench_adds vecs) (snd (collection_open V [] d (new_collection dir kDim 16 200))))"

definition targets :: "nat list" where
  "targets = [3, 20, 50]"

definition bench_filter :: "nat \<Rightarrow> filter_expr" where
  "bench_filter s = [\<lparr>cl_field = ascii ''cat'', cl_op = FEq, cl_value = VInt (of_nat (targets ! s))\<rparr>]"

definition bench_truth :: "hnsw_lib \<Rightarrow> (nat \<Rightarrow> fvec) \<Rightarrow> nat \<Rightarrow> nat list outcome" where
  "bench_truth L vecs s =
     (let all = map (\<lambda>i. (hl_dist L (vecs 0) (vecs i), i)) (filter (\<lambda>i. i mod 100 = targets ! s) [0..<kN])
      in case partial_sort 10 all of
           Out_Of_Bounds \<Rightarrow> Out_Of_Bounds
         | Returns xs \<Rightarrow> Returns (map snd xs))"

definition filter_recall :: "search_result list \<Rightarrow> nat list \<Rightarrow> real" where
  "filter_recall hits truth = real (true_hits hits truth) / 10"

text \<open>\<open>BM_InFilter\<close> and \<open>BM_PostFilter\<close> differ in the mode; every iteration repeats the same search.\<close>

definition bm_filter :: "filter_mode \<Rightarrow> coll_env \<Rightarrow> bytes \<Rightarrow> dir \<Rightarrow> (nat \<Rightarrow> fvec) \<Rightarrow> nat \<Rightarrow> (search_result list \<times> real) outcome" where
  "bm_filter mode V dir d vecs s =
     (let c = bench_collection V dir d vecs;
          hits = search_filtered V c (Some (vecs 0)) 10 (bench_filter s) \<lparr>so_ef_search = 500, so_filter_mode = mode\<rparr>
      in case bench_truth (env_hnsw V) vecs s of
           Out_Of_Bounds \<Rightarrow> Out_Of_Bounds
         | Returns truth \<Rightarrow> Returns (hits, filter_recall hits truth))"

section \<open>The collection\<close>

definition cat_items :: "(nat \<Rightarrow> fvec) \<Rightarrow> nat \<Rightarrow> u64 \<rightharpoonup> entry_meta" where
  "cat_items vecs n i = (if unat i < n then Some (cat_meta (vecs (unat i)) (unat i)) else None)"

lemma unat_small: "i < 2 ^ 20 \<Longrightarrow> unat (of_nat i :: u64) = i"
  by (simp add: unat_of_nat_u64)

lemma small_eq: "i < 2 ^ 20 \<Longrightarrow> j < 2 ^ 20 \<Longrightarrow> (of_nat i :: u64) = of_nat j \<longleftrightarrow> i = j"
  by (metis unat_small)

lemma cat_status:
  assumes "name_sort (env_sort V)" and "length v = kDim"
  shows "entry_status V (cat_meta v i) = kOk" and "length (entry_bytes V (cat_meta v i)) \<le> 300"
proof -
  have one: "env_sort V [x] = [x]" for x
    using name_sort.srt_perm [OF assms(1), of "[x]"] by (metis mset_single_iff_right)
  have "encode_entry_meta (env_sort V) (cat_meta v i) =
      Inr (put_u32 (meta_flags (cat_meta v i)) @ vec_block (cat_meta v i) @ payload_block (cat_meta v i) @
        put_u16 1 @ put_u8 (scalar_index (VInt (cat_of i))) @ put_u16 3 @ ascii ''cat'' @ put_u64 (cat_of i))"
    using assms(2) one
    by (simp add: encode_blocks within_limits_def scalar_block_def cat_meta_def make_meta_def kDim_def kMaxVecLen_def
        kMaxPayloadLen_def kMaxScalarCount_def)
  moreover have "length (vec_block (cat_meta v i)) \<le> 260" "length (payload_block (cat_meta v i)) = 5"
    using assms(2) by (simp_all add: vec_block_def payload_block_def cat_meta_def make_meta_def kDim_def)
  ultimately show "entry_status V (cat_meta v i) = kOk" "length (entry_bytes V (cat_meta v i)) \<le> 300"
    by (simp_all add: entry_status_def entry_bytes_def)
qed

lemma table_run_append:
  "table_run V (rs @ qs) T = (let (ss, T1) = table_run V rs T; (ts, T2) = table_run V qs T1 in (ss @ ts, T2))"
  by (induction rs arbitrary: T) (auto simp: split_def Let_def)

lemma adds_table:
  assumes "name_sort (env_sort V)" and "\<forall>i < n. length (vecs i) = kDim" and "n \<le> 2 ^ 20"
  shows "table_run V (map (\<lambda>i. CAdd (of_nat i) (cat_meta (vecs i) i)) [0..<n]) (Map.empty, {}) =
    (replicate n kOk, cat_items vecs n, of_nat ` {..<n})"
  using assms(2,3)
proof (induction n)
  case 0
  then show ?case by (simp add: cat_items_def fun_eq_iff)
next
  case (Suc n)
  have new: "(of_nat n :: u64) \<notin> of_nat ` {..<n}"
  proof
    assume "(of_nat n :: u64) \<in> of_nat ` {..<n}"
    then obtain j where "j < n" "(of_nat n :: u64) = of_nat j" by auto
    then show False using unat_small [of n] unat_small [of j] Suc.prems(2) by simp
  qed
  have "(cat_items vecs n)(of_nat n \<mapsto> cat_meta (vecs n) n) = cat_items vecs (Suc n)"
  proof
    fix i :: u64
    have n: "unat (of_nat n :: u64) = n" using unat_small [of n] Suc.prems(2) by simp
    show "((cat_items vecs n)(of_nat n \<mapsto> cat_meta (vecs n) n)) i = cat_items vecs (Suc n) i"
    proof (cases "i = of_nat n")
      case True
      then show ?thesis using n by (simp add: cat_items_def)
    next
      case False
      then have "unat i \<noteq> n" by auto
      then show ?thesis using False by (simp add: cat_items_def)
    qed
  qed
  then show ?case
    using Suc cat_status(1) [OF assms(1), of "vecs n" n] new
    by (simp add: table_run_append table_put_def status_ok_def replicate_append_same lessThan_Suc)
qed

lemma bench_adds_ok:
  assumes "name_sort (env_sort V)" and "\<forall>i < kN. length (vecs i) = kDim"
  shows "\<forall>r \<in> set (bench_adds vecs). req_ok V kDim r \<and> req_cost V r \<le> 400"
proof
  fix r assume "r \<in> set (bench_adds vecs)"
  then obtain i where i: "i < kN" "r = CAdd (of_nat i) (cat_meta (vecs i) i)" by (auto simp: bench_adds_def)
  have "length (key_of (of_nat i)) \<le> 20"
    using length_to_string [of 20 "unat (of_nat i :: u64)"] i(1) unat_small [of i] by (simp add: key_of_def kN_def)
  then show "req_ok V kDim r \<and> req_cost V r \<le> 400"
    using cat_status(2) [OF assms(1), of "vecs i" i] assms(2) i
    by (simp add: entry_ok_def fits_def) (simp add: cat_meta_def make_meta_def)
qed

lemma bench_collection_inv:
  assumes "good_env V" and "d (dir @ ascii ''/snap/MANIFEST'') = None" and "\<forall>i < kN. length (vecs i) = kDim"
  obtains es where "coll_inv (bench_collection V dir d vecs) es (cat_items vecs kN) (of_nat ` {..<kN})"
proof -
  have srt: "name_sort (env_sort V)" using assms(1) by (simp add: good_env_def)
  obtain c0 where c0: "collection_open V [] d (new_collection dir kDim 16 200) = (kOk, c0)" "coll_inv c0 [] Map.empty {}"
      "c_dim c0 = kDim" "coll_eof c0 = 0"
    using collection_open_fresh [of V d dir kDim 16 200, OF assms(1,2)] by auto
  note ok = bench_adds_ok [OF srt assms(3)]
  have "sum_list (map (req_cost V) (bench_adds vecs)) \<le> sum_list (map (\<lambda>r. 400) (bench_adds vecs))"
    using ok by (intro sum_list_mono) auto
  also have "\<dots> = 400 * 10000" by (simp only: sum_list_triv) (simp add: bench_adds_def kN_def)
  finally have "sum_list (map (req_cost V) (bench_adds vecs)) < 2 ^ 63" by simp
  with coll_run_ok [OF assms(1) c0(2), of "bench_adds vecs"] ok c0(3,4) obtain c es where
    "coll_run V (bench_adds vecs) c0 = (fst (table_run V (bench_adds vecs) (Map.empty, {})), c)"
    "coll_inv c es (fst (snd (table_run V (bench_adds vecs) (Map.empty, {})))) (snd (snd (table_run V (bench_adds vecs) (Map.empty, {}))))"
    by auto
  moreover have "table_run V (bench_adds vecs) (Map.empty, {}) = (replicate kN kOk, cat_items vecs kN, of_nat ` {..<kN})"
    unfolding bench_adds_def using adds_table [OF srt assms(3)] by (simp add: kN_def)
  ultimately show ?thesis using that c0(1) by (simp add: bench_collection_def)
qed

section \<open>What the filters select and the recall means\<close>

lemma bench_filter_matches:
  assumes "filtered fx (cat_items vecs kN)" and "s < 3"
  shows "filter_matches fx (of_nat i) (bench_filter s) \<and> i < kN \<longleftrightarrow> i < kN \<and> i mod 100 = targets ! s"
proof (cases "i < kN")
  case True
  obtain cur names where ix: "indexes fx cur names"
      and cur: "\<forall>i. map_option set (cur i) = map_option (\<lambda>m. set (em_scalars m)) (cat_items vecs kN i)"
    using assms(1) by (auto simp: filtered_def)
  have n: "unat (of_nat i :: u64) = i" using True unat_small [of i] by (simp add: kN_def)
  then have "map_option set (cur (of_nat i)) = Some {\<lparr>sf_name = ascii ''cat'', sf_value = VInt (cat_of i)\<rparr>}"
    using cur [rule_format, of "of_nat i"] True by (simp add: cat_items_def cat_meta_def make_meta_def)
  then obtain ss where ss: "cur (of_nat i) = Some ss" "set ss = {\<lparr>sf_name = ascii ''cat'', sf_value = VInt (cat_of i)\<rparr>}" by auto
  have "(of_nat (i mod 100) :: u64) = of_nat (targets ! s) \<longleftrightarrow> i mod 100 = targets ! s"
  proof (rule small_eq)
    have "targets ! s < 100" using assms(2) by (auto simp: targets_def less_Suc_eq numeral_3_eq_3)
    then show "targets ! s < 2 ^ 20" by simp
    have "i mod 100 < 100" by simp
    then show "i mod 100 < 2 ^ 20" by (rule order_less_trans) simp
  qed
  then show ?thesis
    using filter_matches_sat [OF ix, of "of_nat i" "bench_filter s"] True
    by (simp add: bench_filter_def sat_clause_def ss cat_of_def)
qed simp

lemma filtered_hits:
  assumes "good_env V" and "coll_inv c es items K" and "0 < k" and "expr \<noteq> []"
  shows "\<forall>r \<in> set (search_filtered V c (Some q) k expr opts). items (sr_id r) \<noteq> None \<and> filter_matches (c_filter c) (sr_id r) expr"
proof (cases "so_filter_mode opts = ModeInFilter")
  case True
  then show ?thesis
    using assms(3,4) index_hits_ok [OF assms(1,2), of q k "so_ef_search opts" "Some (\<lambda>i. filter_matches (c_filter c) i expr)"]
    by (auto simp: search_filtered_def passes_def hits_ok_def)
next
  case False
  then show ?thesis
    using assms(3,4) post_filter_hits_ok [OF assms(1,2), of q k expr]
    by (simp add: search_filtered_def hits_ok_def del: post_filter_loop.simps) blast
qed

text \<open>The ids that a filter selects: one in a hundred.\<close>

definition selected :: "nat \<Rightarrow> nat list" where
  "selected s = filter (\<lambda>i. i mod 100 = targets ! s) [0..<kN]"

lemma length_mod_filter:
  fixes t m n :: nat
  assumes "t < m"
  shows "length (filter (\<lambda>i. i mod m = t) [0..<m * n]) = n"
proof -
  have "set (filter (\<lambda>i. i mod m = t) [0..<m * n]) = (\<lambda>j. m * j + t) ` {..<n}"
  proof
    show "set (filter (\<lambda>i. i mod m = t) [0..<m * n]) \<subseteq> (\<lambda>j. m * j + t) ` {..<n}"
    proof
      fix i assume i: "i \<in> set (filter (\<lambda>i. i mod m = t) [0..<m * n])"
      then have "i = m * (i div m) + t" "i div m < n" by (auto simp: less_mult_imp_div_less mult.commute)
      then show "i \<in> (\<lambda>j. m * j + t) ` {..<n}" by blast
    qed
    have "m * j + t < m * n" if "j < n" for j
    proof -
      have "m * j + t < m * Suc j" using assms by simp
      also have "\<dots> \<le> m * n" using that by (intro mult_le_mono2) simp
      finally show ?thesis .
    qed
    then show "(\<lambda>j. m * j + t) ` {..<n} \<subseteq> set (filter (\<lambda>i. i mod m = t) [0..<m * n])" using assms by auto
  qed
  moreover have "inj_on (\<lambda>j. m * j + t) {..<n}" using assms by (auto simp: inj_on_def)
  ultimately have "card (set (filter (\<lambda>i. i mod m = t) [0..<m * n])) = n" by (simp add: card_image)
  then show ?thesis by (simp only: distinct_card distinct_filter distinct_upt)
qed

lemma length_selected: "s < 3 \<Longrightarrow> length (selected s) = 100"
proof -
  assume "s < 3"
  then have "targets ! s < 100" by (auto simp: targets_def less_Suc_eq numeral_3_eq_3)
  from length_mod_filter [OF this, of 100] show ?thesis by (simp add: selected_def kN_def)
qed

text \<open>
  C34: every filter of the benchmark selects one per cent. The collection of the benchmark has
  10000 entries, and each of its three filters matches exactly 100 of them, although the comments
  announce selectivities of 1%, 10% or 20%, and 50%. In both modes every hit is an entry that the
  filter selects, and the recall that is reported is the share of the ten nearest of the
  selected entries among the hits.
\<close>

theorem filter_bench_one_percent:
  assumes "good_env V" and "d (dir @ ascii ''/snap/MANIFEST'') = None" and "\<forall>i < kN. length (vecs i) = kDim"
    and "\<forall>i < kN. \<not> flt_nan (hl_dist (env_hnsw V) (vecs 0) (vecs i))" and "s < 3"
  shows "\<exists>hits truth. bm_filter mode V dir d vecs s = Returns (hits, real (card {t \<in> set truth. of_nat t \<in> sr_id ` set hits}) / 10) \<and>
    collection_size (bench_collection V dir d vecs) = 10000 \<and>
    card {i. i < kN \<and> filter_matches (c_filter (bench_collection V dir d vecs)) (of_nat i) (bench_filter s)} = 100 \<and>
    nearest_of (\<lambda>i. hl_dist (env_hnsw V) (vecs 0) (vecs i)) (selected s) 10 truth \<and>
    (\<forall>r \<in> set hits. \<exists>i \<in> set (selected s). sr_id r = of_nat i)"
proof -
  let ?c = "bench_collection V dir d vecs" and ?d = "\<lambda>i. hl_dist (env_hnsw V) (vecs 0) (vecs i)"
  obtain es where inv: "coll_inv ?c es (cat_items vecs kN) (of_nat ` {..<kN})"
    by (rule bench_collection_inv [of V d dir vecs, OF assms(1-3)])
  have flt: "filtered (c_filter ?c) (cat_items vecs kN)" using inv by (simp add: coll_inv_def)
  have matches: "i < kN \<and> filter_matches (c_filter ?c) (of_nat i) (bench_filter s) \<longleftrightarrow> i \<in> set (selected s)" for i
    using bench_filter_matches [OF flt assms(5), of i] by (auto simp: selected_def)
  have dist: "distinct (selected s)" by (simp add: selected_def)
  have "{i. i < kN \<and> filter_matches (c_filter ?c) (of_nat i) (bench_filter s)} = set (selected s)" using matches by blast
  then have count: "card {i. i < kN \<and> filter_matches (c_filter ?c) (of_nat i) (bench_filter s)} = 100"
    using distinct_card [OF dist] length_selected [OF assms(5)] by simp
  have "dom (cat_items vecs kN) = of_nat ` {..<kN}"
  proof
    show "dom (cat_items vecs kN) \<subseteq> of_nat ` {..<kN}"
    proof
      fix i assume "i \<in> dom (cat_items vecs kN)"
      then have "unat i < kN" by (auto simp: cat_items_def split: if_splits)
      then have "(of_nat (unat i) :: u64) \<in> of_nat ` {..<kN}" by blast
      then show "i \<in> of_nat ` {..<kN}" by simp
    qed
    show "of_nat ` {..<kN} \<subseteq> dom (cat_items vecs kN)"
      using unat_small by (auto simp: cat_items_def kN_def)
  qed
  moreover have "inj_on (of_nat :: nat \<Rightarrow> u64) {..<kN}" using small_eq by (auto simp: inj_on_def kN_def)
  ultimately have size: "collection_size ?c = 10000"
    using collection_size_ok [OF inv] by (simp add: card_image kN_def)
  obtain truth where truth: "partial_sort 10 (map (\<lambda>i. (?d i, i)) (selected s)) = Returns (map (\<lambda>i. (?d i, i)) truth)"
      "nearest_of ?d (selected s) 10 truth"
    by (rule partial_sort_nearest [of 10 "selected s" ?d]) (use dist length_selected [OF assms(5)] assms(4) in \<open>auto simp: selected_def\<close>)
  let ?hits = "search_filtered V ?c (Some (vecs 0)) 10 (bench_filter s) \<lparr>so_ef_search = 500, so_filter_mode = mode\<rparr>"
  have "bench_truth (env_hnsw V) vecs s = Returns truth" using truth(1) by (simp add: bench_truth_def selected_def comp_def)
  moreover have "true_hits ?hits truth = card {t \<in> set truth. of_nat t \<in> sr_id ` set ?hits}"
    using truth(2) distinct_card [of "filter (\<lambda>t. of_nat t \<in> set (map sr_id ?hits)) truth"]
    by (simp add: true_hits_def nearest_of_def)
  ultimately have run: "bm_filter mode V dir d vecs s = Returns (?hits, real (card {t \<in> set truth. of_nat t \<in> sr_id ` set ?hits}) / 10)"
    by (simp add: bm_filter_def Let_def filter_recall_def)
  have "\<exists>i \<in> set (selected s). sr_id r = of_nat i" if r: "r \<in> set ?hits" for r
  proof -
    have "cat_items vecs kN (sr_id r) \<noteq> None \<and> filter_matches (c_filter ?c) (sr_id r) (bench_filter s)"
      using filtered_hits [OF assms(1) inv, of 10 "bench_filter s"] r by (simp add: bench_filter_def)
    then have "unat (sr_id r) < kN \<and> filter_matches (c_filter ?c) (of_nat (unat (sr_id r))) (bench_filter s)"
      by (auto simp: cat_items_def split: if_splits)
    then show ?thesis using matches [of "unat (sr_id r)"] by (intro bexI [of _ "unat (sr_id r)"]) auto
  qed
  then show ?thesis using run size count truth(2) by blast
qed

theorem filter_bench_one_percent_witness:
  "collection_size (bench_collection sample_env [100] Map.empty (\<lambda>i. replicate 64 0)) = 10000 \<and>
    card {i. i < kN \<and> filter_matches (c_filter (bench_collection sample_env [100] Map.empty (\<lambda>i. replicate 64 0)))
      (of_nat i) (bench_filter 2)} = 100"
proof -
  have "\<not> flt_nan (hl_dist (env_hnsw sample_env) v w)" for v w by (simp add: sample_env_def zero_lib_def plain_lib_def flt_nan_def)
  then show ?thesis
    using filter_bench_one_percent [OF good_sample_env, of Map.empty "[100]" "\<lambda>i. replicate 64 0" 2 ModeInFilter]
    by (auto simp: kDim_def)
qed

end
