(* ===== verification/Quant_Kernels.thy ===== *)
theory Quant_Kernels
  imports Hnsw
begin

text \<open>
  \<^verbatim>\<open>src/vector/quantized_distance.cpp\<close>: the distance kernels on quantized vectors. The squared
  distance of byte vectors exists three times, selected at compile time: a scalar loop, a NEON
  loop over 16 bytes with four 32-bit lanes, and an AVX2 loop over 32 bytes with eight. The
  vector instructions are modelled lane by lane on words, wrap-around included. Only the last
  step of a kernel, from the integer total to a float, needs float arithmetic; the operations
  of the float unit are the argument \<open>F\<close>.
\<close>

section \<open>Float arithmetic\<close>

record fops =
  f_add :: "u32 \<Rightarrow> u32 \<Rightarrow> u32"
  f_sub :: "u32 \<Rightarrow> u32 \<Rightarrow> u32"
  f_mul :: "u32 \<Rightarrow> u32 \<Rightarrow> u32"
  f_div :: "u32 \<Rightarrow> u32 \<Rightarrow> u32"
  f_of_u64 :: "u64 \<Rightarrow> u32"
  f_lround :: "u32 \<Rightarrow> int"

definition f_one :: u32 where "f_one = 0x3F800000"
definition f_255 :: u32 where "f_255 = 0x437F0000"

definition flt_le :: "u32 \<Rightarrow> u32 \<Rightarrow> bool" where
  "flt_le a b \<longleftrightarrow> \<not> flt_nan a \<and> \<not> flt_nan b \<and> flt_key a \<le> flt_key b"

text \<open>\<^verbatim>\<open>std::max(a, b)\<close> and \<^verbatim>\<open>std::min(a, b)\<close> return the first argument unless the second is beyond it.\<close>

definition f_max :: "u32 \<Rightarrow> u32 \<Rightarrow> u32" where
  "f_max a b = (if flt_less a b then b else a)"

definition f_min :: "u32 \<Rightarrow> u32 \<Rightarrow> u32" where
  "f_min a b = (if flt_less b a then b else a)"

section \<open>Squared distance of byte vectors\<close>

definition byte_sq :: "byte \<Rightarrow> byte \<Rightarrow> u64" where
  "byte_sq x y = (let d = uint x - uint y in of_int (d * d))"

definition tail_sum :: "bytes \<Rightarrow> bytes \<Rightarrow> u64 \<Rightarrow> u64" where
  "tail_sum a b tot = foldl (\<lambda>acc (x, y). acc + byte_sq x y) tot (zip a b)"

definition scaled :: "fops \<Rightarrow> u64 \<Rightarrow> u32 \<Rightarrow> u32" where
  "scaled F tot scale = f_mul F (f_mul F (f_of_u64 F tot) scale) scale"

definition sq8_total_scalar :: "bytes \<Rightarrow> bytes \<Rightarrow> u64" where
  "sq8_total_scalar a b = tail_sum a b 0"

definition sq8_l2_bytes_scalar :: "fops \<Rightarrow> bytes \<Rightarrow> bytes \<Rightarrow> u32 \<Rightarrow> u32" where
  "sq8_l2_bytes_scalar F a b scale = scaled F (sq8_total_scalar a b) scale"

subsection \<open>NEON\<close>

definition vabd_u8 :: "byte \<Rightarrow> byte \<Rightarrow> byte" where
  "vabd_u8 x y = (if y \<le> x then x - y else y - x)"

definition vmull_sq :: "byte \<Rightarrow> u32" where
  "vmull_sq d = (let w = ucast d :: u16 in ucast w * ucast w)"

definition lane_add :: "u32 list \<Rightarrow> u32 list \<Rightarrow> u32 list" where
  "lane_add acc xs = map2 (+) acc xs"

definition neon_step :: "bytes \<Rightarrow> bytes \<Rightarrow> u32 list \<Rightarrow> u32 list" where
  "neon_step va vb acc =
     (let d8 = map2 vabd_u8 va vb;
          sq = map vmull_sq d8;
          acc = lane_add acc (take 4 sq);
          acc = lane_add acc (take 4 (drop 4 sq));
          acc = lane_add acc (take 4 (drop 8 sq))
      in lane_add acc (take 4 (drop 12 sq)))"

text \<open>The main loop of a kernel of the given width: the lanes, and what is left for the tail.\<close>

function simd_loop ::
  "nat \<Rightarrow> (bytes \<Rightarrow> bytes \<Rightarrow> u32 list \<Rightarrow> u32 list) \<Rightarrow> bytes \<Rightarrow> bytes \<Rightarrow> u32 list \<Rightarrow> u32 list \<times> bytes \<times> bytes" where
  "simd_loop w step a b acc =
     (if 0 < w \<and> w \<le> length a then simd_loop w step (drop w a) (drop w b) (step (take w a) (take w b) acc)
      else (acc, a, b))"
  by auto
termination by (relation "measure (\<lambda>(w, step, a, b, acc). length a)") auto

declare simd_loop.simps [simp del]

definition sq8_total_neon :: "bytes \<Rightarrow> bytes \<Rightarrow> u64" where
  "sq8_total_neon a b =
     (let (acc, a, b) = simd_loop 16 neon_step a b (replicate 4 0)
      in tail_sum a b (ucast (sum_list acc)))"

subsection \<open>AVX2\<close>

definition abs_epi8 :: "byte \<Rightarrow> byte" where
  "abs_epi8 x = (if sint x < 0 then - x else x)"

fun madd_sq :: "u16 list \<Rightarrow> u32 list" where
  "madd_sq (x # y # zs) = (scast x * scast x + scast y * scast y) # madd_sq zs"
| "madd_sq _ = []"

definition avx2_step :: "bytes \<Rightarrow> bytes \<Rightarrow> u32 list \<Rightarrow> u32 list" where
  "avx2_step va vb acc =
     (let abs_d = map abs_epi8 (map2 (-) va vb);
          d_lo = map ucast (take 16 abs_d);
          d_hi = map ucast (take 16 (drop 16 abs_d));
          acc = lane_add acc (madd_sq d_lo)
      in lane_add acc (madd_sq d_hi))"

definition sq8_total_avx2 :: "bytes \<Rightarrow> bytes \<Rightarrow> u64" where
  "sq8_total_avx2 a b =
     (let (acc, a, b) = simd_loop 32 avx2_step a b (replicate 8 0);
          tot = foldl (\<lambda>tot t. tot + ucast t) 0 acc
      in tail_sum a b tot)"

subsection \<open>The kernel\<close>

datatype target = TargetNeon | TargetAvx2 | TargetOther

definition sq8_total :: "target \<Rightarrow> bytes \<Rightarrow> bytes \<Rightarrow> u64" where
  "sq8_total T a b =
     (case T of TargetNeon \<Rightarrow> sq8_total_neon a b | TargetAvx2 \<Rightarrow> sq8_total_avx2 a b | TargetOther \<Rightarrow> sq8_total_scalar a b)"

definition sq8_l2_bytes :: "fops \<Rightarrow> target \<Rightarrow> bytes \<Rightarrow> bytes \<Rightarrow> u32 \<Rightarrow> u32" where
  "sq8_l2_bytes F T a b scale = scaled F (sq8_total T a b) scale"

definition quant_byte :: "fops \<Rightarrow> u32 \<Rightarrow> u32 \<Rightarrow> u32 \<Rightarrow> byte" where
  "quant_byte F min_val scale x =
     (let v = f_mul F (f_sub F x min_val) scale; v = f_max 0 (f_min f_255 v) in of_int (f_lround F v))"

definition sq8_l2_query :: "fops \<Rightarrow> target \<Rightarrow> bytes \<Rightarrow> u32 list \<Rightarrow> u32 \<Rightarrow> u32 \<Rightarrow> u32" where
  "sq8_l2_query F T code query min_val max_val =
     (let max_val = (if flt_le max_val min_val then f_add F min_val f_one else max_val);
          scale = f_div F f_255 (f_sub F max_val min_val);
          q = map (quant_byte F min_val scale) query
      in sq8_l2_bytes F T code q (f_div F f_one scale))"

section \<open>Hamming distance\<close>

definition popcount :: "byte \<Rightarrow> nat" where
  "popcount b = length (filter (bit b) [0..<8])"

definition hamming_total :: "bytes \<Rightarrow> bytes \<Rightarrow> u64" where
  "hamming_total a b = foldl (\<lambda>tot (x, y). tot + of_nat (popcount (x XOR y))) 0 (zip a b)"

definition binary_hamming :: "fops \<Rightarrow> bytes \<Rightarrow> bytes \<Rightarrow> u32" where
  "binary_hamming F a b = f_of_u64 F (hamming_total a b)"

text \<open>Byte \<open>b\<close> of the bits \<open>p 0, p 1, \<dots>, p (dim - 1)\<close>.\<close>

definition pack_byte :: "(nat \<Rightarrow> bool) \<Rightarrow> nat \<Rightarrow> nat \<Rightarrow> byte" where
  "pack_byte p dim b =
     foldl (\<lambda>bits j. if b * 8 + j < dim \<and> p (b * 8 + j) then bits OR push_bit j 1 else bits) 0 [0..<8]"

definition query_bits :: "u32 list \<Rightarrow> bytes" where
  "query_bits query =
     (let dim = length query
      in map (pack_byte (\<lambda>i. drop_bit 31 (query ! i) = 0) dim) [0..<(dim + 7) div 8])"

definition binary_hamming_query :: "fops \<Rightarrow> bytes \<Rightarrow> u32 list \<Rightarrow> u32" where
  "binary_hamming_query F code query = binary_hamming F code (query_bits query)"

end
