(* ===== verification/Quant_Correct.thy ===== *)
theory Quant_Correct
  imports Quant_Kernels
begin

text \<open>
  The vector kernels against the scalar loop. A kernel step adds the terms of one block to the
  lanes; as long as no lane overflows, the loop and the tail add up all of them. NEON computes
  the same total as the scalar loop; AVX2 subtracts bytes modulo 256 first and agrees with it
  exactly when no difference in the vectorised part exceeds 128.
\<close>

section \<open>Sums\<close>

definition pair_sum :: "(byte \<Rightarrow> byte \<Rightarrow> nat) \<Rightarrow> bytes \<Rightarrow> bytes \<Rightarrow> nat" where
  "pair_sum g a b = sum_list (map2 g a b)"

definition lane_sum :: "u32 list \<Rightarrow> nat" where
  "lane_sum acc = sum_list (map unat acc)"

definition byte_dist :: "byte \<Rightarrow> byte \<Rightarrow> nat" where
  "byte_dist x y = (if unat y \<le> unat x then unat x - unat y else unat y - unat x)"

lemma pair_sum_append:
  "length a = length b \<Longrightarrow> pair_sum g (a @ a') (b @ b') = pair_sum g a b + pair_sum g a' b'"
  by (simp add: pair_sum_def)

lemma pair_sum_take_drop:
  "length a = length b \<Longrightarrow> pair_sum g a b = pair_sum g (take k a) (take k b) + pair_sum g (drop k a) (drop k b)"
  using pair_sum_append [of "take k a" "take k b" g "drop k a" "drop k b"] by simp

lemma pair_sum_nth:
  "length a = length b \<Longrightarrow> pair_sum g a b = (\<Sum>i < length a. g (a ! i) (b ! i))"
  by (simp add: pair_sum_def sum_list_sum_nth atLeast0LessThan)

lemma pair_sum_bound:
  assumes "\<And>x y. g x y \<le> c"
  shows "pair_sum g a b \<le> c * length a"
proof -
  have "sum_list (map2 g a b) \<le> sum_list (map2 (\<lambda>x y. c) a b)" using assms by (intro sum_list_mono) auto
  also have "\<dots> = c * min (length a) (length b)" by (simp add: split_def map_replicate_const sum_list_replicate)
  also have "\<dots> \<le> c * length a" by simp
  finally show ?thesis by (simp add: pair_sum_def)
qed

lemma unat_add_less: "unat (x :: 'a::len word) + unat y < 2 ^ LENGTH('a) \<Longrightarrow> unat (x + y) = unat x + unat y"
  by (simp add: unat_word_ariths(1))

lemma byte_dist_less: "byte_dist x y < 256"
  using unsigned_less [of x, where ?'a = nat] unsigned_less [of y, where ?'a = nat]
  by (auto simp: byte_dist_def intro: less_imp_diff_less)

lemma byte_dist_sq_le: "(byte_dist x y)\<^sup>2 \<le> 65025"
  using power_mono [of "byte_dist x y" 255 2] byte_dist_less [of x y] by simp

lemma unat_byte_sq: "unat (byte_sq x y) = (byte_dist x y)\<^sup>2"
proof -
  have "(int p - int q) * (int p - int q) = int ((if q \<le> p then p - q else q - p)\<^sup>2)" for p q :: nat
  proof -
    have "int (if q \<le> p then p - q else q - p) = \<bar>int p - int q\<bar>" by (simp add: of_nat_diff)
    then show ?thesis by (simp only: of_nat_power power2_eq_square [symmetric] power2_abs)
  qed
  from this [of "unat x" "unat y"] have "(uint x - uint y) * (uint x - uint y) = int ((byte_dist x y)\<^sup>2)"
    unfolding byte_dist_def by (simp only: of_nat_unat)
  then have "byte_sq x y = of_nat ((byte_dist x y)\<^sup>2)" unfolding byte_sq_def Let_def by (simp only: of_int_of_nat_eq)
  moreover have "(byte_dist x y)\<^sup>2 < 18446744073709551616" using byte_dist_sq_le [of x y] by linarith
  ultimately show ?thesis by (simp only: unat_of_nat_u64)
qed

lemma unat_tail_sum:
  "length a = length b \<Longrightarrow> unat tot + pair_sum (\<lambda>x y. (byte_dist x y)\<^sup>2) a b < 2 ^ 64 \<Longrightarrow>
    unat (tail_sum a b tot) = unat tot + pair_sum (\<lambda>x y. (byte_dist x y)\<^sup>2) a b"
proof (induction a b arbitrary: tot rule: list_induct2)
  case Nil
  then show ?case by (simp add: tail_sum_def pair_sum_def)
next
  case (Cons x xs y ys)
  have "unat (tot + byte_sq x y) = unat tot + (byte_dist x y)\<^sup>2"
    using Cons.prems unat_add_less [of tot "byte_sq x y"] by (simp add: unat_byte_sq pair_sum_def)
  then show ?case
    using Cons.IH [of "tot + byte_sq x y"] Cons.prems by (simp add: tail_sum_def pair_sum_def)
qed

lemma lane_add_sum:
  "length acc = length xs \<Longrightarrow> lane_sum acc + lane_sum xs < 2 ^ 32 \<Longrightarrow>
    lane_sum (lane_add acc xs) = lane_sum acc + lane_sum xs"
proof (induction acc xs rule: list_induct2)
  case (Cons x acc y ys)
  then show ?case
    using unat_add_less [of x y] by (simp add: lane_sum_def lane_add_def)
qed (simp add: lane_sum_def lane_add_def)

lemma length_lane_add [simp]: "length (lane_add acc xs) = min (length acc) (length xs)"
  by (simp add: lane_add_def)

section \<open>Kernels over blocks\<close>

text \<open>
  What a kernel step has to do: on blocks of its width, add the terms \<open>g\<close> of the block to its
  lanes, if the lanes do not overflow.
\<close>

locale lane_kernel =
  fixes w :: nat and lanes :: nat and step :: "bytes \<Rightarrow> bytes \<Rightarrow> u32 list \<Rightarrow> u32 list"
    and g :: "byte \<Rightarrow> byte \<Rightarrow> nat"
  assumes width: "0 < w"
    and step_length: "length va = w \<Longrightarrow> length vb = w \<Longrightarrow> length acc = lanes \<Longrightarrow> length (step va vb acc) = lanes"
    and step_sum: "length va = w \<Longrightarrow> length vb = w \<Longrightarrow> length acc = lanes \<Longrightarrow>
      lane_sum acc + pair_sum g va vb < 2 ^ 32 \<Longrightarrow> lane_sum (step va vb acc) = lane_sum acc + pair_sum g va vb"
begin

lemma loop_sum:
  assumes "length a = length b" and "length acc = lanes" and "lane_sum acc + pair_sum g a b < 2 ^ 32"
  shows "\<exists>acc'. simd_loop w step a b acc = (acc', drop (w * (length a div w)) a, drop (w * (length a div w)) b) \<and>
    length acc' = lanes \<and>
    lane_sum acc' = lane_sum acc + pair_sum g (take (w * (length a div w)) a) (take (w * (length a div w)) b)"
  using assms
proof (induction a arbitrary: b acc rule: length_induct)
  case (1 a)
  show ?case
  proof (cases "w \<le> length a")
    case False
    then have "length a div w = 0" by simp
    then show ?thesis using False 1 by (simp add: simd_loop.simps [of w step a] pair_sum_def)
  next
    case True
    let ?acc = "step (take w a) (take w b) acc" and ?a = "drop w a" and ?b = "drop w b"
    let ?k = "w * (length ?a div w)"
    note split = pair_sum_take_drop [OF 1(2), of g w]
    have len: "length (take w a) = w" "length (take w b) = w" using True 1(2) by simp_all
    have acc: "length ?acc = lanes" "lane_sum ?acc = lane_sum acc + pair_sum g (take w a) (take w b)"
      using step_length [OF len 1(3)] step_sum [OF len 1(3)] 1(4) split by simp_all
    have "length ?a < length a" using True width by simp
    then obtain acc' where rest: "simd_loop w step ?a ?b ?acc = (acc', drop ?k ?a, drop ?k ?b)" "length acc' = lanes"
      "lane_sum acc' = lane_sum ?acc + pair_sum g (take ?k ?a) (take ?k ?b)"
      using 1(1) [rule_format, of ?a ?b ?acc] 1(2,4) acc split by auto
    have k: "w * (length a div w) = w + ?k"
      using le_div_geq [OF width True] by simp
    have "pair_sum g (take (w + ?k) a) (take (w + ?k) b) =
        pair_sum g (take w a) (take w b) + pair_sum g (take ?k ?a) (take ?k ?b)"
      unfolding take_add using len by (intro pair_sum_append) simp
    then show ?thesis
      using True width rest acc(2) unfolding k
      by (simp add: simd_loop.simps [of w step a] drop_drop add.commute)
  qed
qed

end

subsection \<open>NEON\<close>

lemma unat_vabd: "unat (vabd_u8 x y) = byte_dist x y"
  by (simp add: vabd_u8_def byte_dist_def word_le_nat_alt unat_sub)

lemma unat_widen: "unat (ucast (ucast (d :: byte) :: u16) :: u32) = unat d" "unat (ucast t :: u64) = unat (t :: u32)"
  by (transfer; simp add: take_bit_take_bit)+

lemma unat_vmull: "unat (vmull_sq d) = (unat d)\<^sup>2"
proof -
  have d: "unat d < 256" using unsigned_less [of d, where ?'a = nat] by simp
  then have "unat d * unat d < 4294967296" using mult_strict_mono [of "unat d" 256 "unat d" 256] by simp
  then show ?thesis
    by (simp add: vmull_sq_def Let_def unat_word_ariths(2) unat_widen power2_eq_square)
qed

lemma lane_sum_sq: "lane_sum (map vmull_sq (map2 vabd_u8 va vb)) = pair_sum (\<lambda>x y. (byte_dist x y)\<^sup>2) va vb"
  by (simp add: lane_sum_def pair_sum_def comp_def split_def unat_vmull unat_vabd)

lemma lane_sum_split: "lane_sum xs = lane_sum (take k xs) + lane_sum (drop k xs)"
  by (metis append_take_drop_id lane_sum_def map_append sum_list_append)

lemma lane_add_four:
  assumes "length acc = n" and "length p = n" and "length q = n" and "length r = n" and "length s = n"
    and "lane_sum acc + (lane_sum p + lane_sum q + lane_sum r + lane_sum s) < 2 ^ 32"
  shows "lane_sum (lane_add (lane_add (lane_add (lane_add acc p) q) r) s) =
    lane_sum acc + (lane_sum p + lane_sum q + lane_sum r + lane_sum s)"
  using assms by (simp add: lane_add_sum)

lemma lane_add_two:
  assumes "length acc = n" and "length p = n" and "length q = n" and "lane_sum acc + (lane_sum p + lane_sum q) < 2 ^ 32"
  shows "lane_sum (lane_add (lane_add acc p) q) = lane_sum acc + (lane_sum p + lane_sum q)"
  using assms by (simp add: lane_add_sum)

lemma lane_sum_zero [simp]: "lane_sum (replicate n 0) = 0"
  by (simp add: lane_sum_def sum_list_replicate)

interpretation neon: lane_kernel 16 4 neon_step "\<lambda>x y. (byte_dist x y)\<^sup>2"
proof
  fix va vb :: bytes and acc :: "u32 list"
  assume len: "length va = 16" "length vb = 16" "length acc = 4"
  let ?sq = "map vmull_sq (map2 vabd_u8 va vb)"
  show "length (neon_step va vb acc) = 4" using len by (simp add: neon_step_def Let_def)
  assume small: "lane_sum acc + pair_sum (\<lambda>x y. (byte_dist x y)\<^sup>2) va vb < 2 ^ 32"
  have "length ?sq = 16" using len by simp
  then have "lane_sum ?sq = lane_sum (take 4 ?sq) + lane_sum (take 4 (drop 4 ?sq)) +
      lane_sum (take 4 (drop 8 ?sq)) + lane_sum (take 4 (drop 12 ?sq))"
    using lane_sum_split [of ?sq 4] lane_sum_split [of "drop 4 ?sq" 4] lane_sum_split [of "drop 8 ?sq" 4]
    by (simp del: take_map drop_map add: drop_drop)
  then show "lane_sum (neon_step va vb acc) = lane_sum acc + pair_sum (\<lambda>x y. (byte_dist x y)\<^sup>2) va vb"
    using lane_add_four [of acc 4 "take 4 ?sq" "take 4 (drop 4 ?sq)" "take 4 (drop 8 ?sq)" "take 4 (drop 12 ?sq)"] len small
    unfolding neon_step_def Let_def lane_sum_sq by simp
qed simp

subsection \<open>AVX2\<close>

text \<open>The difference modulo 256, read as a signed byte, without its sign.\<close>

definition wrapped_dist :: "byte \<Rightarrow> byte \<Rightarrow> nat" where
  "wrapped_dist x y = (if byte_dist x y \<le> 128 then byte_dist x y else 256 - byte_dist x y)"

lemma sint_byte_neg: "sint (z :: byte) < 0 \<longleftrightarrow> 128 \<le> unat z"
proof -
  have z: "0 \<le> uint z" "uint z < 256" using unsigned_less [of z, where ?'a = int] by simp_all
  have half: "(u div 128 mod 2 = 1) = (128 \<le> u)" if "0 \<le> u" "u < 256" for u :: int using that by presburger
  have "sint z < 0 \<longleftrightarrow> bit (uint z) 7" by (simp add: sint_uint)
  also have "\<dots> \<longleftrightarrow> 128 \<le> uint z" using half [OF z] by (simp add: bit_iff_odd odd_iff_mod_2_eq_one)
  finally show ?thesis by (metis nat_le_iff of_nat_unat of_nat_le_iff of_nat_numeral)
qed

lemma len8: "LENGTH(8) = 8" and power_256: "2 ^ 8 = (256 :: nat)"
  by simp_all

lemma unat_abs_sub: "unat (abs_epi8 (x - y)) = wrapped_dist x y"
proof -
  have x: "unat x < 256" and y: "unat y < 256"
    using unsigned_less [of x, where ?'a = nat] unsigned_less [of y, where ?'a = nat] by simp_all
  have neg: "unat (- z) = (if unat z = 0 then 0 else 256 - unat z)" for z :: byte
    using unat_sub_if' [of 0 z] by simp
  have sub: "unat (x - y) = (if unat y \<le> unat x then unat x - unat y else unat x + 256 - unat y)"
    using unat_sub_if' [of x y] by (simp only: word_size len8 power_256)
  show ?thesis
  proof (cases "unat y \<le> unat x")
    case True
    then have "unat (x - y) = unat x - unat y" "byte_dist x y = unat x - unat y" using sub by (simp_all add: byte_dist_def)
    then show ?thesis using x by (auto simp: abs_epi8_def sint_byte_neg wrapped_dist_def neg simp del: minus_diff_eq)
  next
    case False
    then have "unat (x - y) = unat x + 256 - unat y" "byte_dist x y = unat y - unat x" using sub by (simp_all add: byte_dist_def)
    then show ?thesis using y False by (auto simp: abs_epi8_def sint_byte_neg wrapped_dist_def neg simp del: minus_diff_eq)
  qed
qed

lemma unat_scast: "unat (scast (ucast (d :: byte) :: u16) :: u32) = unat d"
proof -
  have "uint d < 256" using unsigned_less [of d, where ?'a = int] by simp
  then have "uint (ucast d :: u16) = uint d" "uint d < 32768" by (simp_all add: unsigned_ucast_eq) (transfer, simp add: take_bit_take_bit)
  then have "sint (ucast d :: u16) = uint d" using signed_take_bit_int_eq_self [of 15 "uint d"] unsigned_greater_eq [of d, where ?'a = int] by (simp add: sint_uint)
  then have "(scast (ucast d :: u16) :: u32) = of_nat (unat d)" by (metis of_int_sint of_int_of_nat_eq of_nat_unat)
  moreover have "unat d < 4294967296" using unsigned_less [of d, where ?'a = nat] by simp
  ultimately show ?thesis by (simp only: unat_of_nat_u32)
qed

lemma madd_sq_sum:
  "even (length ds) \<Longrightarrow> lane_sum (madd_sq (map ucast ds)) = sum_list (map (\<lambda>d :: byte. (unat d)\<^sup>2) ds)"
proof (induction ds rule: induct_list012)
  case (3 x y zs)
  have small: "(unat d)\<^sup>2 \<le> 65025" for d :: byte
    using power_mono [of "unat d" 255 2] unsigned_less [of d, where ?'a = nat] by simp
  have sq: "unat ((scast (ucast d :: u16) :: u32) * scast (ucast d :: u16)) = (unat d)\<^sup>2" for d :: byte
    using small [of d] by (simp add: unat_word_ariths(2) unat_scast power2_eq_square)
  have "unat ((scast (ucast x :: u16) :: u32) * scast (ucast x :: u16) + scast (ucast y :: u16) * scast (ucast y :: u16)) =
      (unat x)\<^sup>2 + (unat y)\<^sup>2"
    using small [of x] small [of y] by (subst unat_add_less) (simp_all add: sq)
  then show ?case using 3 by (simp add: lane_sum_def)
qed (simp_all add: lane_sum_def)

lemma length_madd_sq: "length (madd_sq ws) = length ws div 2"
  by (induction ws rule: madd_sq.induct) auto

interpretation avx2: lane_kernel 32 8 avx2_step "\<lambda>x y. (wrapped_dist x y)\<^sup>2"
proof
  fix va vb :: bytes and acc :: "u32 list"
  assume len: "length va = 32" "length vb = 32" "length acc = 8"
  define d where "d = map abs_epi8 (map2 (-) va vb)"
  have dlen: "length d = 32" using len by (simp add: d_def)
  have step: "avx2_step va vb acc = lane_add (lane_add acc (madd_sq (map ucast (take 16 d)))) (madd_sq (map ucast (take 16 (drop 16 d))))"
    by (simp only: avx2_step_def Let_def d_def)
  have lens: "length (madd_sq (map ucast (take 16 d))) = 8" "length (madd_sq (map ucast (take 16 (drop 16 d)))) = 8"
    using dlen by (simp_all add: length_madd_sq)
  show "length (avx2_step va vb acc) = 8" using len lens by (simp add: step)
  assume small: "lane_sum acc + pair_sum (\<lambda>x y. (wrapped_dist x y)\<^sup>2) va vb < 2 ^ 32"
  have "pair_sum (\<lambda>x y. (wrapped_dist x y)\<^sup>2) va vb = sum_list (map (\<lambda>d. (unat d)\<^sup>2) d)"
    by (simp add: pair_sum_def comp_def split_def unat_abs_sub d_def)
  also have "\<dots> = sum_list (map (\<lambda>d. (unat d)\<^sup>2) (take 16 d)) + sum_list (map (\<lambda>d. (unat d)\<^sup>2) (drop 16 d))"
    by (metis append_take_drop_id map_append sum_list_append)
  also have "\<dots> = lane_sum (madd_sq (map ucast (take 16 d))) + lane_sum (madd_sq (map ucast (take 16 (drop 16 d))))"
    using dlen by (simp add: madd_sq_sum)
  finally have sum: "pair_sum (\<lambda>x y. (wrapped_dist x y)\<^sup>2) va vb = \<dots>" .
  show "lane_sum (avx2_step va vb acc) = lane_sum acc + pair_sum (\<lambda>x y. (wrapped_dist x y)\<^sup>2) va vb"
    unfolding step sum by (rule lane_add_two [OF len(3) lens]) (use small sum in simp)
qed simp

section \<open>The theorems\<close>

lemma unat_sum_list: "lane_sum acc < 2 ^ 32 \<Longrightarrow> unat (sum_list acc) = lane_sum acc"
proof (induction acc)
  case (Cons x acc)
  then show ?case using unat_add_less [of x "sum_list acc"] by (simp add: lane_sum_def)
qed (simp add: lane_sum_def)

lemma unat_wide_sum:
  "unat tot + lane_sum acc < 2 ^ 64 \<Longrightarrow> unat (foldl (\<lambda>tot t. tot + ucast t) (tot :: u64) acc) = unat tot + lane_sum acc"
proof (induction acc arbitrary: tot)
  case (Cons x acc)
  have "unat (tot + ucast x) = unat tot + unat x"
    using Cons.prems unat_add_less [of tot "ucast x"] by (simp add: lane_sum_def unat_widen)
  then show ?case using Cons.IH [of "tot + ucast x"] Cons.prems by (simp add: lane_sum_def)
qed (simp add: lane_sum_def)

abbreviation exact_sum :: "bytes \<Rightarrow> bytes \<Rightarrow> nat" where
  "exact_sum \<equiv> pair_sum (\<lambda>x y. (byte_dist x y)\<^sup>2)"

abbreviation wrapped_sum :: "bytes \<Rightarrow> bytes \<Rightarrow> nat" where
  "wrapped_sum \<equiv> pair_sum (\<lambda>x y. (wrapped_dist x y)\<^sup>2)"

lemma wrapped_le: "wrapped_dist x y \<le> byte_dist x y"
  by (auto simp: wrapped_dist_def)

lemma wrapped_sq_le: "(wrapped_dist x y)\<^sup>2 \<le> 65025"
  using byte_dist_sq_le [of x y] wrapped_le [of x y] by (meson le_trans power_mono zero_le)

lemma small_sums:
  assumes "length a \<le> 66051"
  shows "exact_sum a b < 2 ^ 32" and "wrapped_sum a b < 2 ^ 32"
  using pair_sum_bound [of "\<lambda>x y. (byte_dist x y)\<^sup>2" 65025 a b] pair_sum_bound [of "\<lambda>x y. (wrapped_dist x y)\<^sup>2" 65025 a b]
    byte_dist_sq_le wrapped_sq_le assms by auto

lemma two_32: "(2 :: nat) ^ 32 + 2 ^ 32 \<le> 2 ^ 64"
  by simp

lemma sq8_scalar_sum:
  assumes "length a = length b" and "length a \<le> 66051"
  shows "unat (sq8_total_scalar a b) = exact_sum a b"
  using unat_tail_sum [OF assms(1), of 0] small_sums(1) [OF assms(2), of b] by (simp add: sq8_total_scalar_def)

lemma sq8_neon_sum:
  assumes "length a = length b" and "length a \<le> 66051"
  shows "unat (sq8_total_neon a b) = exact_sum a b"
proof -
  let ?k = "16 * (length a div 16)"
  note small = small_sums(1) [OF assms(2), of b]
  note split = pair_sum_take_drop [OF assms(1), of "\<lambda>x y. (byte_dist x y)\<^sup>2" ?k]
  obtain acc where loop: "simd_loop 16 neon_step a b (replicate 4 0) = (acc, drop ?k a, drop ?k b)"
    and sum: "lane_sum acc = exact_sum (take ?k a) (take ?k b)"
    using neon.loop_sum [OF assms(1), of "replicate 4 0"] small by auto
  have "unat (ucast (sum_list acc) :: u64) = exact_sum (take ?k a) (take ?k b)"
    using unat_sum_list [of acc] sum small split by (simp add: unat_widen)
  moreover have "unat (ucast (sum_list acc) :: u64) + exact_sum (drop ?k a) (drop ?k b) < 2 ^ 64"
    unfolding calculation using small split two_32 by linarith
  ultimately have "unat (tail_sum (drop ?k a) (drop ?k b) (ucast (sum_list acc))) = exact_sum a b"
    using unat_tail_sum [of "drop ?k a" "drop ?k b" "ucast (sum_list acc)"] assms(1) split by (simp only: length_drop)
  then show ?thesis by (simp only: sq8_total_neon_def loop Let_def prod.case)
qed

lemma sq8_avx2_sum:
  assumes "length a = length b" and "length a \<le> 66051"
  shows "unat (sq8_total_avx2 a b) = wrapped_sum (take (32 * (length a div 32)) a) (take (32 * (length a div 32)) b) +
    exact_sum (drop (32 * (length a div 32)) a) (drop (32 * (length a div 32)) b)"
proof -
  let ?k = "32 * (length a div 32)"
  note small = small_sums [OF assms(2), of b]
  note split = pair_sum_take_drop [OF assms(1), of _ ?k]
  obtain acc where loop: "simd_loop 32 avx2_step a b (replicate 8 0) = (acc, drop ?k a, drop ?k b)"
    and sum: "lane_sum acc = wrapped_sum (take ?k a) (take ?k b)"
    using avx2.loop_sum [OF assms(1), of "replicate 8 0"] small(2) by auto
  let ?tot = "foldl (\<lambda>tot t. tot + ucast t) (0 :: u64) acc"
  have "lane_sum acc < 2 ^ 32" using sum small(2) split [of "\<lambda>x y. (wrapped_dist x y)\<^sup>2"] by simp
  then have "unat ?tot = wrapped_sum (take ?k a) (take ?k b)" using unat_wide_sum [of 0 acc] sum by simp
  moreover have "unat ?tot + exact_sum (drop ?k a) (drop ?k b) < 2 ^ 64"
    unfolding calculation using small split [of "\<lambda>x y. (wrapped_dist x y)\<^sup>2"] split [of "\<lambda>x y. (byte_dist x y)\<^sup>2"] two_32 by linarith
  ultimately have "unat (tail_sum (drop ?k a) (drop ?k b) ?tot) = wrapped_sum (take ?k a) (take ?k b) + exact_sum (drop ?k a) (drop ?k b)"
    using unat_tail_sum [of "drop ?k a" "drop ?k b" ?tot] assms(1) by (simp only: length_drop)
  then show ?thesis by (simp only: sq8_total_avx2_def loop Let_def prod.case)
qed

text \<open>
  the NEON kernel is exact. For vectors of up to 66051 bytes the four 32-bit lanes cannot
  overflow, and the kernel computes the total of the scalar loop.
\<close>

theorem sq8_neon_equals_scalar:
  assumes "length a = length b" and "length a \<le> 66051"
  shows "sq8_total TargetNeon a b = sq8_total TargetOther a b"
  using sq8_neon_sum [OF assms] sq8_scalar_sum [OF assms] by (simp add: sq8_total_def word_unat_eq_iff)

theorem sq8_neon_equals_scalar_witness:
  "sq8_total TargetNeon (replicate 40 255) (replicate 40 3) = sq8_total TargetOther (replicate 40 255) (replicate 40 3)"
  by (rule sq8_neon_equals_scalar) simp_all

text \<open>
  C31: the AVX2 kernel is wrong for far bytes. It subtracts bytes modulo 256 and takes the absolute
  value of the signed result, so a difference \<open>d\<close> above 128 counts as \<open>256 - d\<close>. It agrees with the
  scalar loop exactly if no difference in the vectorised part, the first \<open>32 * (n div 32)\<close> bytes,
  exceeds 128; otherwise its total is too small.
\<close>

theorem sq8_avx2_exact_iff:
  assumes "length a = length b" and "length a \<le> 66051"
  shows "sq8_total TargetAvx2 a b \<le> sq8_total TargetOther a b \<and>
    (sq8_total TargetAvx2 a b = sq8_total TargetOther a b \<longleftrightarrow> (\<forall>i < 32 * (length a div 32). byte_dist (a ! i) (b ! i) \<le> 128))"
proof -
  let ?k = "32 * (length a div 32)"
  have k: "?k \<le> length a" by simp
  have len: "length (take ?k a) = ?k" "length (take ?k a) = length (take ?k b)" using k assms(1) by auto
  have w: "wrapped_sum (take ?k a) (take ?k b) = (\<Sum>i < ?k. (wrapped_dist (a ! i) (b ! i))\<^sup>2)"
    and e: "exact_sum (take ?k a) (take ?k b) = (\<Sum>i < ?k. (byte_dist (a ! i) (b ! i))\<^sup>2)"
    using pair_sum_nth [OF len(2)] len(1) by simp_all
  have term_le: "(wrapped_dist x y)\<^sup>2 \<le> (byte_dist x y)\<^sup>2" for x y using wrapped_le by (simp add: power_mono)
  have term_eq: "(wrapped_dist x y)\<^sup>2 = (byte_dist x y)\<^sup>2 \<longleftrightarrow> byte_dist x y \<le> 128" for x y
    by (auto simp: wrapped_dist_def)
  have le: "wrapped_sum (take ?k a) (take ?k b) \<le> exact_sum (take ?k a) (take ?k b)"
    unfolding w e by (intro sum_mono term_le)
  have eq: "wrapped_sum (take ?k a) (take ?k b) = exact_sum (take ?k a) (take ?k b) \<longleftrightarrow> (\<forall>i < ?k. byte_dist (a ! i) (b ! i) \<le> 128)"
    unfolding w e
  proof
    assume "(\<Sum>i < ?k. (wrapped_dist (a ! i) (b ! i))\<^sup>2) = (\<Sum>i < ?k. (byte_dist (a ! i) (b ! i))\<^sup>2)"
    from sum_mono_inv [OF this term_le] show "\<forall>i < ?k. byte_dist (a ! i) (b ! i) \<le> 128" using term_eq by auto
  next
    assume "\<forall>i < ?k. byte_dist (a ! i) (b ! i) \<le> 128"
    then show "(\<Sum>i < ?k. (wrapped_dist (a ! i) (b ! i))\<^sup>2) = (\<Sum>i < ?k. (byte_dist (a ! i) (b ! i))\<^sup>2)"
      by (intro sum.cong) (auto simp: term_eq)
  qed
  have av: "unat (sq8_total TargetAvx2 a b) = wrapped_sum (take ?k a) (take ?k b) + exact_sum (drop ?k a) (drop ?k b)"
    and sc: "unat (sq8_total TargetOther a b) = exact_sum (take ?k a) (take ?k b) + exact_sum (drop ?k a) (drop ?k b)"
    unfolding sq8_total_def target.case sq8_avx2_sum [OF assms] sq8_scalar_sum [OF assms]
    using pair_sum_take_drop [OF assms(1), of "\<lambda>x y. (byte_dist x y)\<^sup>2" ?k] by simp_all
  show ?thesis
    unfolding word_le_nat_alt word_unat_eq_iff av sc add_right_cancel eq using le by simp
qed

theorem sq8_avx2_exact_iff_witness:
  "sq8_total TargetAvx2 (replicate 32 255) (replicate 32 0) \<noteq> sq8_total TargetOther (replicate 32 255) (replicate 32 0)"
proof
  let ?a = "replicate 32 255 :: bytes" and ?b = "replicate 32 0 :: bytes"
  assume "sq8_total TargetAvx2 ?a ?b = sq8_total TargetOther ?a ?b"
  then have "\<forall>i < 32 * (length ?a div 32). byte_dist (?a ! i) (?b ! i) \<le> 128" using sq8_avx2_exact_iff [of ?a ?b] by simp
  then have "byte_dist (?a ! 0) (?b ! 0) \<le> 128" by (rule allE [of _ 0]) simp
  then show False by (simp add: byte_dist_def)
qed

end
