(* ===== verification/Quantizer.thy ===== *)
theory Quantizer
  imports Quant_Correct Byte_Stream
begin

text \<open>
  The quantizers of \<^verbatim>\<open>src/index\<close>: SQ8 (one byte per component), binary (one bit) and product
  quantization (one centroid index per subspace). Floats are bit patterns, the float unit is the
  argument \<open>F\<close>, and the order in which k-means draws its first centroids (\<^verbatim>\<open>std::shuffle\<close>) is the
  argument \<open>shuffle\<close>. A vector is the list of its components. What a failed \<^verbatim>\<open>load\<close> leaves in the
  object is not modelled.
\<close>

definition f_flt_max :: u32 where "f_flt_max = 0x7F7FFFFF"
definition f_flt_lowest :: u32 where "f_flt_lowest = 0xFF7FFFFF"

section \<open>SQ8\<close>

record sq8 =
  s_dim :: nat
  s_min :: u32
  s_max :: u32

definition sq8_new :: sq8 where
  "sq8_new = \<lparr>s_dim = 0, s_min = 0, s_max = f_one\<rparr>"

definition sq8_train :: "fops \<Rightarrow> u32 list list \<Rightarrow> nat \<Rightarrow> sq8 \<Rightarrow> status_code \<times> sq8" where
  "sq8_train F samples dim q =
     (if length samples = 0 \<or> dim = 0 then (kInvalidArgument, q)
      else
        let (mn, mx) = fold (\<lambda>v. fold (\<lambda>x (mn, mx). (f_min mn x, f_max mx x)) (take dim v)) samples (f_flt_max, f_flt_lowest);
            mx = (if flt_le mx mn then f_add F mn f_one else mx)
        in (kOk, q\<lparr>s_dim := dim, s_min := mn, s_max := mx\<rparr>))"

definition sq8_encode :: "fops \<Rightarrow> sq8 \<Rightarrow> u32 list \<Rightarrow> bytes" where
  "sq8_encode F q vec =
     (let scale = f_div F f_255 (f_sub F (s_max q) (s_min q)) in map (quant_byte F (s_min q) scale) (take (s_dim q) vec))"

definition sq8_distance_to_query :: "fops \<Rightarrow> target \<Rightarrow> sq8 \<Rightarrow> bytes \<Rightarrow> u32 list \<Rightarrow> u32" where
  "sq8_distance_to_query F T q code query = sq8_l2_query F T (take (s_dim q) code) (take (s_dim q) query) (s_min q) (s_max q)"

definition sq8_distance :: "fops \<Rightarrow> target \<Rightarrow> sq8 \<Rightarrow> bytes \<Rightarrow> bytes \<Rightarrow> u32" where
  "sq8_distance F T q a b =
     (let scale = f_div F (f_sub F (s_max q) (s_min q)) f_255
      in sq8_l2_bytes F T (take (s_dim q) a) (take (s_dim q) b) scale)"

definition sq8_code_bytes :: "sq8 \<Rightarrow> nat" where
  "sq8_code_bytes q = s_dim q"

definition sq8_save :: "sq8 \<Rightarrow> bytes" where
  "sq8_save q = put_u64 (of_nat (s_dim q)) @ put_u32 (s_min q) @ put_u32 (s_max q)"

definition rd_sq8 :: "sq8 reader" where
  "rd_sq8 = rd_bind rd_u64 (\<lambda>d. rd_bind rd_u32 (\<lambda>mn. rd_bind rd_u32 (\<lambda>mx.
     rd_return \<lparr>s_dim = unat d, s_min = mn, s_max = mx\<rparr>)))"

definition sq8_load :: "bytes \<Rightarrow> sq8 result" where
  "sq8_load bs = (case rd_sq8 bs of None \<Rightarrow> Inl kCorruption | Some (q, _) \<Rightarrow> Inr q)"

text \<open>Two private helpers that compare dequantized values; no other function calls them.\<close>

definition sq8_dequant :: "fops \<Rightarrow> sq8 \<Rightarrow> byte \<Rightarrow> u32" where
  "sq8_dequant F q b = f_add F (s_min q) (f_mul F (f_div F (f_of_u64 F (ucast b)) f_255) (f_sub F (s_max q) (s_min q)))"

definition sq_sum :: "fops \<Rightarrow> u32 \<Rightarrow> (u32 \<times> u32) list \<Rightarrow> u32" where
  "sq_sum F = foldl (\<lambda>acc (x, y). let d = f_sub F x y in f_add F acc (f_mul F d d))"

definition sq8_l2_dequant_query :: "fops \<Rightarrow> sq8 \<Rightarrow> bytes \<Rightarrow> u32 list \<Rightarrow> nat \<Rightarrow> u32" where
  "sq8_l2_dequant_query F q code other dim = sq_sum F 0 (zip (map (sq8_dequant F q) (take dim code)) other)"

definition sq8_l2_dequant :: "fops \<Rightarrow> sq8 \<Rightarrow> bytes \<Rightarrow> bytes \<Rightarrow> nat \<Rightarrow> u32" where
  "sq8_l2_dequant F q a b dim = sq_sum F 0 (zip (map (sq8_dequant F q) (take dim a)) (map (sq8_dequant F q) b))"

section \<open>Binary\<close>

definition bin_train :: "nat \<Rightarrow> nat \<Rightarrow> status_code \<times> nat" where
  "bin_train dim old = (if dim = 0 then (kInvalidArgument, old) else (kOk, dim))"

definition bin_code_bytes :: "nat \<Rightarrow> nat" where
  "bin_code_bytes dim = (dim + 7) div 8"

definition set_sign :: "u32 list \<Rightarrow> nat \<Rightarrow> bytes \<Rightarrow> bytes" where
  "set_sign vec j code = (if flt_le 0 (vec ! j) then code[j div 8 := code ! (j div 8) OR push_bit (j mod 8) 1] else code)"

definition bin_encode :: "nat \<Rightarrow> u32 list \<Rightarrow> bytes" where
  "bin_encode dim vec = fold (set_sign vec) [0..<dim] (replicate (bin_code_bytes dim) 0)"

definition bin_distance_to_query :: "fops \<Rightarrow> nat \<Rightarrow> bytes \<Rightarrow> u32 list \<Rightarrow> u32" where
  "bin_distance_to_query F dim code query = binary_hamming_query F code (take dim query)"

definition bin_distance :: "fops \<Rightarrow> nat \<Rightarrow> bytes \<Rightarrow> bytes \<Rightarrow> u32" where
  "bin_distance F dim a b = binary_hamming F (take (bin_code_bytes dim) a) (take (bin_code_bytes dim) b)"

text \<open>A private helper that reads the signs of the query the way \<^verbatim>\<open>encode\<close> does; it is not called either.\<close>

definition sign_bytes :: "nat \<Rightarrow> u32 list \<Rightarrow> bytes" where
  "sign_bytes dim query = map (pack_byte (\<lambda>j. flt_le 0 (query ! j)) dim) [0..<bin_code_bytes dim]"

definition bin_hamming :: "fops \<Rightarrow> nat \<Rightarrow> bytes \<Rightarrow> u32 list \<Rightarrow> u32" where
  "bin_hamming F dim code query = f_of_u64 F (hamming_total code (sign_bytes dim query))"

definition bin_save :: "nat \<Rightarrow> bytes" where
  "bin_save dim = put_u64 (of_nat dim)"

definition bin_load :: "bytes \<Rightarrow> nat result" where
  "bin_load bs = (case rd_u64 bs of None \<Rightarrow> Inl kCorruption | Some (d, _) \<Rightarrow> Inr (unat d))"

section \<open>Product quantization\<close>

record pq =
  p_dim :: nat
  p_m :: nat
  p_k :: nat
  p_subdim :: nat
  p_books :: "u32 list list list"

definition pq_new :: "nat \<Rightarrow> nat \<Rightarrow> pq" where
  "pq_new m k = \<lparr>p_dim = 0, p_m = max m 1, p_k = max k 2, p_subdim = 0, p_books = []\<rparr>"

definition sub_sum :: "fops \<Rightarrow> u32 list \<Rightarrow> u32 list \<Rightarrow> u32" where
  "sub_sum F p c = sq_sum F 0 (zip p c)"

text \<open>The nearest centroid: the first with the least sum below \<^verbatim>\<open>FLT_MAX\<close>, centroid 0 if there is none.\<close>

definition pick_centroid :: "fops \<Rightarrow> u32 list \<Rightarrow> u32 list list \<Rightarrow> nat" where
  "pick_centroid F p cents =
     snd (fold (\<lambda>c (best, best_c). let s = sub_sum F p (cents ! c) in if flt_less s best then (s, c) else (best, best_c))
           [0..<length cents] (f_flt_max, 0))"

definition add_point :: "fops \<Rightarrow> u32 list \<times> nat \<Rightarrow> u32 list list \<times> nat list \<Rightarrow> u32 list list \<times> nat list" where
  "add_point F pa sc = (case (pa, sc) of ((p, a), (sums, counts)) \<Rightarrow>
     (sums[a := map2 (f_add F) (sums ! a) p], counts[a := counts ! a + 1]))"

definition kmeans_step :: "fops \<Rightarrow> nat \<Rightarrow> u32 list list \<Rightarrow> u32 list list \<Rightarrow> u32 list list" where
  "kmeans_step F subdim points cents =
     (let assign = map (\<lambda>p. pick_centroid F p cents) points;
          n = length cents;
          (sums, counts) = fold (add_point F) (zip points assign) (replicate n (replicate subdim 0), replicate n 0)
      in map (\<lambda>c. if counts ! c > 0 then map (\<lambda>s. f_div F s (f_of_u64 F (of_nat (counts ! c)))) (sums ! c) else cents ! c) [0..<n])"

fun kmeans_iter :: "fops \<Rightarrow> nat \<Rightarrow> u32 list list \<Rightarrow> nat \<Rightarrow> u32 list list \<Rightarrow> u32 list list" where
  "kmeans_iter F subdim points 0 cents = cents"
| "kmeans_iter F subdim points (Suc n) cents = kmeans_iter F subdim points n (kmeans_step F subdim points cents)"

definition kmeans :: "fops \<Rightarrow> (nat \<Rightarrow> nat list) \<Rightarrow> u32 list list \<Rightarrow> nat \<Rightarrow> nat \<Rightarrow> nat \<Rightarrow> u32 list list" where
  "kmeans F shuffle points k iters subdim =
     (let cents = (if length points \<le> k then points
                   else map (\<lambda>i. points ! i) (take k (shuffle (length points))))
      in kmeans_iter F subdim points iters cents)"

definition subvector :: "nat \<Rightarrow> nat \<Rightarrow> 'a list \<Rightarrow> 'a list" where
  "subvector w s xs = take w (drop (s * w) xs)"

definition pq_train :: "fops \<Rightarrow> (nat \<Rightarrow> nat \<Rightarrow> nat list) \<Rightarrow> u32 list list \<Rightarrow> nat \<Rightarrow> pq \<Rightarrow> status_code \<times> pq" where
  "pq_train F shuffle samples dim q =
     (if length samples = 0 \<or> dim = 0 \<or> dim < p_m q then (kInvalidArgument, q)
      else
        let subdim = dim div p_m q; q = q\<lparr>p_dim := dim, p_subdim := subdim\<rparr>
        in if subdim = 0 \<or> dim mod p_m q \<noteq> 0 then (kInvalidArgument, q)
           else (kOk, q\<lparr>p_books := map (\<lambda>s. kmeans F (shuffle s) (map (subvector subdim s) samples) (p_k q) 8 subdim) [0..<p_m q]\<rparr>))"

definition pq_encode :: "fops \<Rightarrow> pq \<Rightarrow> u32 list \<Rightarrow> bytes" where
  "pq_encode F q vec = map (\<lambda>s. of_nat (pick_centroid F (subvector (p_subdim q) s vec) (p_books q ! s))) [0..<p_m q]"

definition pq_sum :: "fops \<Rightarrow> (nat \<Rightarrow> u32 list) \<Rightarrow> (nat \<Rightarrow> u32 list) \<Rightarrow> nat \<Rightarrow> u32" where
  "pq_sum F x y m =
     foldl (\<lambda>acc s. sq_sum F acc (zip (x s) (y s))) 0 [0..<m]"

definition pq_distance_to_query :: "fops \<Rightarrow> pq \<Rightarrow> bytes \<Rightarrow> u32 list \<Rightarrow> u32" where
  "pq_distance_to_query F q code query =
     pq_sum F (\<lambda>s. subvector (p_subdim q) s query) (\<lambda>s. p_books q ! s ! unat (code ! s)) (p_m q)"

definition pq_distance :: "fops \<Rightarrow> pq \<Rightarrow> bytes \<Rightarrow> bytes \<Rightarrow> u32" where
  "pq_distance F q a b =
     pq_sum F (\<lambda>s. p_books q ! s ! unat (a ! s)) (\<lambda>s. p_books q ! s ! unat (b ! s)) (p_m q)"

definition pq_code_bytes :: "pq \<Rightarrow> nat" where
  "pq_code_bytes q = p_m q"

definition put_floats :: "u32 list \<Rightarrow> bytes" where
  "put_floats v = concat (map put_u32 v)"

definition put_book :: "u32 list list \<Rightarrow> bytes" where
  "put_book cb = concat (map put_floats cb)"

definition pq_save :: "pq \<Rightarrow> bytes" where
  "pq_save q = put_u64 (of_nat (p_dim q)) @ put_u64 (of_nat (p_m q)) @ put_u64 (of_nat (p_k q)) @
     put_u64 (of_nat (p_subdim q)) @ concat (map put_book (p_books q))"

definition rd_pq_head :: "(nat \<times> nat \<times> nat \<times> nat) reader" where
  "rd_pq_head = rd_bind rd_u64 (\<lambda>d. rd_bind rd_u64 (\<lambda>m. rd_bind rd_u64 (\<lambda>k. rd_bind rd_u64 (\<lambda>sd.
     rd_return (unat d, unat m, unat k, unat sd)))))"

definition rd_books :: "nat \<Rightarrow> nat \<Rightarrow> nat \<Rightarrow> u32 list list list reader" where
  "rd_books m k subdim = rd_many (rd_many (rd_floats subdim) k) m"

definition pq_load :: "bytes \<Rightarrow> pq result" where
  "pq_load bs =
     (case rd_pq_head bs of
        None \<Rightarrow> Inl kCorruption
      | Some ((d, m, k, sd), bs) \<Rightarrow>
          if d = 0 \<or> m = 0 \<or> k = 0 \<or> sd = 0 then Inl kCorruption
          else case rd_books m k sd bs of
            None \<Rightarrow> Inl kCorruption
          | Some (books, _) \<Rightarrow> Inr \<lparr>p_dim = d, p_m = m, p_k = k, p_subdim = sd, p_books = books\<rparr>)"

section \<open>The factory\<close>

datatype quant_mode = QNone | QSQ8 | QBinary | QPQ
datatype quantizer = Sq8 sq8 | Binary nat | Pq pq

definition make_quantizer :: "quant_mode \<Rightarrow> nat \<Rightarrow> nat \<Rightarrow> quantizer option" where
  "make_quantizer mode subspaces centroids =
     (case mode of QSQ8 \<Rightarrow> Some (Sq8 sq8_new) | QBinary \<Rightarrow> Some (Binary 0) | QPQ \<Rightarrow> Some (Pq (pq_new subspaces centroids))
      | QNone \<Rightarrow> None)"

end
