(* ===== verification/Quantizer_Correct.thy ===== *)
theory Quantizer_Correct
  imports Quantizer
begin

text \<open>
  What the quantizers guarantee: distances to a query are distances of codes, Hamming distances
  count sign differences, codes name existing centroids, and what is saved is loaded.
\<close>

section \<open>Sign bits\<close>

lemma pack_byte_bit:
  "bit (pack_byte p dim b) j \<longleftrightarrow> j < 8 \<and> b * 8 + j < dim \<and> p (b * 8 + j)"
proof -
  let ?f = "\<lambda>bits j. if b * 8 + j < dim \<and> p (b * 8 + j) then bits OR push_bit j 1 else bits"
  have "bit (foldl ?f x [0..<n]) j \<longleftrightarrow> bit x j \<or> j < n \<and> b * 8 + j < dim \<and> p (b * 8 + j)" if "n \<le> 8" for x :: byte and n
    using that
  proof (induction n)
    case (Suc n)
    have "bit (push_bit n (1 :: byte)) j \<longleftrightarrow> j = n" using Suc.prems by (auto simp: bit_simps)
    then show ?case using Suc by (auto simp: bit_or_iff less_Suc_eq)
  qed simp
  from this [of 8 0] show ?thesis by (simp add: pack_byte_def)
qed

lemma set_sign_length [simp]: "length (set_sign vec j code) = length code"
  by (simp add: set_sign_def)

lemma bin_encode_bits:
  assumes "n \<le> 8 * length code"
  shows "length (fold (set_sign vec) [0..<n] code) = length code \<and>
    (\<forall>i < length code. \<forall>b < 8. bit (fold (set_sign vec) [0..<n] code ! i) b \<longleftrightarrow>
       bit (code ! i) b \<or> i * 8 + b < n \<and> flt_le 0 (vec ! (i * 8 + b)))"
  using assms
proof (induction n)
  case (Suc n)
  let ?c = "fold (set_sign vec) [0..<n] code"
  have len: "length ?c = length code"
    and IH: "\<forall>i < length code. \<forall>b < 8. bit (?c ! i) b \<longleftrightarrow> bit (code ! i) b \<or> i * 8 + b < n \<and> flt_le 0 (vec ! (i * 8 + b))"
    using Suc by auto
  have n: "n div 8 < length ?c" using Suc.prems len by auto
  have at: "i * 8 + b < Suc n \<longleftrightarrow> i * 8 + b < n \<or> i = n div 8 \<and> b = n mod 8" if "b < 8" for i b
  proof -
    have "i * 8 + b = n \<longleftrightarrow> i = n div 8 \<and> b = n mod 8" using that by (metis add.commute div_mult_mod_eq div_mult_self1_is_m
      div_less mod_less mod_mult_self1 div_mult_self1 add_0 zero_neq_numeral)
    then show ?thesis by (simp add: less_Suc_eq)
  qed
  have "bit (set_sign vec n ?c ! i) b \<longleftrightarrow> bit (?c ! i) b \<or> i = n div 8 \<and> b = n mod 8 \<and> flt_le 0 (vec ! n)"
    if "i < length code" "b < 8" for i b
  proof -
    have "bit (push_bit (n mod 8) (1 :: byte)) b \<longleftrightarrow> b = n mod 8" using that by (auto simp: bit_simps)
    then show ?thesis using that n len by (auto simp: set_sign_def nth_list_update bit_or_iff)
  qed
  moreover have "n div 8 * 8 + n mod 8 = n" by simp
  ultimately show ?case using IH at len by (auto simp: less_Suc_eq)
qed simp

lemma bin_encode_bit:
  "i < bin_code_bytes dim \<Longrightarrow> b < 8 \<Longrightarrow>
    bit (bin_encode dim vec ! i) b \<longleftrightarrow> i * 8 + b < dim \<and> flt_le 0 (vec ! (i * 8 + b))"
  "length (bin_encode dim vec) = bin_code_bytes dim"
proof -
  have "dim \<le> 8 * length (replicate (bin_code_bytes dim) (0 :: byte))" by (simp add: bin_code_bytes_def)
  from bin_encode_bits [OF this, of vec] show
    "i < bin_code_bytes dim \<Longrightarrow> b < 8 \<Longrightarrow>
      bit (bin_encode dim vec ! i) b \<longleftrightarrow> i * 8 + b < dim \<and> flt_le 0 (vec ! (i * 8 + b))"
    "length (bin_encode dim vec) = bin_code_bytes dim"
    by (simp_all add: bin_encode_def)
qed

lemma popcount_sum: "popcount b = (\<Sum>j < 8. if bit b j then 1 else 0)"
proof -
  have "popcount b = card {j \<in> {..<8}. bit b j}"
    using distinct_card [of "filter (bit b) [0..<8]"] by (simp add: popcount_def atLeast0LessThan Collect_conj_eq lessThan_def)
  then show ?thesis by (simp add: sum.If_cases Int_def)
qed

lemma popcount_le: "popcount b \<le> 8"
  unfolding popcount_def by (rule order_trans [OF length_filter_le]) simp

lemma hamming_sum:
  "length a = length b \<Longrightarrow> 8 * length a < 2 ^ 64 \<Longrightarrow>
    unat (hamming_total a b) = (\<Sum>i < length a. popcount (a ! i XOR b ! i))"
proof -
  assume len: "length a = length b" and small: "8 * length a < 2 ^ 64"
  have "unat (foldl (\<lambda>tot (x, y). tot + of_nat (popcount (x XOR y))) (t :: u64) (zip a b)) =
      unat t + pair_sum (\<lambda>x y. popcount (x XOR y)) a b" if "unat t + 8 * length a < 2 ^ 64" for t
    using len that
  proof (induction a b arbitrary: t rule: list_induct2)
    case (Cons x xs y ys)
    have "unat (of_nat (popcount (x XOR y)) :: u64) = popcount (x XOR y)" using popcount_le [of "x XOR y"] by simp
    then have "unat (t + of_nat (popcount (x XOR y))) = unat t + popcount (x XOR y)"
      using Cons.prems popcount_le [of "x XOR y"] unat_add_less [of t "of_nat (popcount (x XOR y))"] by simp
    then show ?case
      using Cons.IH [of "t + of_nat (popcount (x XOR y))"] Cons.prems popcount_le [of "x XOR y"] by (simp add: pair_sum_def)
  qed (simp add: pair_sum_def)
  from this [of 0] small show ?thesis by (simp add: hamming_total_def pair_sum_nth [OF len])
qed

lemma sum_blocks: "(\<Sum>i < n. \<Sum>b < 8. f (i * 8 + b)) = (\<Sum>j < n * 8. f j)" for f :: "nat \<Rightarrow> nat"
proof (induction n)
  case (Suc n)
  have "(\<Sum>j < Suc n * 8. f j) = (\<Sum>j < n * 8. f j) + (\<Sum>j = n * 8..<n * 8 + 8. f j)"
    using sum.atLeastLessThan_concat [of 0 "n * 8" "n * 8 + 8" f] by (simp add: atLeast0LessThan add.commute)
  also have "(\<Sum>j = n * 8..<n * 8 + 8. f j) = (\<Sum>b < 8. f (n * 8 + b))"
    using sum.shift_bounds_nat_ivl [of f 0 "n * 8" 8] by (simp add: atLeast0LessThan add.commute)
  finally show ?case using Suc by simp
qed simp

lemma hamming_packed:
  assumes "length a = bin_code_bytes dim" and "length b = bin_code_bytes dim" and "dim < 2 ^ 32"
    and "\<And>i j. i < bin_code_bytes dim \<Longrightarrow> j < 8 \<Longrightarrow> bit (a ! i) j \<longleftrightarrow> i * 8 + j < dim \<and> p (i * 8 + j)"
    and "\<And>i j. i < bin_code_bytes dim \<Longrightarrow> j < 8 \<Longrightarrow> bit (b ! i) j \<longleftrightarrow> i * 8 + j < dim \<and> q (i * 8 + j)"
  shows "unat (hamming_total a b) = card {j. j < dim \<and> p j \<noteq> q j}"
proof -
  let ?n = "bin_code_bytes dim" and ?f = "\<lambda>j. if j < dim \<and> p j \<noteq> q j then 1 else 0 :: nat"
  have n: "dim \<le> ?n * 8" "?n * 8 < dim + 8" by (simp_all add: bin_code_bytes_def)
  have "unat (hamming_total a b) = (\<Sum>i < ?n. popcount (a ! i XOR b ! i))"
    using hamming_sum [of a b] assms(1-3) n by simp
  also have "\<dots> = (\<Sum>i < ?n. \<Sum>j < 8. ?f (i * 8 + j))"
    unfolding popcount_sum using assms(4,5) by (intro sum.cong refl) (auto simp: bit_xor_iff)
  also have "\<dots> = (\<Sum>j < ?n * 8. ?f j)" by (rule sum_blocks)
  also have "\<dots> = card {j. j < dim \<and> p j \<noteq> q j}"
    using n(1) by (simp add: sum.If_cases) (rule arg_cong [of _ _ card], auto)
  finally show ?thesis .
qed

lemma sign_readings: "flt_le 0 x \<noteq> (drop_bit 31 x = 0) \<longleftrightarrow> x = 0x80000000 \<or> flt_nan x \<and> \<not> bit x 31" for x :: u32
proof -
  have sign: "drop_bit 31 x = 0 \<longleftrightarrow> \<not> bit x 31"
  proof
    assume "drop_bit 31 x = 0"
    then have "\<not> bit (drop_bit 31 x) 0" by simp
    then show "\<not> bit x 31" by (simp add: bit_drop_bit_eq)
  next
    assume no: "\<not> bit x 31"
    show "drop_bit 31 x = 0"
    proof (rule bit_word_eqI)
      fix n assume "n < LENGTH(32)"
      show "bit (drop_bit 31 x) n \<longleftrightarrow> bit 0 n"
        using no bit_imp_le_length [of x "31 + n"] by (cases n) (auto simp: bit_drop_bit_eq)
    qed
  qed
  have zero: "bit x 31 \<and> take_bit 31 x = 0 \<longleftrightarrow> x = 0x80000000"
  proof
    assume x: "bit x 31 \<and> take_bit 31 x = 0"
    show "x = 0x80000000"
    proof (rule bit_word_eqI)
      fix n assume n: "n < LENGTH(32)"
      have "(0x80000000 :: u32) = push_bit 31 1" by (simp add: push_bit_eq_mult)
      then have "bit (0x80000000 :: u32) n \<longleftrightarrow> n = 31" using n by (simp only: bit_push_bit_iff bit_1_iff) auto
      moreover have "bit x n \<longleftrightarrow> n = 31"
      proof (cases "n = 31")
        case False
        then show ?thesis using x n bit_take_bit_iff [of 31 x n] by auto
      qed (use x in simp)
      ultimately show "bit x n \<longleftrightarrow> bit (0x80000000 :: u32) n" by simp
    qed
  qed (simp add: bit_iff_odd)
  show ?thesis using sign zero by (auto simp: flt_le_def flt_key_def flt_nan_def uint_0_iff)
qed

lemma binary_sign_count:
  assumes "length v = length q" and "length v < 2 ^ 32"
  shows "unat (hamming_total (bin_encode (length v) v) (query_bits q)) =
    card {j. j < length v \<and> flt_le 0 (v ! j) \<noteq> (drop_bit 31 (q ! j) = 0)}"
proof (rule hamming_packed [OF bin_encode_bit(2)])
  show "length (query_bits q) = bin_code_bytes (length v)" using assms(1) by (simp add: query_bits_def bin_code_bytes_def Let_def)
next
  fix i j :: nat
  assume "i < bin_code_bytes (length v)" and "j < 8"
  then show "bit (query_bits q ! i) j \<longleftrightarrow> i * 8 + j < length v \<and> drop_bit 31 (q ! (i * 8 + j)) = 0"
    using assms(1) by (simp add: query_bits_def bin_code_bytes_def Let_def pack_byte_bit)
qed (use assms(2) bin_encode_bit(1) in auto)

text \<open>
  binary codes count sign differences. For vectors of up to \<open>2^32\<close> components the Hamming
  distance of the code of \<open>v\<close> to a query is the number of components in which \<open>v\<close> is at least 0
  and the sign bit of the query is set, or the other way round.
\<close>

theorem binary_counts_signs:
  assumes "length v = length q" and "length v < 2 ^ 32"
  shows "unat (hamming_total (bin_encode (length v) v) (query_bits q)) =
    card {j. j < length v \<and> flt_le 0 (v ! j) \<noteq> (drop_bit 31 (q ! j) = 0)}"
  by (rule binary_sign_count [OF assms])

theorem binary_counts_signs_witness:
  "unat (hamming_total (bin_encode (length [0x3F800000, 0xBF800000 :: u32]) [0x3F800000, 0xBF800000]) (query_bits [0x3F800000, 0x3F800000])) =
    card {j. j < length [0x3F800000, 0xBF800000 :: u32] \<and>
      flt_le 0 ([0x3F800000, 0xBF800000] ! j) \<noteq> (drop_bit 31 ([0x3F800000, 0x3F800000 :: u32] ! j) = 0)}"
  by (rule binary_counts_signs) simp_all

text \<open>
  The sign is read in two ways: the encoder tests \<open>x >= 0\<close>, the query its sign bit. They differ for
  \<open>-0.0\<close>, and for a \<open>NaN\<close> whose sign bit is clear; a vector with such a component has a positive
  distance to its own code.
\<close>

theorem binary_self_distance:
  assumes "length v < 2 ^ 32"
  shows "hamming_total (bin_encode (length v) v) (query_bits v) = 0 \<longleftrightarrow>
    (\<forall>x \<in> set v. x \<noteq> 0x80000000 \<and> (flt_nan x \<longrightarrow> bit x 31))"
proof -
  let ?bad = "\<lambda>x :: u32. flt_le 0 x \<noteq> (drop_bit 31 x = 0)"
  have bad: "?bad x \<longleftrightarrow> x = 0x80000000 \<or> flt_nan x \<and> \<not> bit x 31" for x by (rule sign_readings)
  have "hamming_total (bin_encode (length v) v) (query_bits v) = 0 \<longleftrightarrow> card {j. j < length v \<and> ?bad (v ! j)} = 0"
    using binary_sign_count [OF refl assms] by (simp add: unat_eq_0 [symmetric])
  also have "\<dots> \<longleftrightarrow> (\<forall>x \<in> set v. \<not> ?bad x)" by (auto simp: card_eq_0_iff all_set_conv_all_nth)
  finally show ?thesis unfolding bad by auto
qed

text \<open>The private \<^verbatim>\<open>hamming\<close> reads both signs the same way, so a vector is at distance 0 from its own code.\<close>

theorem bin_hamming_self:
  assumes "dim < 2 ^ 32"
  shows "hamming_total (bin_encode dim v) (sign_bytes dim v) = 0"
proof -
  have "unat (hamming_total (bin_encode dim v) (sign_bytes dim v)) =
      card {j. j < dim \<and> flt_le 0 (v ! j) \<noteq> flt_le 0 (v ! j)}"
    by (rule hamming_packed [OF bin_encode_bit(2) _ assms]) (simp_all add: sign_bytes_def pack_byte_bit bin_encode_bit(1))
  then show ?thesis by (simp add: unat_eq_0)
qed

section \<open>SQ8\<close>

lemma sq8_query_is_encode:
  assumes "flt_le (s_max q) (s_min q) \<Longrightarrow> s_max q = f_add F (s_min q) f_one"
  shows "sq8_distance_to_query F T q code query =
    sq8_l2_bytes F T (take (s_dim q) code) (sq8_encode F q query)
      (f_div F f_one (f_div F f_255 (f_sub F (s_max q) (s_min q))))"
proof -
  have "(if flt_le (s_max q) (s_min q) then f_add F (s_min q) f_one else s_max q) = s_max q"
    using assms by (cases "flt_le (s_max q) (s_min q)") simp_all
  then show ?thesis
    unfolding sq8_distance_to_query_def sq8_l2_query_def sq8_encode_def Let_def by (simp only:)
qed

lemma sq8_train_ok:
  assumes "sq8_train F samples dim q0 = (kOk, q)"
  shows "s_dim q = dim" and "flt_le (s_max q) (s_min q) \<Longrightarrow> s_max q = f_add F (s_min q) f_one"
  using assms by (auto simp: sq8_train_def Let_def split: if_splits prod.splits)

lemma sq8_encode_length [simp]: "length (sq8_encode F q v) = min (length v) (s_dim q)"
  by (simp add: sq8_encode_def Let_def)

lemma flt_less_alt: "flt_less a b \<longleftrightarrow> \<not> flt_nan a \<and> \<not> flt_nan b \<and> flt_key a < flt_key b"
  by (simp add: flt_less_def)

lemma bounds_step:
  assumes "\<not> flt_nan mn" and "\<not> flt_nan mx" and "\<not> flt_nan x"
  shows "\<not> flt_nan (f_min mn x)" and "\<not> flt_nan (f_max mx x)"
    and "flt_key (f_min mn x) = min (flt_key mn) (flt_key x)" and "flt_key (f_max mx x) = max (flt_key mx) (flt_key x)"
  using assms by (auto simp: f_min_def f_max_def flt_less_alt)

lemma bounds_fold:
  assumes "fold (\<lambda>x (mn, mx). (f_min mn x, f_max mx x)) xs (mn0, mx0) = (mn, mx)"
    and "\<not> flt_nan mn0" and "\<not> flt_nan mx0" and "\<forall>x \<in> set xs. \<not> flt_nan x"
  shows "\<not> flt_nan mn \<and> \<not> flt_nan mx \<and> flt_key mn \<le> flt_key mn0 \<and> flt_key mx0 \<le> flt_key mx \<and>
    (\<forall>x \<in> set xs. flt_key mn \<le> flt_key x \<and> flt_key x \<le> flt_key mx)"
  using assms
proof (induction xs arbitrary: mn0 mx0)
  case (Cons x xs)
  have "\<not> flt_nan x" using Cons.prems by simp
  note s = bounds_step [OF Cons.prems(2,3) this]
  show ?case using Cons.IH [of "f_min mn0 x" "f_max mx0 x"] Cons.prems s by auto
qed simp

lemma fold_concat_map: "fold (\<lambda>v. fold f (g v)) vs s = fold f (concat (map g vs)) s"
  by (induction vs arbitrary: s) simp_all

text \<open>
  Training puts every component of every sample between the two bounds, unless all of them are
  equal: then the upper bound is the lower one plus 1.
\<close>

theorem sq8_train_covers:
  assumes "sq8_train F samples dim q0 = (kOk, q)" and "\<forall>v \<in> set samples. \<forall>x \<in> set (take dim v). \<not> flt_nan x"
    and "v \<in> set samples" and "x \<in> set (take dim v)"
  shows "flt_le (s_min q) x \<and> (flt_le x (s_max q) \<or> s_max q = f_add F (s_min q) f_one \<and> flt_le x (s_min q))"
proof -
  let ?xs = "concat (map (take dim) samples)"
  obtain mn mx where b: "fold (\<lambda>x (mn, mx). (f_min mn x, f_max mx x)) ?xs (f_flt_max, f_flt_lowest) = (mn, mx)" by fastforce
  have q: "s_min q = mn" "s_max q = (if flt_le mx mn then f_add F mn f_one else mx)"
    using assms(1) b by (auto simp: sq8_train_def fold_concat_map Let_def split: if_splits)
  have "\<not> flt_nan f_flt_max" "\<not> flt_nan f_flt_lowest" by (simp_all add: flt_nan_def f_flt_max_def f_flt_lowest_def take_bit_eq_mod)
  from bounds_fold [OF b this] have "\<not> flt_nan mn" "\<not> flt_nan mx" "flt_key mn \<le> flt_key x" "flt_key x \<le> flt_key mx"
    using assms(2-4) by auto
  then show ?thesis using assms(2-4) unfolding q by (auto simp: flt_le_def)
qed

lemma sq8_self_total: "length c \<le> 66051 \<Longrightarrow> sq8_total T c c = 0"
proof -
  assume c: "length c \<le> 66051"
  have d: "byte_dist x x = 0" for x by (simp add: byte_dist_def)
  have s: "unat (sq8_total TargetOther c c) = 0"
    using sq8_scalar_sum [OF refl c] by (simp add: sq8_total_def pair_sum_nth d)
  have "sq8_total TargetNeon c c = sq8_total TargetOther c c"
    using sq8_neon_sum [OF refl c] s by (simp add: sq8_total_def pair_sum_nth d word_unat_eq_iff)
  moreover have "sq8_total TargetAvx2 c c = sq8_total TargetOther c c"
    using sq8_avx2_sum [OF refl c] s by (simp add: sq8_total_def pair_sum_nth d wrapped_dist_def word_unat_eq_iff)
  ultimately show ?thesis using s by (cases T) (simp_all add: unat_eq_0)
qed

text \<open>
  SQ8 compares codes. After a successful training the distance of a code to a query is the
  byte kernel applied to the code and to the code of the query, with the same range on both sides
  (also when the range is degenerate), and a vector has total distance 0 to its own code. This
  holds for every float unit and on all three targets, up to 66051 dimensions.
\<close>

theorem sq8_query_distance:
  assumes "sq8_train F samples dim q0 = (kOk, q)" and "length v = dim" and "dim \<le> 66051"
  defines "scale \<equiv> f_div F f_one (f_div F f_255 (f_sub F (s_max q) (s_min q)))"
  shows "sq8_distance_to_query F T q code query = sq8_l2_bytes F T (take dim code) (sq8_encode F q query) scale \<and>
    sq8_total T (sq8_encode F q v) (sq8_encode F q v) = 0 \<and>
    sq8_distance_to_query F T q (sq8_encode F q v) v = scaled F 0 scale"
proof -
  note ok = sq8_train_ok [OF assms(1)]
  have d: "sq8_distance_to_query F T q code query = sq8_l2_bytes F T (take dim code) (sq8_encode F q query) scale" for code query
    unfolding scale_def using sq8_query_is_encode [OF ok(2)] ok(1) by simp
  have z: "sq8_total T (sq8_encode F q v) (sq8_encode F q v) = 0"
    using ok(1) assms(2,3) by (intro sq8_self_total) simp
  show ?thesis using z ok(1) assms(2) by (simp add: d sq8_l2_bytes_def)
qed

text \<open>A float unit for concrete runs: integer arithmetic on the bit patterns.\<close>

definition tiny_unit :: fops where
  "tiny_unit = \<lparr>f_add = (\<lambda>x y. x + y), f_sub = (\<lambda>x y. x - y), f_mul = (\<lambda>x y. x * y), f_div = (\<lambda>x y. x div y),
     f_of_u64 = ucast, f_lround = sint\<rparr>"

text \<open>One sample whose components are equal: the range is degenerate and becomes \<open>[min, min + 1]\<close>.\<close>

theorem sq8_query_distance_witness:
  "sq8_train tiny_unit [[5, 5]] 2 sq8_new = (kOk, \<lparr>s_dim = 2, s_min = 5, s_max = 5 + f_one\<rparr>) \<and>
   sq8_total TargetNeon (sq8_encode tiny_unit \<lparr>s_dim = 2, s_min = 5, s_max = 5 + f_one\<rparr> [6, 7])
     (sq8_encode tiny_unit \<lparr>s_dim = 2, s_min = 5, s_max = 5 + f_one\<rparr> [6, 7]) = 0"
proof -
  have "sq8_train tiny_unit [[5, 5]] 2 sq8_new = (kOk, \<lparr>s_dim = 2, s_min = 5, s_max = 5 + f_one\<rparr>)"
    by (simp add: sq8_train_def sq8_new_def f_min_def f_max_def flt_less_def flt_le_def flt_nan_def flt_key_def
      f_flt_max_def f_flt_lowest_def tiny_unit_def Let_def take_bit_eq_mod bit_iff_odd)
  then show ?thesis using sq8_query_distance [of tiny_unit "[[5, 5]]" 2 sq8_new _ "[6, 7]" TargetNeon] by simp
qed

section \<open>Product quantization\<close>

lemma pick_centroid_less:
  assumes "cents \<noteq> []"
  shows "pick_centroid F p cents < length cents"
proof -
  let ?f = "\<lambda>c (best, best_c). let s = sub_sum F p (cents ! c) in if flt_less s best then (s, c) else (best, best_c)"
  have "snd (fold ?f cs bc) < n" if "\<forall>c \<in> set cs. c < n" "snd bc < n" for cs bc n
    using that by (induction cs arbitrary: bc) (auto simp: Let_def split: prod.splits)
  then show ?thesis using assms by (simp add: pick_centroid_def)
qed

definition book_ok :: "nat \<Rightarrow> nat \<Rightarrow> u32 list list \<Rightarrow> bool" where
  "book_ok n subdim cents \<longleftrightarrow> length cents = n \<and> (\<forall>c \<in> set cents. length c = subdim)"

lemma add_points_ok:
  assumes "book_ok n subdim sums" and "\<forall>(p, a) \<in> set pas. length p = subdim \<and> a < n"
  shows "book_ok n subdim (fst (fold (add_point F) pas (sums, counts)))"
  using assms
proof (induction pas arbitrary: sums counts)
  case (Cons pa pas)
  obtain p a where pa: "pa = (p, a)" by fastforce
  have "book_ok n subdim (sums[a := map2 (f_add F) (sums ! a) p])"
    using Cons.prems by (auto simp: pa book_ok_def dest!: set_update_subset_insert [THEN subsetD])
  then show ?case using Cons.IH Cons.prems(2) by (simp add: pa add_point_def)
qed simp

lemma kmeans_step_ok:
  assumes "book_ok n subdim cents" and "\<forall>p \<in> set points. length p = subdim" and "0 < n"
  shows "book_ok n subdim (kmeans_step F subdim points cents)"
proof -
  let ?pas = "zip points (map (\<lambda>p. pick_centroid F p cents) points)"
  obtain sums counts where sc: "fold (add_point F) ?pas (replicate n (replicate subdim 0), replicate n 0) = (sums, counts)"
    by fastforce
  have "\<forall>(p, a) \<in> set ?pas. length p = subdim \<and> a < n"
    using assms pick_centroid_less [of cents F] by (auto simp: book_ok_def set_zip)
  from add_points_ok [OF _ this, of "replicate n (replicate subdim 0)" F "replicate n 0"] sc
  have "book_ok n subdim sums" by (simp add: book_ok_def)
  then show ?thesis
    using assms(1) sc by (auto simp: kmeans_step_def Let_def book_ok_def)
qed

lemma kmeans_iter_ok:
  "book_ok n subdim cents \<Longrightarrow> \<forall>p \<in> set points. length p = subdim \<Longrightarrow> 0 < n \<Longrightarrow>
    book_ok n subdim (kmeans_iter F subdim points it cents)"
  by (induction it arbitrary: cents) (simp_all add: kmeans_step_ok)

text \<open>What \<^verbatim>\<open>std::shuffle\<close> gives: the indices in some order.\<close>

definition shuffle_ok :: "(nat \<Rightarrow> nat list) \<Rightarrow> bool" where
  "shuffle_ok sh \<longleftrightarrow> (\<forall>n. mset (sh n) = mset [0..<n])"

lemma kmeans_ok:
  assumes "shuffle_ok sh" and "\<forall>p \<in> set points. length p = subdim" and "points \<noteq> []" and "0 < k"
  shows "book_ok (min (length points) k) subdim (kmeans F sh points k it subdim)"
proof -
  have sh: "length (sh n) = n" "set (sh n) = {..<n}" for n
    using assms(1) mset_eq_length [of "sh n" "[0..<n]"] mset_eq_setD [of "sh n" "[0..<n]"] by (auto simp: shuffle_ok_def)
  let ?c = "if length points \<le> k then points else map (\<lambda>i. points ! i) (take k (sh (length points)))"
  have "book_ok (min (length points) k) subdim ?c"
    using assms(2) sh by (auto simp: book_ok_def dest!: in_set_takeD)
  then show ?thesis unfolding kmeans_def Let_def using assms by (intro kmeans_iter_ok) auto
qed

definition trained :: "nat \<Rightarrow> pq \<Rightarrow> bool" where
  "trained n q \<longleftrightarrow> 0 < p_m q \<and> p_dim q = p_m q * p_subdim q \<and> 0 < p_subdim q \<and> length (p_books q) = p_m q \<and>
     (\<forall>b \<in> set (p_books q). book_ok (min n (p_k q)) (p_subdim q) b)"

lemma subvector_length: "length v = m * w \<Longrightarrow> s < m \<Longrightarrow> length (subvector w s v) = w"
proof -
  assume v: "length v = m * w" and "s < m"
  then have "(s + 1) * w \<le> m * w" by (intro mult_le_mono1) simp
  then show ?thesis using v by (simp add: subvector_def)
qed

lemma pq_train_trained:
  assumes "pq_train F sh samples dim (pq_new m k) = (kOk, q)" and "\<forall>s. shuffle_ok (sh s)" and "\<forall>v \<in> set samples. length v = dim"
  shows "trained (length samples) q \<and> p_m q = max m 1 \<and> p_k q = max k 2 \<and> p_dim q = dim \<and> samples \<noteq> []"
proof -
  let ?m = "max m 1" and ?k = "max k 2"
  let ?w = "dim div ?m"
  have g: "samples \<noteq> []" "dim \<noteq> 0" "?w \<noteq> 0" "dim mod ?m = 0"
    and q: "q = (pq_new m k)\<lparr>p_dim := dim, p_subdim := ?w,
      p_books := map (\<lambda>s. kmeans F (sh s) (map (subvector ?w s) samples) ?k 8 ?w) [0..<?m]\<rparr>"
    using assms(1) by (auto simp: pq_train_def pq_new_def Let_def split: if_splits)
  have dim: "dim = ?m * ?w" using g(4) by auto
  have "book_ok (min (length samples) ?k) ?w (kmeans F (sh s) (map (subvector ?w s) samples) ?k 8 ?w)" if "s < ?m" for s
  proof -
    have "\<forall>p \<in> set (map (subvector ?w s) samples). length p = ?w" using assms(3) subvector_length [of _ ?m ?w s] that dim by auto
    then show ?thesis using kmeans_ok [of "sh s" "map (subvector ?w s) samples" ?w ?k F 8] assms(2) g(1) by simp
  qed
  then show ?thesis using g dim by (auto simp: q trained_def pq_new_def)
qed

lemma pick_centroid_nearest:
  assumes "c < length cents" and "flt_less (sub_sum F p (cents ! c)) f_flt_max" and "c' < length cents"
  shows "\<not> flt_less (sub_sum F p (cents ! c')) (sub_sum F p (cents ! pick_centroid F p cents))"
proof -
  let ?s = "\<lambda>c. sub_sum F p (cents ! c)"
  let ?f = "\<lambda>c (best, best_c). let s = ?s c in if flt_less s best then (s, c) else (best, best_c)"
  define P where "P cs bc \<longleftrightarrow> (\<forall>c \<in> set cs. \<not> flt_less (?s c) (fst bc)) \<and>
    (fst bc = ?s (snd bc) \<or> fst bc = f_flt_max)" for cs :: "nat list" and bc :: "u32 \<times> nat"
  have "P (ds @ cs) (fold ?f cs bc)" if "P ds bc" for cs ds bc
    using that
  proof (induction cs arbitrary: ds bc)
    case (Cons c cs)
    have "P (ds @ [c]) (?f c bc)"
      using Cons.prems by (auto simp: P_def Let_def flt_less_alt split: prod.splits)
    then show ?case using Cons.IH [of "ds @ [c]" "?f c bc"] by simp
  qed simp
  from this [of "[]" "(f_flt_max, 0)" "[0..<length cents]"]
  have P: "P [0..<length cents] (fold ?f [0..<length cents] (f_flt_max, 0))" by (simp add: P_def)
  then have "fst (fold ?f [0..<length cents] (f_flt_max, 0)) = ?s (pick_centroid F p cents)"
    using assms(1,2) by (auto simp: P_def pick_centroid_def)
  with P show ?thesis using assms(3) by (auto simp: P_def)
qed

lemma pq_encode_nth:
  assumes "trained n q" and "0 < n" and "p_k q \<le> 256" and "0 < p_k q" and "s < p_m q"
  shows "unat (pq_encode F q v ! s) = pick_centroid F (subvector (p_subdim q) s v) (p_books q ! s)"
    and "pick_centroid F (subvector (p_subdim q) s v) (p_books q ! s) < length (p_books q ! s)"
    and "length (p_books q ! s) = min n (p_k q)"
proof -
  have b: "length (p_books q ! s) = min n (p_k q)" using assms(1,5) by (auto simp: trained_def book_ok_def)
  then have "p_books q ! s \<noteq> []" using assms(2,4) by auto
  from pick_centroid_less [OF this]
  show c: "pick_centroid F (subvector (p_subdim q) s v) (p_books q ! s) < length (p_books q ! s)" .
  show "length (p_books q ! s) = min n (p_k q)" by (rule b)
  show "unat (pq_encode F q v ! s) = pick_centroid F (subvector (p_subdim q) s v) (p_books q ! s)"
    using c b assms(3,5) by (simp add: pq_encode_def unat_of_nat)
qed

text \<open>
  C32: product codes name centroids. After training with at most 256 centroids per subspace, on
  vectors of the right length and with any shuffle, the code of a vector has one byte per
  subspace, every byte is the index of an existing centroid, and no centroid of that subspace is
  strictly nearer to the subvector, as long as some centroid is nearer than \<^verbatim>\<open>FLT_MAX\<close>.
\<close>

theorem pq_encode_nearest:
  assumes "pq_train F sh samples dim (pq_new m k) = (kOk, q)" and "\<forall>s. shuffle_ok (sh s)"
    and "\<forall>v \<in> set samples. length v = dim" and "k \<le> 256"
  shows "length (pq_encode F q v) = pq_code_bytes q \<and>
    (\<forall>s < pq_code_bytes q.
       let x = subvector (p_subdim q) s v; B = p_books q ! s; c = unat (pq_encode F q v ! s)
       in c < length B \<and>
          ((\<exists>i < length B. flt_less (sub_sum F x (B ! i)) f_flt_max) \<longrightarrow>
           (\<forall>i < length B. \<not> flt_less (sub_sum F x (B ! i)) (sub_sum F x (B ! c)))))"
proof -
  have t: "trained (length samples) q" "p_k q \<le> 256" "0 < p_k q" "0 < length samples"
    using pq_train_trained [OF assms(1-3)] assms(4) by auto
  have "length (pq_encode F q v) = pq_code_bytes q" by (simp add: pq_encode_def pq_code_bytes_def)
  then show ?thesis
    using pq_encode_nth [OF t(1,4,2,3)] pick_centroid_nearest by (auto simp: pq_code_bytes_def Let_def)
qed

text \<open>A small training run: two samples of two components, two subspaces, two centroids.\<close>

definition tiny_pq :: pq where
  "tiny_pq = \<lparr>p_dim = 2, p_m = 2, p_k = 2, p_subdim = 1, p_books = [[[1], [7]], [[2], [9]]]\<rparr>"

lemma kmeans_iter_fixed: "kmeans_step F w ps cents = cents \<Longrightarrow> kmeans_iter F w ps n cents = cents"
  by (induction n) simp_all

lemma tiny_steps:
  "kmeans_step tiny_unit 1 [[1], [7]] [[1], [7]] = [[1], [7]]" "kmeans_step tiny_unit 1 [[2], [9]] [[2], [9]] = [[2], [9]]"
  by (simp_all add: kmeans_step_def pick_centroid_def sub_sum_def sq_sum_def tiny_unit_def add_point_def f_flt_max_def
    flt_less_def flt_nan_def flt_key_def)

lemma tiny_trained: "pq_train tiny_unit (\<lambda>_ n. [0..<n]) [[1, 2], [7, 9]] 2 (pq_new 2 2) = (kOk, tiny_pq)"
  by (simp add: pq_train_def pq_new_def tiny_pq_def kmeans_def subvector_def kmeans_iter_fixed [OF tiny_steps(1) [unfolded One_nat_def]] kmeans_iter_fixed [OF tiny_steps(2) [unfolded One_nat_def]]
    upt_rec [of 0 2] upt_rec [of "Suc 0" 2] Let_def numeral_2_eq_2 [symmetric])

lemma shuffle_ok_upt: "shuffle_ok (\<lambda>n. [0..<n])"
  by (simp add: shuffle_ok_def)

theorem pq_encode_nearest_witness:
  "length (pq_encode tiny_unit tiny_pq [6, 3]) = pq_code_bytes tiny_pq \<and>
   unat (pq_encode tiny_unit tiny_pq [6, 3] ! 0) < length (p_books tiny_pq ! 0)"
proof -
  have "0 < pq_code_bytes tiny_pq" by (simp add: pq_code_bytes_def tiny_pq_def)
  then show ?thesis
    using pq_encode_nearest [OF tiny_trained, of "[6, 3]"] shuffle_ok_upt by (auto simp: Let_def)
qed

section \<open>Saving and loading\<close>

theorem sq8_save_load:
  "s_dim q < 2 ^ 64 \<Longrightarrow> sq8_load (sq8_save q @ rest) = Inr q"
proof -
  assume d: "s_dim q < 2 ^ 64"
  have "reads rd_sq8 (put_u64 (of_nat (s_dim q)) @ put_u32 (s_min q) @ put_u32 (s_max q) @ [])
    \<lparr>s_dim = unat (of_nat (s_dim q) :: u64), s_min = s_min q, s_max = s_max q\<rparr>"
    unfolding rd_sq8_def by (intro reads_bind [OF reads_ints(4)] reads_bind [OF reads_ints(3)] reads_return)
  then show ?thesis using d by (simp add: sq8_load_def sq8_save_def reads_def unat_of_nat)
qed

theorem bin_save_load: "dim < 2 ^ 64 \<Longrightarrow> bin_load (bin_save dim @ rest) = Inr dim"
  using u64_codec.reads_put [OF TrueI, of "of_nat dim"] by (simp add: bin_load_def bin_save_def reads_def unat_of_nat)

text \<open>\<open>consumes f c\<close>: whenever \<open>f\<close> succeeds it has taken \<open>c\<close> bytes.\<close>

definition consumes :: "'a reader \<Rightarrow> nat \<Rightarrow> bool" where
  "consumes f c \<longleftrightarrow> (\<forall>bs x rest. f bs = Some (x, rest) \<longrightarrow> length bs = c + length rest)"

lemma consumes_many: "consumes f c \<Longrightarrow> consumes (rd_many f n) (n * c)"
proof (induction n)
  case (Suc n)
  then show ?case unfolding consumes_def by (fastforce split: option.splits)
qed (simp add: consumes_def)

lemma consumes_u32: "consumes rd_u32 4"
  by (auto simp: consumes_def rd_u32_def rd_bind_def rd_bytes_def rd_return_def split: if_splits)

lemma consumes_books: "consumes (rd_books m k w) (m * (k * (w * 4)))"
  unfolding rd_books_def rd_floats_def by (intro consumes_many consumes_u32)

lemma put_book_length: "book_ok n w b \<Longrightarrow> length (put_book b) = n * (w * 4)"
proof -
  have f: "length (put_floats c) = length c * 4" for c by (induction c) (simp_all add: put_floats_def)
  have "length (concat (map put_floats b)) = length b * (w * 4)" if "\<forall>c \<in> set b. length c = w" for b
    using that by (induction b) (simp_all add: f)
  then show "book_ok n w b \<Longrightarrow> ?thesis" by (auto simp: book_ok_def put_book_def)
qed

lemma reads_books:
  assumes "\<forall>b \<in> set books. book_ok k w b"
  shows "reads (rd_books (length books) k w) (concat (map put_book books)) books"
proof -
  have "reads (rd_many (rd_floats w) k) (put_book b) b" if "book_ok k w b" for b
  proof -
    have "list_all2 (reads (rd_floats w)) (map put_floats b) b"
      using that by (auto simp: book_ok_def put_floats_def list_all2_conv_all_nth intro: reads_floats)
    from reads_many [OF this] show ?thesis using that by (simp add: book_ok_def put_book_def)
  qed
  then show ?thesis
    unfolding rd_books_def using assms by (intro reads_many) (auto simp: list_all2_conv_all_nth)
qed

lemma rd_pq_head_put:
  assumes "d < 2 ^ 64" and "m < 2 ^ 64" and "k < 2 ^ 64" and "w < 2 ^ 64"
  shows "rd_pq_head (put_u64 (of_nat d) @ put_u64 (of_nat m) @ put_u64 (of_nat k) @ put_u64 (of_nat w) @ rest) =
    Some ((d, m, k, w), rest)"
proof -
  have "reads rd_pq_head (put_u64 (of_nat d) @ put_u64 (of_nat m) @ put_u64 (of_nat k) @ put_u64 (of_nat w) @ [])
    (unat (of_nat d :: u64), unat (of_nat m :: u64), unat (of_nat k :: u64), unat (of_nat w :: u64))"
    unfolding rd_pq_head_def by (intro reads_bind [OF reads_ints(4)] reads_bind [OF reads_ints(3)] reads_return)
  then show ?thesis using assms by (simp add: reads_def unat_of_nat)
qed

text \<open>
  a product quantizer trained on \<open>n\<close> samples is loaded back as it was saved if \<open>n\<close> is at least
  the number of centroids. With fewer samples its codebooks hold \<open>n\<close> centroids each, while \<^verbatim>\<open>load\<close>
  reads \<open>k\<close> of them: the saved file is rejected as corrupt.
\<close>

theorem pq_save_load:
  assumes "pq_train F sh samples dim (pq_new m k) = (kOk, q)" and "\<forall>s. shuffle_ok (sh s)"
    and "\<forall>v \<in> set samples. length v = dim" and "dim < 2 ^ 64" and "k < 2 ^ 64"
  shows "pq_load (pq_save q) = (if max k 2 \<le> length samples then Inr q else Inl kCorruption)"
proof -
  have t: "trained (length samples) q" and k: "p_k q = max k 2" and d: "p_dim q = dim"
    using pq_train_trained [OF assms(1-3)] by auto
  let ?m = "p_m q" and ?k = "p_k q" and ?w = "p_subdim q" and ?B = "concat (map put_book (p_books q))"
  have pos: "0 < ?m" "0 < ?w" "0 < ?k" "0 < p_dim q" and dim: "dim = ?m * ?w" and len: "length (p_books q) = ?m"
    and ok: "\<forall>b \<in> set (p_books q). book_ok (min (length samples) ?k) ?w b"
    using t k d by (auto simp: trained_def)
  have "?m \<le> dim" "?w \<le> dim" using dim pos by auto
  then have head: "pq_load (pq_save q) = (case rd_books ?m ?k ?w ?B of None \<Rightarrow> Inl kCorruption
      | Some (books, _) \<Rightarrow> Inr \<lparr>p_dim = p_dim q, p_m = ?m, p_k = ?k, p_subdim = ?w, p_books = books\<rparr>)"
    using rd_pq_head_put [of "p_dim q" ?m ?k ?w ?B] assms(4,5) k d pos by (simp add: pq_load_def pq_save_def del: unsigned_of_nat of_nat_max cong: option.case_cong)
  show ?thesis
  proof (cases "?k \<le> length samples")
    case True
    then have "rd_books ?m ?k ?w ?B = Some (p_books q, [])"
      using reads_whole [OF reads_books [of "p_books q" ?k ?w]] ok len by (simp add: min_absorb2)
    then show ?thesis using True k by (simp add: head)
  next
    case False
    have "length (concat (map put_book bs)) = length bs * (length samples * (?w * 4))"
      if "\<forall>b \<in> set bs. book_ok (length samples) ?w b" for bs
      using that by (induction bs) (simp_all add: put_book_length)
    then have "length ?B = ?m * (length samples * (?w * 4))" using ok len False by (simp add: min_absorb1)
    also have "\<dots> < ?m * (?k * (?w * 4))" using False pos by simp
    finally have "rd_books ?m ?k ?w ?B = None"
      using consumes_books [of ?m ?k ?w] unfolding consumes_def by (cases "rd_books ?m ?k ?w ?B") fastforce+
    then show ?thesis using False k by (simp add: head)
  qed
qed

theorem pq_save_load_witness: "pq_load (pq_save tiny_pq) = Inr tiny_pq"
  using pq_save_load [OF tiny_trained] shuffle_ok_upt by simp

end
