(* ===== verification/Quant_Bench.thy ===== *)
theory Quant_Bench
  imports Ann_Bench_Correct Quantizer_Correct
begin

text \<open>
  The quantizer interface of \<^verbatim>\<open>include/lumina/index/quantizer.h\<close>, whose virtual functions dispatch
  to the three implementations, and the benchmark that uses it (\<^verbatim>\<open>bench/quant_bench.cpp\<close>): 20000
  random vectors, the exact nearest neighbours, the nearest ones by the distances of the codes,
  and the recall it reports. Vectors and the exact L2 distance are arguments.
\<close>

section \<open>The interface\<close>

definition q_train :: "fops \<Rightarrow> (nat \<Rightarrow> nat \<Rightarrow> nat list) \<Rightarrow> u32 list list \<Rightarrow> nat \<Rightarrow> quantizer \<Rightarrow> status_code \<times> quantizer" where
  "q_train F shuffle samples m q =
     (case q of
        Sq8 s \<Rightarrow> map_prod id Sq8 (sq8_train F samples m s)
      | Binary d \<Rightarrow> map_prod id Binary (bin_train m d)
      | Pq p \<Rightarrow> map_prod id Pq (pq_train F shuffle samples m p))"

definition q_encode :: "fops \<Rightarrow> quantizer \<Rightarrow> u32 list \<Rightarrow> bytes" where
  "q_encode F q v = (case q of Sq8 s \<Rightarrow> sq8_encode F s v | Binary d \<Rightarrow> bin_encode d v | Pq p \<Rightarrow> pq_encode F p v)"

definition q_distance_to_query :: "fops \<Rightarrow> target \<Rightarrow> quantizer \<Rightarrow> bytes \<Rightarrow> u32 list \<Rightarrow> u32" where
  "q_distance_to_query F T q code query =
     (case q of
        Sq8 s \<Rightarrow> sq8_distance_to_query F T s code query
      | Binary d \<Rightarrow> bin_distance_to_query F d code query
      | Pq p \<Rightarrow> pq_distance_to_query F p code query)"

definition q_distance :: "fops \<Rightarrow> target \<Rightarrow> quantizer \<Rightarrow> bytes \<Rightarrow> bytes \<Rightarrow> u32" where
  "q_distance F T q a b =
     (case q of Sq8 s \<Rightarrow> sq8_distance F T s a b | Binary d \<Rightarrow> bin_distance F d a b | Pq p \<Rightarrow> pq_distance F p a b)"

definition q_code_bytes :: "quantizer \<Rightarrow> nat" where
  "q_code_bytes q = (case q of Sq8 s \<Rightarrow> sq8_code_bytes s | Binary d \<Rightarrow> bin_code_bytes d | Pq p \<Rightarrow> pq_code_bytes p)"

definition q_save :: "quantizer \<Rightarrow> bytes" where
  "q_save q = (case q of Sq8 s \<Rightarrow> sq8_save s | Binary d \<Rightarrow> bin_save d | Pq p \<Rightarrow> pq_save p)"

text \<open>The dimension a quantizer has been trained for.\<close>

definition q_dim :: "quantizer \<Rightarrow> nat" where
  "q_dim q = (case q of Sq8 s \<Rightarrow> s_dim s | Binary d \<Rightarrow> d | Pq p \<Rightarrow> p_dim p)"

lemma length_set_signs: "length (fold (set_sign v) js code) = length code"
  by (induction js arbitrary: code) (simp_all add: set_sign_def)

text \<open>What the interface promises: training fixes the dimension, and every code has the announced size.\<close>

lemma q_train_ok:
  assumes "q_train F shuffle samples m q = (kOk, q')"
  shows "q_dim q' = m"
  using assms
  by (cases q) (auto simp: q_train_def q_dim_def sq8_train_def bin_train_def pq_train_def Let_def split: prod.splits if_splits)

lemma length_q_encode: "q_dim q \<le> length v \<Longrightarrow> length (q_encode F q v) = q_code_bytes q"
  by (auto simp: q_dim_def q_encode_def q_code_bytes_def sq8_encode_def Let_def sq8_code_bytes_def bin_encode_def
      length_set_signs pq_encode_def pq_code_bytes_def split: quantizer.splits)

section \<open>The data of the benchmark\<close>

definition qb_dim :: nat where "qb_dim = 128"
definition qb_vecs :: nat where "qb_vecs = 20000"

record quant_data =
  qd_vecs :: "u32 list list"
  qd_sq8 :: quantizer
  qd_bin :: quantizer
  qd_pq :: quantizer
  qd_sq8_codes :: "bytes list"
  qd_bin_codes :: "bytes list"
  qd_pq_codes :: "bytes list"

text \<open>As in the code the status of the training is not looked at; \<open>None\<close> is a quantizer that is null.\<close>

definition quant_setup :: "fops \<Rightarrow> (nat \<Rightarrow> nat \<Rightarrow> nat list) \<Rightarrow> u32 list list \<Rightarrow> quant_data option" where
  "quant_setup F shuffle vecs =
     (case (make_quantizer QSQ8 0 0, make_quantizer QBinary 0 0, make_quantizer QPQ 16 256) of
        (Some sq8, Some bin, Some pq) \<Rightarrow>
          let sq8 = snd (q_train F shuffle vecs qb_dim sq8);
              bin = snd (q_train F shuffle vecs qb_dim bin);
              pq = snd (q_train F shuffle vecs qb_dim pq)
          in Some \<lparr>qd_vecs = vecs, qd_sq8 = sq8, qd_bin = bin, qd_pq = pq,
               qd_sq8_codes = map (q_encode F sq8) vecs, qd_bin_codes = map (q_encode F bin) vecs,
               qd_pq_codes = map (q_encode F pq) vecs\<rparr>
      | _ \<Rightarrow> None)"

section \<open>The loops\<close>

definition exact_l2 :: "(u32 list \<Rightarrow> u32 list \<Rightarrow> u32) \<Rightarrow> u32 list \<Rightarrow> quant_data \<Rightarrow> cand list outcome" where
  "exact_l2 l2 query D = partial_sort 100 (map (\<lambda>i. (l2 query (qd_vecs D ! i), i)) [0..<qb_vecs])"

definition quant_topk :: "bytes list \<Rightarrow> (bytes \<Rightarrow> u32 list \<Rightarrow> u32) \<Rightarrow> u32 list \<Rightarrow> nat \<Rightarrow> nat list outcome" where
  "quant_topk codes cd query k =
     (case partial_sort k (map (\<lambda>i. (cd (codes ! i) query, i)) [0..<qb_vecs]) of
        Out_Of_Bounds \<Rightarrow> Out_Of_Bounds
      | Returns all \<Rightarrow> Returns (map (\<lambda>i. snd (all ! i)) [0..<k]))"

text \<open>One iteration of a loop over distances, with the accumulator that it adds to.\<close>

definition sum_to_query :: "fops \<Rightarrow> target \<Rightarrow> quantizer \<Rightarrow> bytes list \<Rightarrow> u32 list list \<Rightarrow> u32 \<Rightarrow> u32" where
  "sum_to_query F T q codes vecs =
     fold (\<lambda>i sink. f_add F sink (q_distance_to_query F T q (codes ! i) (vecs ! i))) [0..<1000]"

definition sum_code_code :: "fops \<Rightarrow> target \<Rightarrow> quantizer \<Rightarrow> bytes list \<Rightarrow> u32 \<Rightarrow> u32" where
  "sum_code_code F T q codes =
     fold (\<lambda>i sink. f_add F sink (q_distance F T q (codes ! (i - 1)) (codes ! (i mod 1000)))) [1..<1001]"

definition bm_sq8_distance :: "fops \<Rightarrow> target \<Rightarrow> quant_data \<Rightarrow> nat \<Rightarrow> u32" where
  "bm_sq8_distance F T D iterations = (sum_to_query F T (qd_sq8 D) (qd_sq8_codes D) (qd_vecs D) ^^ iterations) 0"

definition bm_sq8_code_code :: "fops \<Rightarrow> target \<Rightarrow> quant_data \<Rightarrow> nat \<Rightarrow> u32" where
  "bm_sq8_code_code F T D iterations = (sum_code_code F T (qd_sq8 D) (qd_sq8_codes D) ^^ iterations) 0"

definition bm_binary_distance :: "fops \<Rightarrow> target \<Rightarrow> quant_data \<Rightarrow> nat \<Rightarrow> u32" where
  "bm_binary_distance F T D iterations = (sum_to_query F T (qd_bin D) (qd_bin_codes D) (qd_vecs D) ^^ iterations) 0"

definition bm_binary_code_code :: "fops \<Rightarrow> target \<Rightarrow> quant_data \<Rightarrow> nat \<Rightarrow> u32" where
  "bm_binary_code_code F T D iterations = (sum_code_code F T (qd_bin D) (qd_bin_codes D) ^^ iterations) 0"

definition bm_pq_distance :: "fops \<Rightarrow> target \<Rightarrow> quant_data \<Rightarrow> nat \<Rightarrow> u32" where
  "bm_pq_distance F T D iterations = (sum_to_query F T (qd_pq D) (qd_pq_codes D) (qd_vecs D) ^^ iterations) 0"

definition bm_quant_recall :: "fops \<Rightarrow> target \<Rightarrow> (u32 list \<Rightarrow> u32 list \<Rightarrow> u32) \<Rightarrow> quant_data \<Rightarrow> real outcome" where
  "bm_quant_recall F T l2 D =
     (case exact_l2 l2 (qd_vecs D ! 1) D of
        Out_Of_Bounds \<Rightarrow> Out_Of_Bounds
      | Returns truth \<Rightarrow>
          let truth_ids = snd ` set truth
          in case quant_topk (qd_sq8_codes D) (q_distance_to_query F T (qd_sq8 D)) (qd_vecs D ! 1) 10 of
               Out_Of_Bounds \<Rightarrow> Out_Of_Bounds
             | Returns found \<Rightarrow> Returns (real (length (filter (\<lambda>h. h \<in> truth_ids) found)) / 10))"

section \<open>What the benchmark measures\<close>

lemma nearest_of_take:
  assumes "nearest_of d js k ts" and "j \<le> k"
  shows "nearest_of d js j (take j ts)"
proof -
  have sorted: "sorted_wrt (\<lambda>s t. cand_less (d s, s) (d t, t)) (take j ts @ drop j ts)" using assms(1) by (simp add: nearest_of_def)
  have "cand_less (d t, t) (d i, i)" if "t \<in> set (take j ts)" "i \<in> set js" "i \<notin> set (take j ts)" for t i
  proof (cases "i \<in> set ts")
    case True
    then have "i \<in> set (drop j ts)" using that(3) by (metis UnE append_take_drop_id set_append)
    then show ?thesis using sorted that(1) unfolding sorted_wrt_append by blast
  next
    case False
    then show ?thesis using assms(1) that by (auto simp: nearest_of_def dest: in_set_takeD)
  qed
  then show ?thesis
    using assms sorted_wrt_take [of _ ts j] by (auto simp: nearest_of_def dest: in_set_takeD)
qed

lemma length_filter_card: "distinct xs \<Longrightarrow> length (filter P xs) = card {x \<in> set xs. P x}"
  using distinct_card [of "filter P xs"] by simp

text \<open>All three calls of \<open>train\<close> succeed, for the dimension of the vectors, and the codes are those of the trained quantizers.\<close>

definition quant_trained :: "fops \<Rightarrow> (nat \<Rightarrow> nat \<Rightarrow> nat list) \<Rightarrow> u32 list list \<Rightarrow> quant_data \<Rightarrow> bool" where
  "quant_trained F shuffle vecs D \<longleftrightarrow>
     q_train F shuffle vecs qb_dim (Sq8 sq8_new) = (kOk, qd_sq8 D) \<and>
     q_train F shuffle vecs qb_dim (Binary 0) = (kOk, qd_bin D) \<and>
     q_train F shuffle vecs qb_dim (Pq (pq_new 16 256)) = (kOk, qd_pq D) \<and>
     q_dim (qd_sq8 D) = qb_dim \<and> q_dim (qd_bin D) = qb_dim \<and> q_dim (qd_pq D) = qb_dim \<and>
     qd_sq8_codes D = map (q_encode F (qd_sq8 D)) vecs \<and> qd_bin_codes D = map (q_encode F (qd_bin D)) vecs \<and>
     qd_pq_codes D = map (q_encode F (qd_pq D)) vecs"

lemma quant_setup_some:
  assumes "length vecs = qb_vecs" and "\<forall>v \<in> set vecs. length v = qb_dim"
  obtains D where "quant_setup F shuffle vecs = Some D" and "qd_vecs D = vecs"
    and "\<forall>c \<in> set (qd_sq8_codes D). length c = 128" and "\<forall>c \<in> set (qd_bin_codes D). length c = 16"
    and "\<forall>c \<in> set (qd_pq_codes D). length c = 16"
    and "quant_trained F shuffle vecs D"
proof -
  have "vecs \<noteq> []" using assms(1) by (auto simp: qb_vecs_def)
  then have "\<exists>s. q_train F shuffle vecs qb_dim (Sq8 sq8_new) = (kOk, Sq8 s)"
      "\<exists>p. q_train F shuffle vecs qb_dim (Pq (pq_new 16 256)) = (kOk, Pq p) \<and> p_m p = 16"
    by (simp_all add: q_train_def sq8_train_def pq_train_def pq_new_def qb_dim_def split_def Let_def)
  moreover have "q_train F shuffle vecs qb_dim (Binary 0) = (kOk, Binary qb_dim)"
    by (simp add: q_train_def bin_train_def qb_dim_def)
  ultimately obtain s p where tr: "q_train F shuffle vecs qb_dim (Sq8 sq8_new) = (kOk, Sq8 s)"
      "q_train F shuffle vecs qb_dim (Binary 0) = (kOk, Binary qb_dim)"
      "q_train F shuffle vecs qb_dim (Pq (pq_new 16 256)) = (kOk, Pq p)" "p_m p = 16"
    by blast
  have "q_code_bytes (Sq8 s) = 128" "q_code_bytes (Binary qb_dim) = 16" "q_code_bytes (Pq p) = 16"
    using q_train_ok [OF tr(1)] tr(4)
    by (simp_all add: q_code_bytes_def q_dim_def sq8_code_bytes_def bin_code_bytes_def pq_code_bytes_def qb_dim_def)
  moreover have "length (q_encode F (Sq8 s) v) = q_code_bytes (Sq8 s)" "length (q_encode F (Binary qb_dim) v) = q_code_bytes (Binary qb_dim)"
      "length (q_encode F (Pq p) v) = q_code_bytes (Pq p)" if "v \<in> set vecs" for v
    using length_q_encode q_train_ok [OF tr(1)] q_train_ok [OF tr(2)] q_train_ok [OF tr(3)] assms(2) that by simp_all
  ultimately show ?thesis
    using assms(1) tr(1-3) q_train_ok [OF tr(1)] q_train_ok [OF tr(2)] q_train_ok [OF tr(3)]
    by (intro that) (auto simp: quant_setup_def make_quantizer_def Let_def quant_trained_def)
qed

text \<open>
  C35: what the quantizer benchmark reports. All three quantizers are trained: each call of \<open>train\<close>,
  whose status the program drops, returns \<open>kOk\<close>, for the dimension of the vectors; and the
  codes of a vector of 512 bytes have 128, 16 and 16 bytes. When no distance to the query is a NaN,
  neither of the vectors nor of the codes, the counter \<^verbatim>\<open>recall@10\<close> counts the ten
  nearest codes among the hundred nearest vectors: it is the recall at ten plus the share of
  the hits that are only among the eleventh to hundredth nearest.
\<close>

theorem quant_bench_recall:
  assumes "length vecs = qb_vecs" and "\<forall>v \<in> set vecs. length v = qb_dim" and "\<forall>i < qb_vecs. \<not> flt_nan (l2 (vecs ! 1) (vecs ! i))"
    and "\<forall>D. quant_setup F shuffle vecs = Some D \<longrightarrow>
      (\<forall>i < qb_vecs. \<not> flt_nan (q_distance_to_query F T (qd_sq8 D) (qd_sq8_codes D ! i) (vecs ! 1)))"
  shows "\<exists>D hits ten hundred. quant_setup F shuffle vecs = Some D \<and> quant_trained F shuffle vecs D \<and>
    (\<forall>c \<in> set (qd_sq8_codes D). length c = 128) \<and> (\<forall>c \<in> set (qd_bin_codes D) \<union> set (qd_pq_codes D). length c = 16) \<and>
    nearest_of (\<lambda>i. q_distance_to_query F T (qd_sq8 D) (qd_sq8_codes D ! i) (vecs ! 1)) [0..<qb_vecs] 10 hits \<and>
    nearest_of (\<lambda>i. l2 (vecs ! 1) (vecs ! i)) [0..<qb_vecs] 10 ten \<and>
    nearest_of (\<lambda>i. l2 (vecs ! 1) (vecs ! i)) [0..<qb_vecs] 100 hundred \<and>
    bm_quant_recall F T l2 D =
      Returns (real (card (set hits \<inter> set ten)) / 10 + real (card (set hits \<inter> (set hundred - set ten))) / 10)"
proof -
  obtain D where D: "quant_setup F shuffle vecs = Some D" "qd_vecs D = vecs"
      "\<forall>c \<in> set (qd_sq8_codes D). length c = 128" "\<forall>c \<in> set (qd_bin_codes D). length c = 16"
      "\<forall>c \<in> set (qd_pq_codes D). length c = 16" "quant_trained F shuffle vecs D"
    by (rule quant_setup_some [OF assms(1,2)])
  let ?e = "\<lambda>i. l2 (vecs ! 1) (vecs ! i)"
  let ?q = "\<lambda>i. q_distance_to_query F T (qd_sq8 D) (qd_sq8_codes D ! i) (vecs ! 1)"
  obtain hundred where hundred: "partial_sort 100 (map (\<lambda>i. (?e i, i)) [0..<qb_vecs]) = Returns (map (\<lambda>i. (?e i, i)) hundred)"
      "nearest_of ?e [0..<qb_vecs] 100 hundred"
    by (rule partial_sort_nearest [of 100 "[0..<qb_vecs]" ?e]) (use assms(3) in \<open>auto simp: qb_vecs_def\<close>)
  obtain hits where hits: "partial_sort 10 (map (\<lambda>i. (?q i, i)) [0..<qb_vecs]) = Returns (map (\<lambda>i. (?q i, i)) hits)"
      "nearest_of ?q [0..<qb_vecs] 10 hits"
    by (rule partial_sort_nearest [of 10 "[0..<qb_vecs]" ?q]) (use assms(4) D(1) in \<open>auto simp: qb_vecs_def\<close>)
  let ?ten = "take 10 hundred"
  have ten: "nearest_of ?e [0..<qb_vecs] 10 ?ten" using nearest_of_take [OF hundred(2), of 10] by simp
  have len: "length hits = 10" "distinct hits" using hits(2) by (simp_all add: nearest_of_def)
  have "map (\<lambda>i. snd (map (\<lambda>i. (?q i, i)) hits ! i)) [0..<10] = hits"
    using len(1) by (intro nth_equalityI) simp_all
  then have topk: "quant_topk (qd_sq8_codes D) (q_distance_to_query F T (qd_sq8 D)) (vecs ! 1) 10 = Returns hits"
    using hits(1) by (simp add: quant_topk_def)
  have "snd ` set (map (\<lambda>i. (?e i, i)) hundred) = set hundred" by force
  then have run: "bm_quant_recall F T l2 D = Returns (real (length (filter (\<lambda>h. h \<in> set hundred) hits)) / 10)"
    using hundred(1) topk D(2) by (simp add: bm_quant_recall_def exact_l2_def Let_def)
  have "set ?ten \<subseteq> set hundred" by (rule set_take_subset)
  then have "{h \<in> set hits. h \<in> set hundred} = (set hits \<inter> set ?ten) \<union> (set hits \<inter> (set hundred - set ?ten))" by blast
  moreover have "card ((set hits \<inter> set ?ten) \<union> (set hits \<inter> (set hundred - set ?ten))) =
      card (set hits \<inter> set ?ten) + card (set hits \<inter> (set hundred - set ?ten))"
    by (intro card_Un_disjoint) auto
  ultimately have "length (filter (\<lambda>h. h \<in> set hundred) hits) =
      card (set hits \<inter> set ?ten) + card (set hits \<inter> (set hundred - set ?ten))"
    using length_filter_card [OF len(2), of "\<lambda>h. h \<in> set hundred"] by simp
  then have "bm_quant_recall F T l2 D =
      Returns (real (card (set hits \<inter> set ?ten)) / 10 + real (card (set hits \<inter> (set hundred - set ?ten))) / 10)"
    using run by (simp add: add_divide_distrib)
  then show ?thesis using D(1,3-6) hits(2) ten hundred(2) by blast
qed

theorem quant_bench_recall_witness:
  "\<exists>D hits hundred. quant_setup \<lparr>f_add = \<lambda>x y. 0, f_sub = \<lambda>x y. 0, f_mul = \<lambda>x y. 0, f_div = \<lambda>x y. 0, f_of_u64 = \<lambda>x. 0, f_lround = \<lambda>x. 0\<rparr>
      (\<lambda>s n. [0..<n]) (replicate 20000 (replicate 128 0)) = Some D \<and>
    length hits = 10 \<and> length hundred = 100 \<and>
    bm_quant_recall \<lparr>f_add = \<lambda>x y. 0, f_sub = \<lambda>x y. 0, f_mul = \<lambda>x y. 0, f_div = \<lambda>x y. 0, f_of_u64 = \<lambda>x. 0, f_lround = \<lambda>x. 0\<rparr> TargetNeon
      (\<lambda>v w. 0) D = Returns (real (card (set hits \<inter> set hundred :: nat set)) / 10)"
proof -
  let ?F = "\<lparr>f_add = \<lambda>x y. 0, f_sub = \<lambda>x y. 0, f_mul = \<lambda>x y. 0, f_div = \<lambda>x y. 0, f_of_u64 = \<lambda>x. 0, f_lround = \<lambda>x. 0\<rparr> :: fops"
  let ?vecs = "replicate 20000 (replicate 128 0) :: u32 list list"
  have no_nan: "\<not> flt_nan (q_distance_to_query ?F TargetNeon (qd_sq8 D) c v)"
    if D: "quant_setup ?F (\<lambda>s n. [0..<n]) ?vecs = Some D" for D c v
  proof -
    have "\<exists>s. qd_sq8 D = Sq8 s"
      using D by (auto simp: quant_setup_def make_quantizer_def q_train_def Let_def map_prod_def split: prod.splits)
    then show ?thesis
      by (auto simp: q_distance_to_query_def sq8_distance_to_query_def sq8_l2_query_def sq8_l2_bytes_def scaled_def flt_nan_def Let_def)
  qed
  obtain D hits ten hundred where *: "quant_setup ?F (\<lambda>s n. [0..<n]) ?vecs = Some D"
      "nearest_of (\<lambda>i. q_distance_to_query ?F TargetNeon (qd_sq8 D) (qd_sq8_codes D ! i) (?vecs ! 1)) [0..<qb_vecs] 10 hits"
      "nearest_of (\<lambda>i. 0) [0..<qb_vecs] 10 ten" "nearest_of (\<lambda>i. 0) [0..<qb_vecs] 100 hundred"
      "bm_quant_recall ?F TargetNeon (\<lambda>v w. 0) D =
        Returns (real (card (set hits \<inter> set ten)) / 10 + real (card (set hits \<inter> (set hundred - set ten))) / 10)"
    using quant_bench_recall [of ?vecs "\<lambda>v w. 0" ?F "\<lambda>s n. [0..<n]" TargetNeon] no_nan
    by (auto simp: qb_vecs_def qb_dim_def flt_nan_def)
  have "set ten \<subseteq> set hundred"
  proof
    fix t assume t: "t \<in> set ten"
    show "t \<in> set hundred"
    proof (rule ccontr)
      assume "t \<notin> set hundred"
      moreover have "t \<in> set [0..<qb_vecs]" using *(3) t by (auto simp: nearest_of_def)
      ultimately have "\<forall>u \<in> set hundred. u < t" using *(4) by (auto simp: nearest_of_def cand_less_def flt_less_def)
      moreover have "\<forall>u \<in> set hundred. u \<in> set ten \<or> \<not> u < t"
        using *(3,4) t by (auto simp: nearest_of_def cand_less_def flt_less_def) (meson not_less_iff_gr_or_eq subsetD)
      ultimately have "set hundred \<subseteq> set ten" by blast
      then have "card (set hundred) \<le> card (set ten)" by (intro card_mono) auto
      then show False using *(3,4) by (simp add: nearest_of_def distinct_card)
    qed
  qed
  then have "card (set hits \<inter> set hundred) = card (set hits \<inter> set ten) + card (set hits \<inter> (set hundred - set ten))"
    by (subst card_Un_disjoint [symmetric]) (auto intro: arg_cong [of _ _ card])
  then have "real (card (set hits \<inter> set ten)) / 10 + real (card (set hits \<inter> (set hundred - set ten))) / 10 =
      real (card (set hits \<inter> set hundred)) / 10"
    by (simp add: add_divide_distrib)
  from *(5) [unfolded this] have run: "bm_quant_recall ?F TargetNeon (\<lambda>v w. 0) D =
      Returns (real (card (set hits \<inter> set hundred)) / 10)" .
  have "length hits = 10" "length hundred = 100" using *(2,4) by (simp_all add: nearest_of_def)
  with *(1) run show ?thesis by blast
qed

end
