(* ===== verification/Vector_Math.thy ===== *)
theory Vector_Math
  imports Complex_Main C_Api
begin

text \<open>
  The distance kernels (\<^verbatim>\<open>src/vector/vector_math_*.cpp\<close>), the choice between them at run time, and
  the distance function of a metric (\<^verbatim>\<open>src/engine/pipeline.cpp\<close>). Every kernel exists as a plain
  loop and with vector registers of 4 (NEON), 8 (AVX2) and 16 (AVX-512) floats: the blocks are
  added up lane by lane, the lanes are added at the end, and the rest of the vector follows one
  by one. The kernels are written over an arithmetic \<open>A\<close>, which stands for the float unit, and
  differ only in the order of the additions and in the use of fused multiply-add. A vector is the
  list of its components; aligned and unaligned loads return the same values.
\<close>

section \<open>Arithmetic\<close>

record 'a arith =
  a_zero :: 'a
  a_one :: 'a
  a_tiny :: 'a
  a_nan :: 'a
  a_add :: "'a \<Rightarrow> 'a \<Rightarrow> 'a"
  a_sub :: "'a \<Rightarrow> 'a \<Rightarrow> 'a"
  a_mul :: "'a \<Rightarrow> 'a \<Rightarrow> 'a"
  a_div :: "'a \<Rightarrow> 'a \<Rightarrow> 'a"
  a_neg :: "'a \<Rightarrow> 'a"
  a_sqrt :: "'a \<Rightarrow> 'a"
  a_fma :: "'a \<Rightarrow> 'a \<Rightarrow> 'a \<Rightarrow> 'a"
  a_less :: "'a \<Rightarrow> 'a \<Rightarrow> bool"

section \<open>Loops one component at a time\<close>

definition l2_tail :: "'a arith \<Rightarrow> 'a \<Rightarrow> 'a list \<Rightarrow> 'a list \<Rightarrow> 'a" where
  "l2_tail A acc a b = foldl (\<lambda>acc (x, y). let d = a_sub A x y in a_add A acc (a_mul A d d)) acc (zip a b)"

definition cos_tail :: "'a arith \<Rightarrow> 'a \<times> 'a \<times> 'a \<Rightarrow> 'a list \<Rightarrow> 'a list \<Rightarrow> 'a \<times> 'a \<times> 'a" where
  "cos_tail A acc a b =
     foldl (\<lambda>(dot, na, nb) (x, y). (a_add A dot (a_mul A x y), a_add A na (a_mul A x x), a_add A nb (a_mul A y y))) acc (zip a b)"

definition cos_result :: "'a arith \<Rightarrow> 'a \<times> 'a \<times> 'a \<Rightarrow> 'a" where
  "cos_result A acc =
     (case acc of (dot, na, nb) \<Rightarrow>
        let denom = a_mul A (a_sqrt A na) (a_sqrt A nb)
        in if a_less A denom (a_tiny A) then a_one A else a_sub A (a_one A) (a_div A dot denom))"

definition l2_distance_naive :: "'a arith \<Rightarrow> 'a list \<Rightarrow> 'a list \<Rightarrow> 'a" where
  "l2_distance_naive A a b = l2_tail A (a_zero A) a b"

definition cosine_distance_naive :: "'a arith \<Rightarrow> 'a list \<Rightarrow> 'a list \<Rightarrow> 'a" where
  "cosine_distance_naive A a b = cos_result A (cos_tail A (a_zero A, a_zero A, a_zero A) a b)"

section \<open>Blocks\<close>

function block_loop :: "nat \<Rightarrow> ('a list \<Rightarrow> 'a list \<Rightarrow> 's \<Rightarrow> 's) \<Rightarrow> 'a list \<Rightarrow> 'a list \<Rightarrow> 's \<Rightarrow> 's \<times> 'a list \<times> 'a list" where
  "block_loop w step a b acc =
     (if 0 < w \<and> w \<le> length a then block_loop w step (drop w a) (drop w b) (step (take w a) (take w b) acc)
      else (acc, a, b))"
  by auto
termination by (relation "measure (\<lambda>(w, step, a, b, acc). length a)") auto

declare block_loop.simps [simp del]

text \<open>Lane-wise \<open>x * y + s\<close>, fused (\<^verbatim>\<open>_mm256_fmadd_ps\<close>) and not (\<^verbatim>\<open>vmlaq_f32\<close>).\<close>

definition lanes_fma :: "'a arith \<Rightarrow> 'a list \<Rightarrow> 'a list \<Rightarrow> 'a list \<Rightarrow> 'a list" where
  "lanes_fma A xs ys acc = map2 (\<lambda>(x, y) s. a_fma A x y s) (zip xs ys) acc"

definition lanes_mla :: "'a arith \<Rightarrow> 'a list \<Rightarrow> 'a list \<Rightarrow> 'a list \<Rightarrow> 'a list" where
  "lanes_mla A acc xs ys = map2 (\<lambda>(x, y) s. a_add A s (a_mul A x y)) (zip xs ys) acc"

definition l2_step :: "('a list \<Rightarrow> 'a list \<Rightarrow> 'a list \<Rightarrow> 'a list) \<Rightarrow> 'a arith \<Rightarrow> 'a list \<Rightarrow> 'a list \<Rightarrow> 'a list \<Rightarrow> 'a list" where
  "l2_step mac A va vb acc = (let diff = map2 (a_sub A) va vb in mac diff diff acc)"

definition cos_step ::
  "('a list \<Rightarrow> 'a list \<Rightarrow> 'a list \<Rightarrow> 'a list) \<Rightarrow> 'a list \<Rightarrow> 'a list \<Rightarrow> 'a list \<times> 'a list \<times> 'a list \<Rightarrow> 'a list \<times> 'a list \<times> 'a list" where
  "cos_step mac va vb acc = (case acc of (dot, na, nb) \<Rightarrow> (mac va vb dot, mac va va na, mac vb vb nb))"

subsection \<open>Sums of lanes\<close>

definition hadd :: "'a arith \<Rightarrow> 'a list \<Rightarrow> 'a list \<Rightarrow> 'a list" where
  "hadd A x y = [a_add A (x ! 0) (x ! 1), a_add A (x ! 2) (x ! 3), a_add A (y ! 0) (y ! 1), a_add A (y ! 2) (y ! 3)]"

definition hsum_avx2 :: "'a arith \<Rightarrow> 'a list \<Rightarrow> 'a" where
  "hsum_avx2 A acc =
     (let hi = drop 4 acc; lo = take 4 acc;
          s4 = map2 (a_add A) lo hi; s2 = hadd A s4 s4; s1 = hadd A s2 s2
      in s1 ! 0)"

definition hsum_array :: "'a arith \<Rightarrow> 'a list \<Rightarrow> 'a" where
  "hsum_array A arr = foldl (a_add A) (a_zero A) arr"

definition hsum4 :: "'a arith \<Rightarrow> 'a list \<Rightarrow> 'a" where
  "hsum4 A v =
     (let s = map2 (a_add A) (take 2 v) (drop 2 v);
          s = [a_add A (s ! 0) (s ! 1), a_add A (s ! 0) (s ! 1)]
      in s ! 0)"

section \<open>Kernels\<close>

definition l2_distance_avx2 :: "'a arith \<Rightarrow> 'a list \<Rightarrow> 'a list \<Rightarrow> 'a" where
  "l2_distance_avx2 A a b =
     (let (acc, a, b) = block_loop 8 (l2_step (lanes_fma A) A) a b (replicate 8 (a_zero A))
      in l2_tail A (hsum_avx2 A acc) a b)"

definition cosine_distance_avx2 :: "'a arith \<Rightarrow> 'a list \<Rightarrow> 'a list \<Rightarrow> 'a" where
  "cosine_distance_avx2 A a b =
     (let z = replicate 8 (a_zero A);
          ((dot_v, na_v, nb_v), a, b) = block_loop 8 (cos_step (lanes_fma A)) a b (z, z, z)
      in cos_result A (cos_tail A (hsum_array A dot_v, hsum_array A na_v, hsum_array A nb_v) a b))"

definition l2_distance_avx512 :: "'a arith \<Rightarrow> 'a list \<Rightarrow> 'a list \<Rightarrow> 'a" where
  "l2_distance_avx512 A a b =
     (let (acc, a, b) = block_loop 16 (l2_step (lanes_fma A) A) a b (replicate 16 (a_zero A))
      in l2_tail A (hsum_array A acc) a b)"

definition cosine_distance_avx512 :: "'a arith \<Rightarrow> 'a list \<Rightarrow> 'a list \<Rightarrow> 'a" where
  "cosine_distance_avx512 A a b =
     (let z = replicate 16 (a_zero A);
          ((dot_v, na_v, nb_v), a, b) = block_loop 16 (cos_step (lanes_fma A)) a b (z, z, z)
      in cos_result A (cos_tail A (hsum_array A dot_v, hsum_array A na_v, hsum_array A nb_v) a b))"

definition l2_distance_neon :: "'a arith \<Rightarrow> 'a list \<Rightarrow> 'a list \<Rightarrow> 'a" where
  "l2_distance_neon A a b =
     (let (sum_vec, a, b) = block_loop 4 (l2_step (\<lambda>x y s. lanes_mla A s x y) A) a b (replicate 4 (a_zero A))
      in l2_tail A (hsum4 A sum_vec) a b)"

definition cosine_distance_neon :: "'a arith \<Rightarrow> 'a list \<Rightarrow> 'a list \<Rightarrow> 'a" where
  "cosine_distance_neon A a b =
     (let z = replicate 4 (a_zero A);
          ((dot_v, na_v, nb_v), a, b) = block_loop 4 (cos_step (\<lambda>x y s. lanes_mla A s x y)) a b (z, z, z)
      in cos_result A (cos_tail A (hsum4 A dot_v, hsum4 A na_v, hsum4 A nb_v) a b))"

section \<open>Dispatch\<close>

text \<open>
  \<open>cpu_id\<close> is the \<^verbatim>\<open>cpuid\<close> instruction (\<open>None\<close> when the leaf is not supported) and \<open>cpu_xcr\<close> what
  \<^verbatim>\<open>xgetbv\<close> returns for register 0; \<open>build\<close> are the compile-time switches.
\<close>

record cpuid_regs =
  reg_a :: u32
  reg_b :: u32
  reg_c :: u32
  reg_d :: u32

record cpu =
  cpu_id :: "u32 \<Rightarrow> u32 \<Rightarrow> cpuid_regs option"
  cpu_xcr :: u64

record build =
  b_arm64 :: bool
  b_x86 :: bool
  b_neon :: bool
  b_avx2 :: bool
  b_avx512 :: bool

datatype kernel = KNaive | KNeon | KAvx2 | KAvx512

definition cpuidex :: "cpu \<Rightarrow> u32 \<Rightarrow> u32 \<Rightarrow> cpuid_regs" where
  "cpuidex C leaf sub =
     (case cpu_id C leaf sub of None \<Rightarrow> \<lparr>reg_a = 0, reg_b = 0, reg_c = 0, reg_d = 0\<rparr> | Some r \<Rightarrow> r)"

definition max_cpuid_leaf :: "cpu \<Rightarrow> u32" where
  "max_cpuid_leaf C = reg_a (cpuidex C 0 0)"

definition xcr0 :: "cpu \<Rightarrow> u64" where
  "xcr0 C = (if reg_c (cpuidex C 1 0) AND push_bit 27 1 = 0 then 0 else cpu_xcr C)"

definition xcr_ok_for_ymm :: "cpu \<Rightarrow> bool" where
  "xcr_ok_for_ymm C \<longleftrightarrow> xcr0 C AND 6 = 6"

definition cpu_can_use_avx2 :: "cpu \<Rightarrow> bool" where
  "cpu_can_use_avx2 C =
     (let id1 = cpuidex C 1 0
      in if reg_c id1 AND push_bit 28 1 = 0 then False
         else if \<not> xcr_ok_for_ymm C then False
         else if reg_c id1 AND push_bit 12 1 = 0 then False
         else if max_cpuid_leaf C < 7 then False
         else if reg_b (cpuidex C 7 0) AND push_bit 5 1 = 0 then False
         else True)"

definition xcr_ok_for_avx512_reg_state :: "cpu \<Rightarrow> bool" where
  "xcr_ok_for_avx512_reg_state C \<longleftrightarrow> xcr0 C AND 0xE0 = 0xE0"

definition cpu_can_use_avx512f :: "cpu \<Rightarrow> bool" where
  "cpu_can_use_avx512f C =
     (if max_cpuid_leaf C < 7 then False
      else if reg_b (cpuidex C 7 0) AND push_bit 16 1 = 0 then False
      else if \<not> xcr_ok_for_ymm C then False
      else if \<not> xcr_ok_for_avx512_reg_state C then False
      else True)"

definition select_kernels :: "build \<Rightarrow> cpu \<Rightarrow> kernel" where
  "select_kernels B C =
     (if b_neon B \<and> b_arm64 B then KNeon
      else if b_x86 B \<and> b_avx2 B \<and> cpu_can_use_avx2 C then KAvx2
      else if b_x86 B \<and> b_avx512 B \<and> cpu_can_use_avx512f C then KAvx512
      else KNaive)"

definition kernel_l2 :: "'a arith \<Rightarrow> kernel \<Rightarrow> 'a list \<Rightarrow> 'a list \<Rightarrow> 'a" where
  "kernel_l2 A k = (case k of KNaive \<Rightarrow> l2_distance_naive A | KNeon \<Rightarrow> l2_distance_neon A
     | KAvx2 \<Rightarrow> l2_distance_avx2 A | KAvx512 \<Rightarrow> l2_distance_avx512 A)"

definition kernel_cos :: "'a arith \<Rightarrow> kernel \<Rightarrow> 'a list \<Rightarrow> 'a list \<Rightarrow> 'a" where
  "kernel_cos A k = (case k of KNaive \<Rightarrow> cosine_distance_naive A | KNeon \<Rightarrow> cosine_distance_neon A
     | KAvx2 \<Rightarrow> cosine_distance_avx2 A | KAvx512 \<Rightarrow> cosine_distance_avx512 A)"

text \<open>The kernel pointer is set once, by the first call; a null vector is \<open>None\<close>.\<close>

definition l2_distance :: "'a arith \<Rightarrow> build \<Rightarrow> cpu \<Rightarrow> 'a list option \<Rightarrow> 'a list option \<Rightarrow> nat \<Rightarrow> kernel option \<Rightarrow> 'a \<times> kernel option" where
  "l2_distance A B C a b n g =
     (if n = 0 then (a_zero A, g)
      else case (a, b) of
        (Some a, Some b) \<Rightarrow>
          let k = (case g of None \<Rightarrow> select_kernels B C | Some k \<Rightarrow> k) in (kernel_l2 A k (take n a) (take n b), Some k)
      | _ \<Rightarrow> (a_nan A, g))"

definition cosine_distance :: "'a arith \<Rightarrow> build \<Rightarrow> cpu \<Rightarrow> 'a list option \<Rightarrow> 'a list option \<Rightarrow> nat \<Rightarrow> kernel option \<Rightarrow> 'a \<times> kernel option" where
  "cosine_distance A B C a b n g =
     (if n = 0 then (a_one A, g)
      else case (a, b) of
        (Some a, Some b) \<Rightarrow>
          let k = (case g of None \<Rightarrow> select_kernels B C | Some k \<Rightarrow> k) in (kernel_cos A k (take n a) (take n b), Some k)
      | _ \<Rightarrow> (a_nan A, g))"

section \<open>Metrics\<close>

definition ip_neg_distance :: "'a arith \<Rightarrow> 'a list \<Rightarrow> 'a list \<Rightarrow> 'a" where
  "ip_neg_distance A a b = a_neg A (foldl (\<lambda>s (x, y). a_add A s (a_mul A x y)) (a_zero A) (zip a b))"

text \<open>The distance function of a metric, as a function of two vectors of \<open>n\<close> components.\<close>

definition distance_for_metric :: "'a arith \<Rightarrow> build \<Rightarrow> cpu \<Rightarrow> metric \<Rightarrow> 'a list \<Rightarrow> 'a list \<Rightarrow> nat \<Rightarrow> 'a" where
  "distance_for_metric A B C m a b n =
     (case m of
        MIP \<Rightarrow> ip_neg_distance A (take n a) (take n b)
      | MCosine \<Rightarrow> fst (cosine_distance A B C (Some a) (Some b) n None)
      | ML2 \<Rightarrow> fst (l2_distance A B C (Some a) (Some b) n None))"

end
