(* ===== verification/Vector_Math_Correct.thy ===== *)
theory Vector_Math_Correct
  imports Vector_Math
begin

text \<open>
  The vector kernels against the plain loops. In an exact arithmetic (additions in any order,
  fused multiply-add without a rounding of its own) every kernel computes what the plain loop
  computes; with any float unit they agree bit by bit on vectors shorter than a register. On
  real numbers the distances have the properties the index relies on. The kernel chosen at run
  time uses only instructions the processor and the operating system support.
\<close>

section \<open>Sums in any order\<close>

locale exact_arith =
  fixes A :: "'a arith"
  assumes add_assoc: "a_add A (a_add A x y) z = a_add A x (a_add A y z)"
    and add_comm: "a_add A x y = a_add A y x"
    and add_zero: "a_add A (a_zero A) x = x"
    and fma_exact: "a_fma A x y s = a_add A s (a_mul A x y)"
begin

definition total :: "'a list \<Rightarrow> 'a" where
  "total xs = foldr (a_add A) xs (a_zero A)"

lemma add_zero_right: "a_add A x (a_zero A) = x"
  by (metis add_comm add_zero)

lemma left_comm: "a_add A x (a_add A y z) = a_add A y (a_add A x z)"
  by (metis add_assoc add_comm)

lemmas add_ac = add_assoc add_comm left_comm

lemma total_simps [simp]: "total [] = a_zero A" "total (x # xs) = a_add A x (total xs)"
  by (simp_all add: total_def)

lemma total_append: "total (xs @ ys) = a_add A (total xs) (total ys)"
  by (induction xs) (simp_all add: add_zero add_assoc)

lemma total_replicate: "total (replicate n (a_zero A)) = a_zero A"
  by (induction n) (simp_all add: add_zero)

lemma foldl_total: "foldl (a_add A) s xs = a_add A s (total xs)"
  by (induction xs arbitrary: s) (simp_all add: add_zero_right add_assoc)

lemma total_map2: "length xs = length ys \<Longrightarrow> total (map2 (a_add A) xs ys) = a_add A (total xs) (total ys)"
  by (induction xs ys rule: list_induct2) (simp_all add: add_zero add_ac)

text \<open>The three ways of adding up lanes.\<close>

lemma hsum_array_total: "hsum_array A xs = total xs"
  by (simp add: hsum_array_def foldl_total add_zero)

lemma length_4: "length xs = 4 \<Longrightarrow> \<exists>a b c d. xs = [a, b, c, d]"
  by (auto simp: numeral_eq_Suc length_Suc_conv)

lemma hsum4_total: "length xs = 4 \<Longrightarrow> hsum4 A xs = total xs"
  by (drule length_4) (auto simp: hsum4_def add_zero_right add_ac)

lemma hsum_avx2_total:
  assumes "length xs = 8"
  shows "hsum_avx2 A xs = total xs"
proof -
  obtain a b c d where lo: "take 4 xs = [a, b, c, d]" using length_4 [of "take 4 xs"] assms by auto
  obtain e f g h where hi: "drop 4 xs = [e, f, g, h]" using length_4 [of "drop 4 xs"] assms by auto
  have "xs = [a, b, c, d] @ [e, f, g, h]" using lo hi append_take_drop_id [of 4 xs] by simp
  then have "total xs = a_add A (total [a, b, c, d]) (total [e, f, g, h])" by (simp only: total_append)
  then show ?thesis by (simp add: hsum_avx2_def lo hi hadd_def add_zero_right add_ac)
qed

section \<open>Kernels\<close>

definition prods :: "'a list \<Rightarrow> 'a list \<Rightarrow> 'a list" where
  "prods xs ys = map2 (a_mul A) xs ys"

definition sqs :: "'a list \<Rightarrow> 'a list \<Rightarrow> 'a list" where
  "sqs xs ys = (let d = map2 (a_sub A) xs ys in prods d d)"

lemma l2_tail_total: "l2_tail A s a b = a_add A s (total (sqs a b))"
proof (induction a arbitrary: s b)
  case (Cons x a)
  then show ?case by (cases b) (simp_all add: l2_tail_def sqs_def prods_def Let_def add_zero_right add_assoc)
qed (simp add: l2_tail_def sqs_def prods_def add_zero_right)

lemma cos_tail_total:
  "cos_tail A (dot, na, nb) a b =
    (a_add A dot (total (prods (take (length b) a) (take (length a) b))),
     a_add A na (total (prods (take (length b) a) (take (length b) a))),
     a_add A nb (total (prods (take (length a) b) (take (length a) b))))"
proof (induction a arbitrary: dot na nb b)
  case (Cons x a)
  then show ?case by (cases b) (simp_all add: cos_tail_def prods_def add_zero_right add_assoc)
qed (simp add: cos_tail_def prods_def add_zero_right)

definition adds_products :: "('a list \<Rightarrow> 'a list \<Rightarrow> 'a list \<Rightarrow> 'a list) \<Rightarrow> bool" where
  "adds_products mac \<longleftrightarrow> (\<forall>xs ys acc. length xs = length acc \<longrightarrow> length ys = length acc \<longrightarrow>
     length (mac xs ys acc) = length acc \<and> total (mac xs ys acc) = a_add A (total acc) (total (prods xs ys)))"

lemma lanes_mla_map: "lanes_mla A acc xs ys = map2 (a_add A) acc (prods xs ys)"
proof (induction acc arbitrary: xs ys)
  case (Cons s acc)
  then show ?case by (cases xs; cases ys) (simp_all add: lanes_mla_def prods_def)
qed (simp add: lanes_mla_def)

lemma lanes_fma_mla: "lanes_fma A xs ys acc = lanes_mla A acc xs ys"
  by (simp add: lanes_fma_def lanes_mla_def fma_exact)

lemma lanes_adds: "adds_products (\<lambda>x y s. lanes_mla A s x y)" "adds_products (lanes_fma A)"
  unfolding adds_products_def lanes_fma_mla by (simp_all add: lanes_mla_map prods_def total_map2)

lemma prods_append: "length xs = length ys \<Longrightarrow> prods (xs @ xs') (ys @ ys') = prods xs ys @ prods xs' ys'"
  by (simp add: prods_def)

lemma sqs_append: "length xs = length ys \<Longrightarrow> sqs (xs @ xs') (ys @ ys') = sqs xs ys @ sqs xs' ys'"
  by (simp add: sqs_def Let_def prods_append)

text \<open>One rule for both block loops: a quantity \<open>val\<close> of the lanes that every step increases by a term of the block.\<close>

lemma block_loop_total:
  assumes "0 < w" and "length a = length b" and "ok acc"
    and step: "\<And>va vb acc. length va = w \<Longrightarrow> length vb = w \<Longrightarrow> ok acc \<Longrightarrow>
      ok (step va vb acc) \<and> val (step va vb acc) = a_add A (val acc) (total (f va vb))"
    and f: "\<And>va vb a' b'. length va = length vb \<Longrightarrow> f (va @ a') (vb @ b') = f va vb @ f a' b'"
  shows "\<exists>acc' a' b'. block_loop w step a b acc = (acc', a', b') \<and> ok acc' \<and> length a' = length b' \<and>
    a_add A (val acc') (total (f a' b')) = a_add A (val acc) (total (f a b))"
  using assms(2,3)
proof (induction a arbitrary: b acc rule: length_induct)
  case (1 a)
  show ?case
  proof (cases "w \<le> length a")
    case False
    then show ?thesis using 1(2,3) by (simp add: block_loop.simps [of w step a])
  next
    case True
    let ?acc = "step (take w a) (take w b) acc"
    have st: "ok ?acc" "val ?acc = a_add A (val acc) (total (f (take w a) (take w b)))"
      using step [of "take w a" "take w b" acc] True 1(2,3) by simp_all
    have "length (drop w a) < length a" using True assms(1) by simp
    from 1(1) [rule_format, OF this, of "drop w b" ?acc] 1(2) st(1) obtain acc' a' b' where
      rest: "block_loop w step (drop w a) (drop w b) ?acc = (acc', a', b')" "ok acc'" "length a' = length b'"
      "a_add A (val acc') (total (f a' b')) = a_add A (val ?acc) (total (f (drop w a) (drop w b)))"
      by auto
    have "f a b = f (take w a) (take w b) @ f (drop w a) (drop w b)"
      using f [of "take w a" "take w b" "drop w a" "drop w b"] 1(2) by simp
    then show ?thesis
      using rest True assms(1) by (simp add: block_loop.simps [of w step a] st(2) total_append add_assoc)
  qed
qed

lemma l2_blocks:
  assumes "length a = length b" and "0 < w" and "adds_products mac" and "\<And>xs. length xs = w \<Longrightarrow> hsum xs = total xs"
  shows "(let (acc, a, b) = block_loop w (l2_step mac A) a b (replicate w (a_zero A)) in l2_tail A (hsum acc) a b) = l2_distance_naive A a b"
proof -
  have step: "length (l2_step mac A va vb acc) = w \<and> total (l2_step mac A va vb acc) = a_add A (total acc) (total (sqs va vb))"
    if "length va = w" "length vb = w" "length acc = w" for va vb acc
    using assms(3) that by (simp add: adds_products_def l2_step_def sqs_def Let_def)
  obtain acc a' b' where r: "block_loop w (l2_step mac A) a b (replicate w (a_zero A)) = (acc, a', b')" "length acc = w"
    "a_add A (total acc) (total (sqs a' b')) = a_add A (total (replicate w (a_zero A))) (total (sqs a b))"
    using block_loop_total [OF assms(2,1), of "\<lambda>acc. length acc = w" "replicate w (a_zero A)" "l2_step mac A" total sqs]
      step sqs_append by auto
  show ?thesis using r assms(4) by (simp add: l2_tail_total l2_distance_naive_def total_replicate)
qed

lemma cos_blocks:
  fixes w
  assumes "length a = length b" and "0 < w" and "adds_products mac" and "\<And>xs. length xs = w \<Longrightarrow> hsum xs = total xs"
  defines "z \<equiv> replicate w (a_zero A)"
  shows "(let ((dot_v, na_v, nb_v), a, b) = block_loop w (cos_step mac) a b (z, z, z)
     in cos_result A (cos_tail A (hsum dot_v, hsum na_v, hsum nb_v) a b)) = cosine_distance_naive A a b"
proof -
  let ?ok = "\<lambda>(d, x, y). length d = w \<and> length x = w \<and> length y = w"
  have ok: "?ok (cos_step mac va vb acc)"
    and dot: "total (fst (cos_step mac va vb acc)) = a_add A (total (fst acc)) (total (prods va vb))"
    and na: "total (fst (snd (cos_step mac va vb acc))) = a_add A (total (fst (snd acc))) (total (prods va va))"
    and nb: "total (snd (snd (cos_step mac va vb acc))) = a_add A (total (snd (snd acc))) (total (prods vb vb))"
    if "length va = w" "length vb = w" "?ok acc" for va vb acc
    using assms(3) that by (auto simp: adds_products_def cos_step_def split: prod.splits)
  note loop = block_loop_total [OF assms(2,1), of ?ok "(z, z, z)" "cos_step mac"]
  have init: "?ok (z, z, z)" by (simp add: z_def)
  obtain acc a' b' where r: "block_loop w (cos_step mac) a b (z, z, z) = (acc, a', b')" "?ok acc" "length a' = length b'"
    and d: "a_add A (total (fst acc)) (total (prods a' b')) = a_add A (total z) (total (prods a b))"
    using loop [of "\<lambda>s. total (fst s)" prods, OF init] ok dot prods_append by auto
  have n: "a_add A (total (fst (snd acc))) (total (prods a' a')) = a_add A (total z) (total (prods a a))"
    using loop [of "\<lambda>s. total (fst (snd s))" "\<lambda>a b. prods a a", OF init] ok na prods_append r(1) by auto
  have m: "a_add A (total (snd (snd acc))) (total (prods b' b')) = a_add A (total z) (total (prods b b))"
    using loop [of "\<lambda>s. total (snd (snd s))" "\<lambda>a b. prods b b", OF init] ok nb prods_append r(1) by auto
  obtain dv nv mv where acc: "acc = (dv, nv, mv)" by (cases acc)
  show ?thesis
    using r d n m assms(1,4) unfolding acc by (simp add: cosine_distance_naive_def cos_tail_total z_def total_replicate)
qed

lemma kernels_exact:
  assumes "length a = length b"
  shows "kernel_l2 A k a b = l2_distance_naive A a b" and "kernel_cos A k a b = cosine_distance_naive A a b"
proof -
  show "kernel_l2 A k a b = l2_distance_naive A a b"
    using l2_blocks [OF assms, of 8, OF _ lanes_adds(2) hsum_avx2_total] l2_blocks [OF assms, of 16, OF _ lanes_adds(2) hsum_array_total]
      l2_blocks [OF assms, of 4, OF _ lanes_adds(1) hsum4_total]
    by (cases k) (simp_all add: kernel_l2_def l2_distance_avx2_def l2_distance_avx512_def l2_distance_neon_def)
  show "kernel_cos A k a b = cosine_distance_naive A a b"
    using cos_blocks [OF assms, of 8, OF _ lanes_adds(2) hsum_array_total] cos_blocks [OF assms, of 16, OF _ lanes_adds(2) hsum_array_total]
      cos_blocks [OF assms, of 4, OF _ lanes_adds(1) hsum4_total]
    by (cases k) (simp_all add: kernel_cos_def cosine_distance_avx2_def cosine_distance_avx512_def cosine_distance_neon_def)
qed

end

section \<open>Real numbers\<close>

definition real_arith :: "real arith" where
  "real_arith = \<lparr>a_zero = 0, a_one = 1, a_tiny = 1 / 10 ^ 8, a_nan = 0, a_add = (+), a_sub = (-), a_mul = (*), a_div = (/),
     a_neg = uminus, a_sqrt = sqrt, a_fma = (\<lambda>x y s. x * y + s), a_less = (<)\<rparr>"

lemma real_arith_simps [simp]:
  "a_zero real_arith = 0" "a_one real_arith = 1" "a_tiny real_arith = 1 / 10 ^ 8" "a_add real_arith = (+)"
  "a_sub real_arith = (-)" "a_mul real_arith = (*)" "a_div real_arith = (/)" "a_neg real_arith = uminus"
  "a_sqrt real_arith = sqrt" "a_fma real_arith = (\<lambda>x y s. x * y + s)" "a_less real_arith = (<)"
  by (simp_all add: real_arith_def)

interpretation reals: exact_arith real_arith
  by unfold_locales simp_all

text \<open>
  C25: all kernels compute the same distances, up to rounding. In every arithmetic whose addition is
  associative and commutative with its zero, and whose fused multiply-add does not round
  differently, the NEON, AVX2 and AVX-512 kernels give the result of the plain loop, for both
  distances and vectors of any length.
\<close>

theorem simd_kernels_equal_naive:
  assumes "exact_arith A" and "length a = length b"
  shows "kernel_l2 A k a b = l2_distance_naive A a b \<and> kernel_cos A k a b = cosine_distance_naive A a b"
  using exact_arith.kernels_exact [OF assms] by simp

theorem simd_kernels_equal_naive_witness:
  "kernel_l2 real_arith KAvx2 [1, 2, 3, 4, 5, 6, 7, 8, 9] [0, 0, 0, 0, 0, 0, 0, 0, 7] = 208"
  using simd_kernels_equal_naive [OF reals.exact_arith_axioms, of "[1, 2, 3, 4, 5, 6, 7, 8, 9]" "[0, 0, 0, 0, 0, 0, 0, 0, 7]" KAvx2]
  by (simp add: l2_distance_naive_def l2_tail_def Let_def)

text \<open>
  short vectors give the same bits everywhere. On vectors shorter than a NEON register, where
  no block is processed, all kernels compute bit by bit what the plain loop computes, for any
  float unit in which zero plus zero is zero.
\<close>

theorem short_vectors_bit_exact:
  assumes "a_add A (a_zero A) (a_zero A) = a_zero A" and "length a < 4"
  shows "kernel_l2 A k a b = l2_distance_naive A a b \<and> kernel_cos A k a b = cosine_distance_naive A a b"
proof -
  have loop: "block_loop w step a b acc = (acc, a, b)" if "4 \<le> w" for w and step :: "'a list \<Rightarrow> 'a list \<Rightarrow> 's \<Rightarrow> 's" and acc
    using assms(2) that by (simp add: block_loop.simps [of w step a])
  have arr: "foldl (a_add A) (a_zero A) (replicate n (a_zero A)) = a_zero A" for n
    using assms(1) by (induction n) simp_all
  have h: "hsum_array A (replicate n (a_zero A)) = a_zero A" "hsum4 A (replicate 4 (a_zero A)) = a_zero A"
    "hsum_avx2 A (replicate 8 (a_zero A)) = a_zero A" for n
    using assms(1) arr by (simp_all add: hsum_array_def hsum4_def hsum_avx2_def hadd_def Let_def numeral_eq_Suc)
  show ?thesis
    by (cases k) (simp_all add: kernel_l2_def kernel_cos_def l2_distance_avx2_def l2_distance_avx512_def l2_distance_neon_def
      cosine_distance_avx2_def cosine_distance_avx512_def cosine_distance_neon_def loop h l2_distance_naive_def cosine_distance_naive_def)
qed

theorem short_vectors_bit_exact_witness:
  "kernel_l2 real_arith KAvx512 [1, 2] [4, 6] = l2_distance_naive real_arith [1, 2] [4, 6]"
  using short_vectors_bit_exact [of real_arith "[1, 2]" KAvx512 "[4, 6]"] by simp

text \<open>The distances as sums over the components.\<close>

definition dot_sum :: "real list \<Rightarrow> real list \<Rightarrow> real" where
  "dot_sum a b = (\<Sum>i < length a. a ! i * b ! i)"

definition metric_spec :: "metric \<Rightarrow> real list \<Rightarrow> real list \<Rightarrow> real" where
  "metric_spec m a b =
     (case m of
        ML2 \<Rightarrow> \<Sum>i < length a. (a ! i - b ! i)\<^sup>2
      | MIP \<Rightarrow> - dot_sum a b
      | MCosine \<Rightarrow>
          let norms = sqrt (dot_sum a a) * sqrt (dot_sum b b)
          in if norms < 1 / 10 ^ 8 then 1 else 1 - dot_sum a b / norms)"

lemma foldl_add_real: "foldl (\<lambda>s (x, y). s + f x y) s zs = s + (\<Sum>(x, y) \<leftarrow> zs. f x y)" for f :: "'a \<Rightarrow> 'b \<Rightarrow> real"
  by (induction zs arbitrary: s) auto

lemma sum_zip: "length a = length b \<Longrightarrow> (\<Sum>(x, y) \<leftarrow> zip a b. f x y) = (\<Sum>i < length a. f (a ! i) (b ! i))" for f :: "'a \<Rightarrow> 'b \<Rightarrow> real"
  by (simp add: sum_list_sum_nth atLeast0LessThan split_def)

lemma l2_naive_real: "length a = length b \<Longrightarrow> l2_distance_naive real_arith a b = metric_spec ML2 a b"
  using foldl_add_real [of "\<lambda>x y. (x - y) * (x - y)" 0 "zip a b"] sum_zip [of a b "\<lambda>x y. (x - y) * (x - y)"]
  by (simp add: l2_distance_naive_def l2_tail_def metric_spec_def Let_def power2_eq_square)

lemma total_real: "reals.total xs = sum_list xs"
  by (induction xs) simp_all

lemma prods_real: "length a = length b \<Longrightarrow> reals.total (reals.prods a b) = dot_sum a b"
  using sum_zip [of a b "(*)"] by (simp add: total_real reals.prods_def dot_sum_def split_def)

lemma cos_naive_real: "length a = length b \<Longrightarrow> cosine_distance_naive real_arith a b = metric_spec MCosine a b"
  by (simp add: cosine_distance_naive_def reals.cos_tail_total prods_real)
    (simp add: cos_result_def metric_spec_def Let_def)

lemma distance_for_metric_real:
  assumes "length a = length b"
  shows "distance_for_metric real_arith B C m a b (length a) = metric_spec m a b"
proof (cases m)
  case ML2
  show ?thesis
  proof (cases "a = []")
    case True
    then show ?thesis using ML2 by (simp add: distance_for_metric_def l2_distance_def metric_spec_def)
  next
    case False
    then have "b \<noteq> []" using assms by auto
    then show ?thesis
      using False ML2 assms reals.kernels_exact(1) [OF assms] l2_naive_real [OF assms]
      by (simp add: distance_for_metric_def l2_distance_def)
  qed
next
  case MCosine
  show ?thesis
  proof (cases "a = []")
    case True
    then show ?thesis
      using MCosine assms by (simp add: distance_for_metric_def cosine_distance_def metric_spec_def dot_sum_def)
  next
    case False
    then have "b \<noteq> []" using assms by auto
    then show ?thesis
      using False MCosine assms reals.kernels_exact(2) [OF assms] cos_naive_real [OF assms]
      by (simp add: distance_for_metric_def cosine_distance_def)
  qed
next
  case MIP
  then show ?thesis
    using assms foldl_add_real [of "(*)" 0 "zip a b"] sum_zip [of a b "(*)"]
    by (simp add: distance_for_metric_def ip_neg_distance_def metric_spec_def dot_sum_def)
qed

text \<open>
  C26: the distance of a metric. On real numbers, whatever kernel the build and the processor select,
  L2 is the sum of the squared differences, IP the negated inner product, and cosine one minus the
  inner product over the product of the norms, or 1 when that product is below \<open>10^-8\<close>.
\<close>

theorem distance_for_metric_spec:
  assumes "length a = length b"
  shows "distance_for_metric real_arith B C m a b (length a) = metric_spec m a b"
  by (rule distance_for_metric_real [OF assms])

definition sample_build :: build where
  "sample_build = \<lparr>b_arm64 = False, b_x86 = True, b_neon = False, b_avx2 = True, b_avx512 = True\<rparr>"

definition sample_cpu :: cpu where
  "sample_cpu = \<lparr>cpu_id = (\<lambda>leaf sub. Some \<lparr>reg_a = 7, reg_b = 32, reg_c = 0x18001000, reg_d = 0\<rparr>), cpu_xcr = 7\<rparr>"

theorem distance_for_metric_spec_witness:
  "distance_for_metric real_arith sample_build sample_cpu ML2 [1, 2] [4, 6] 2 = 25"
  using distance_for_metric_spec [of "[1, 2]" "[4, 6]" sample_build sample_cpu ML2] by (simp add: metric_spec_def lessThan_Suc numeral_2_eq_2)

lemma l2_zero_iff: "length a = length b \<Longrightarrow> metric_spec ML2 a b = 0 \<longleftrightarrow> a = b"
proof -
  assume len: "length a = length b"
  have "metric_spec ML2 a b = 0 \<longleftrightarrow> (\<forall>i < length a. (a ! i - b ! i)\<^sup>2 = 0)"
    by (simp add: metric_spec_def sum_nonneg_eq_0_iff Ball_def)
  then show ?thesis using len by (auto simp: list_eq_iff_nth_eq)
qed

lemma cauchy_schwarz:
  assumes "length a = length b" and "0 < dot_sum b b"
  shows "(dot_sum a b)\<^sup>2 \<le> dot_sum a a * dot_sum b b"
proof -
  let ?A = "dot_sum a a" and ?B = "dot_sum b b" and ?D = "dot_sum a b"
  have "0 \<le> (\<Sum>i < length a. (?B * a ! i - ?D * b ! i)\<^sup>2)" by (simp add: sum_nonneg)
  also have "\<dots> = (\<Sum>i < length a. ?B\<^sup>2 * (a ! i * a ! i) - 2 * ?B * ?D * (a ! i * b ! i) + ?D\<^sup>2 * (b ! i * b ! i))"
    by (intro sum.cong refl) (simp add: power2_eq_square algebra_simps)
  also have "\<dots> = ?B\<^sup>2 * ?A - 2 * ?B * ?D * ?D + ?D\<^sup>2 * ?B"
    using assms(1) by (simp add: sum.distrib sum_subtractf sum_distrib_left [symmetric] dot_sum_def)
  also have "\<dots> = ?B * (?A * ?B - ?D\<^sup>2)" by (simp add: power2_eq_square algebra_simps)
  finally show ?thesis using assms(2) by (simp add: zero_le_mult_iff)
qed

lemma dot_sum_self: "0 \<le> dot_sum a a"
  by (simp add: dot_sum_def sum_nonneg)

lemma dot_sum_comm: "length a = length b \<Longrightarrow> dot_sum a b = dot_sum b a"
  by (simp add: dot_sum_def mult.commute)

lemma cosine_bounds:
  assumes "length a = length b"
  shows "0 \<le> metric_spec MCosine a b \<and> metric_spec MCosine a b \<le> 2"
proof -
  let ?n = "sqrt (dot_sum a a) * sqrt (dot_sum b b)"
  show ?thesis
  proof (cases "?n < 1 / 10 ^ 8")
    case False
    then have n: "0 < ?n" by (simp add: order.strict_trans2 [of 0 "1 / 10 ^ 8"])
    then have "0 < dot_sum b b" using dot_sum_self [of b] by (cases "dot_sum b b = 0") auto
    from cauchy_schwarz [OF assms this] have "(dot_sum a b)\<^sup>2 \<le> ?n\<^sup>2"
      using dot_sum_self by (simp add: power_mult_distrib)
    then have "\<bar>dot_sum a b\<bar> \<le> ?n" using n by (simp only: abs_le_square_iff [symmetric] abs_of_pos)
    then have "- 1 \<le> dot_sum a b / ?n \<and> dot_sum a b / ?n \<le> 1" using n by (auto simp: pos_le_divide_eq pos_divide_le_eq abs_le_iff)
    then show ?thesis using False by (simp add: metric_spec_def Let_def)
  qed (simp add: metric_spec_def Let_def)
qed

text \<open>
  C27: what the index relies on. On real numbers all three distances are symmetric; L2 is never
  negative and 0 exactly for equal vectors; cosine lies between 0 and 2 and is 0 for a vector and
  itself, unless the squared norm is below \<open>10^-8\<close>, where it is 1.
\<close>

theorem distance_laws:
  fixes B :: build and C :: cpu
  assumes "length a = length b"
  defines "dm m x y \<equiv> distance_for_metric real_arith B C m x y (length x)"
  shows "dm m a b = dm m b a \<and> 0 \<le> dm ML2 a b \<and> (dm ML2 a b = 0 \<longleftrightarrow> a = b) \<and>
    0 \<le> dm MCosine a b \<and> dm MCosine a b \<le> 2 \<and> dm MCosine a a = (if dot_sum a a < 1 / 10 ^ 8 then 1 else 0)"
proof -
  have d: "dm m x y = metric_spec m x y" if "length x = length y" for m x y
    unfolding dm_def by (rule distance_for_metric_real [OF that])
  have "metric_spec m a b = metric_spec m b a"
    using assms(1) dot_sum_comm [OF assms(1)]
    by (cases m) (simp_all add: metric_spec_def Let_def mult.commute power2_commute)
  moreover have "metric_spec MCosine a a = (if dot_sum a a < 1 / 10 ^ 8 then 1 else 0)"
    using dot_sum_self [of a] by (auto simp: metric_spec_def Let_def)
  moreover have "0 \<le> metric_spec ML2 a b" by (simp add: metric_spec_def sum_nonneg)
  ultimately show ?thesis
    using assms(1) cosine_bounds [OF assms(1)] l2_zero_iff [OF assms(1)] by (simp add: d)
qed

theorem distance_laws_witness:
  "distance_for_metric real_arith sample_build sample_cpu MCosine [1, 2] [4, 6] 2 \<le> 2"
  using distance_laws [of "[1, 2]" "[4, 6]" sample_build sample_cpu ML2] by (simp add: numeral_2_eq_2)

section \<open>Dispatch\<close>

lemma mask_bits:
  fixes x m :: "'a::len word"
  assumes "x AND m = m" and "bit m n"
  shows "bit x n"
proof -
  have "bit (x AND m) n" using assms by simp
  then show ?thesis by (simp add: bit_and_iff)
qed

lemma xcr0_bit: "bit (xcr0 C) n \<Longrightarrow> bit (reg_c (cpuidex C 1 0)) 27 \<and> bit (cpu_xcr C) n"
  by (auto simp: xcr0_def bit_iff_and_push_bit_not_eq_0 [of "reg_c (cpuidex C 1 0)"] split: if_splits)

lemma ymm_enabled: "xcr_ok_for_ymm C \<Longrightarrow> bit (reg_c (cpuidex C 1 0)) 27 \<and> bit (cpu_xcr C) 1 \<and> bit (cpu_xcr C) 2"
  unfolding xcr_ok_for_ymm_def using mask_bits [of "xcr0 C" 6] xcr0_bit [of C 1] xcr0_bit [of C 2] by simp

lemma zmm_enabled: "xcr_ok_for_avx512_reg_state C \<Longrightarrow> bit (cpu_xcr C) 5 \<and> bit (cpu_xcr C) 6 \<and> bit (cpu_xcr C) 7"
  unfolding xcr_ok_for_avx512_reg_state_def
  using mask_bits [of "xcr0 C" "0xE0"] xcr0_bit [of C 5] xcr0_bit [of C 6] xcr0_bit [of C 7] by simp

text \<open>
  What a kernel needs, by the bits of \<^verbatim>\<open>cpuid\<close> and of the register \<^verbatim>\<open>XCR0\<close>: OSXSAVE (leaf 1,
  \<open>ecx\<close> 27), AVX (28) and FMA (12); AVX2 (leaf 7, \<open>ebx\<close> 5); AVX-512F (leaf 7, \<open>ebx\<close> 16); saved
  SSE and AVX state (1, 2) and saved opmask and ZMM state (5, 6, 7).
\<close>

definition cpu_supports :: "build \<Rightarrow> cpu \<Rightarrow> kernel \<Rightarrow> bool" where
  "cpu_supports B C k =
     (let ecx = reg_c (cpuidex C 1 0); ebx7 = reg_b (cpuidex C 7 0); x = cpu_xcr C
      in case k of
        KNaive \<Rightarrow> True
      | KNeon \<Rightarrow> b_arm64 B
      | KAvx2 \<Rightarrow> 7 \<le> max_cpuid_leaf C \<and> bit ecx 27 \<and> bit ecx 28 \<and> bit ecx 12 \<and> bit ebx7 5 \<and> bit x 1 \<and> bit x 2
      | KAvx512 \<Rightarrow> 7 \<le> max_cpuid_leaf C \<and> bit ecx 27 \<and> bit ebx7 16 \<and> bit x 1 \<and> bit x 2 \<and> bit x 5 \<and> bit x 6 \<and> bit x 7)"

text \<open>
  C28: no illegal instruction. Whatever the build switches and the processor, the kernel selected at
  run time is one the build contains, the processor implements, and the operating system saves the
  registers of; without OSXSAVE only the plain loop is selected on x86.
\<close>

theorem selected_kernel_supported:
  "cpu_supports B C (select_kernels B C) \<and>
   (case select_kernels B C of KNaive \<Rightarrow> True | KNeon \<Rightarrow> b_neon B | KAvx2 \<Rightarrow> b_x86 B \<and> b_avx2 B | KAvx512 \<Rightarrow> b_x86 B \<and> b_avx512 B)"
proof -
  have "cpu_can_use_avx2 C \<Longrightarrow> cpu_supports B C KAvx2"
    using ymm_enabled [of C]
    by (auto simp: cpu_can_use_avx2_def cpu_supports_def Let_def bit_iff_and_push_bit_not_eq_0 not_less split: if_splits)
  moreover have "cpu_can_use_avx512f C \<Longrightarrow> cpu_supports B C KAvx512"
    using ymm_enabled [of C] zmm_enabled [of C]
    by (auto simp: cpu_can_use_avx512f_def cpu_supports_def Let_def bit_iff_and_push_bit_not_eq_0 not_less split: if_splits)
  ultimately show ?thesis by (auto simp: select_kernels_def cpu_supports_def Let_def)
qed

end
