(* ===== verification/Vector_Bench.thy ===== *)
theory Vector_Bench
  imports Vector_Math_Correct Hnsw_Theorems
begin

text \<open>
  The benchmark of the distance kernels and of the graph search (\<^verbatim>\<open>bench/vector_bench.cpp\<close>). The
  draws of the random generator are an argument, \<open>draws i\<close> being the \<open>i\<close>-th; each benchmark of a
  kernel measures one call again and again, so it is the value of that call.
\<close>

section \<open>Distances\<close>

definition fill_random :: "(nat \<Rightarrow> 'a) \<Rightarrow> nat \<Rightarrow> nat \<Rightarrow> 'a list" where
  "fill_random draws start n = map (\<lambda>i. draws (start + i)) [0..<n]"

text \<open>\<open>MisalignedBlock\<close>: the vectors start at the second element of their storage.\<close>

record 'a misaligned_block =
  mb_storage_a :: "'a list"
  mb_storage_b :: "'a list"

definition write_at :: "nat \<Rightarrow> 'a list \<Rightarrow> 'a list \<Rightarrow> 'a list" where
  "write_at pos xs storage = fold (\<lambda>i s. s[pos + i := xs ! i]) [0..<length xs] storage"

definition reset_block :: "'a arith \<Rightarrow> (nat \<Rightarrow> 'a) \<Rightarrow> nat \<Rightarrow> 'a misaligned_block" where
  "reset_block A draws n =
     \<lparr>mb_storage_a = write_at 1 (fill_random draws 0 n) (replicate (n + 8) (a_zero A)),
      mb_storage_b = write_at 1 (fill_random draws n n) (replicate (n + 8) (a_zero A))\<rparr>"

definition bm_l2_naive :: "'a arith \<Rightarrow> (nat \<Rightarrow> 'a) \<Rightarrow> nat \<Rightarrow> 'a" where
  "bm_l2_naive A draws n = l2_distance_naive A (fill_random draws 0 n) (fill_random draws n n)"

definition bm_l2_aligned :: "'a arith \<Rightarrow> build \<Rightarrow> cpu \<Rightarrow> (nat \<Rightarrow> 'a) \<Rightarrow> nat \<Rightarrow> 'a" where
  "bm_l2_aligned A B C draws n =
     fst (l2_distance A B C (Some (fill_random draws 0 n)) (Some (fill_random draws n n)) n (Some (select_kernels B C)))"

definition bm_l2_misaligned :: "'a arith \<Rightarrow> build \<Rightarrow> cpu \<Rightarrow> (nat \<Rightarrow> 'a) \<Rightarrow> nat \<Rightarrow> 'a" where
  "bm_l2_misaligned A B C draws n =
     (let blk = reset_block A draws n
      in fst (l2_distance A B C (Some (drop 1 (mb_storage_a blk))) (Some (drop 1 (mb_storage_b blk))) n (Some (select_kernels B C))))"

lemma length_fill_random [simp]: "length (fill_random draws start n) = n"
  by (simp add: fill_random_def)

lemma write_at_fold:
  "m \<le> length xs \<Longrightarrow> pos + length xs \<le> length storage \<Longrightarrow>
    fold (\<lambda>i s. s[pos + i := xs ! i]) [0..<m] storage = take pos storage @ take m xs @ drop (pos + m) storage"
proof (induction m)
  case (Suc m)
  then show ?case
    by (simp add: take_Suc_conv_app_nth list_update_append Cons_nth_drop_Suc [symmetric] min_def)
qed simp

text \<open>The writes stay inside the storage, and the view behind its first element is what was written.\<close>

lemma write_at_inside:
  assumes "pos + length xs \<le> length storage"
  shows "write_at pos xs storage = take pos storage @ xs @ drop (pos + length xs) storage"
  using write_at_fold [of "length xs" xs pos storage] assms by (simp add: write_at_def)

lemma misaligned_view:
  "take n (drop 1 (mb_storage_a (reset_block A draws n))) = fill_random draws 0 n"
  "take n (drop 1 (mb_storage_b (reset_block A draws n))) = fill_random draws n n"
  by (simp_all add: reset_block_def write_at_inside)

section \<open>Searches\<close>

definition kHnswDim :: nat where "kHnswDim = 128"
definition kHnswN :: nat where "kHnswN = 10000"

fun hnsw_fill :: "hnsw_lib \<Rightarrow> (nat \<Rightarrow> nat) \<Rightarrow> (nat \<Rightarrow> fvec) \<Rightarrow> nat \<Rightarrow> nat \<Rightarrow> hnsw \<Rightarrow> status_code + hnsw" where
  "hnsw_fill L levels vecs i 0 h = Inr h"
| "hnsw_fill L levels vecs i (Suc n) h =
     (let (s, h) = add_item L (levels i) (of_nat i) (vecs i) h
      in if \<not> status_ok s then Inl s else hnsw_fill L levels vecs (i + 1) n h)"

text \<open>The distance of the first result, 0 without one; \<open>Inl\<close> is a benchmark that is skipped.\<close>

definition bm_hnsw_search :: "hnsw_lib \<Rightarrow> (nat \<Rightarrow> nat) \<Rightarrow> (nat \<Rightarrow> u32) \<Rightarrow> status_code + u32" where
  "bm_hnsw_search L levels draws =
     (case hnsw_fill L levels (\<lambda>i. fill_random draws (i * kHnswDim) kHnswDim) 0 kHnswN (new_hnsw kHnswDim 16 200) of
        Inl s \<Rightarrow> Inl s
      | Inr h \<Rightarrow>
          let found = search_top_k L (fill_random draws (kHnswN * kHnswDim) kHnswDim) 10 100 h
          in Inr (if found \<noteq> [] then sr_distance (hd found) else 0))"

section \<open>What the benchmarks compute\<close>

lemma distances_agree:
  assumes "exact_arith A"
  shows "bm_l2_aligned A B C draws n = bm_l2_naive A draws n" and "bm_l2_misaligned A B C draws n = bm_l2_naive A draws n"
proof -
  have one: "fst (l2_distance A B C (Some a) (Some b) n (Some k)) = l2_distance_naive A (take n a) (take n b)"
    if "length (take n a) = length (take n b)" for a b k
    using exact_arith.kernels_exact(1) [OF assms that, of k]
    by (cases "n = 0") (simp_all add: l2_distance_def l2_distance_naive_def l2_tail_def)
  show "bm_l2_aligned A B C draws n = bm_l2_naive A draws n"
    by (simp add: bm_l2_aligned_def bm_l2_naive_def one)
  have "length (take n (drop 1 (mb_storage_a (reset_block A draws n)))) = length (take n (drop 1 (mb_storage_b (reset_block A draws n))))"
    by (simp only: misaligned_view length_fill_random)
  from one [OF this] show "bm_l2_misaligned A B C draws n = bm_l2_naive A draws n"
    unfolding bm_l2_misaligned_def bm_l2_naive_def Let_def misaligned_view by simp
qed

lemma small_ids:
  assumes "i < 2 ^ 20" and "j < 2 ^ 20" and "(of_nat i :: u64) = of_nat j"
  shows "i = j"
proof -
  have "i < 18446744073709551616" "j < 18446744073709551616" using assms(1,2) by auto
  note n = this [THEN unat_of_nat_u64]
  show ?thesis by (rule trans [OF trans [OF n(1) [symmetric] arg_cong [OF assms(3), of unat]] n(2)])
qed

lemma hnsw_fill_represents:
  assumes "lib_ok L"
  shows "represents h m K \<Longrightarrow> \<forall>j. i \<le> j \<longrightarrow> j < i + n \<longrightarrow> of_nat j \<notin> K \<Longrightarrow> i + n \<le> 2 ^ 20 \<Longrightarrow>
    \<exists>h' m' K'. hnsw_fill L levels vecs i n h = Inr h' \<and> represents h' m' K' \<and>
      (\<forall>k v. m' k = Some v \<longrightarrow> m k = Some v \<or> (\<exists>j < i + n. v = vecs j)) \<and> dom m' = dom m \<union> of_nat ` {i..<i + n}"
proof (induction n arbitrary: i h m K)
  case (Suc n)
  obtain s h1 where add: "add_item L (levels i) (of_nat i) (vecs i) h = (s, h1)" by fastforce
  have fresh: "(of_nat i :: u64) \<notin> K" using Suc.prems(2) by simp
  from represents_add [OF assms Suc.prems(1) add] fresh
  have one: "represents h1 (m(of_nat i \<mapsto> vecs i)) (insert (of_nat i) K)" "s = kOk" by simp_all
  have le: "Suc i + n \<le> 2 ^ 20" using Suc.prems(3) by simp
  have "\<forall>j. Suc i \<le> j \<longrightarrow> j < Suc i + n \<longrightarrow> (of_nat j :: u64) \<notin> insert (of_nat i) K"
  proof (intro allI impI)
    fix j assume j: "Suc i \<le> j" "j < Suc i + n"
    then have "(of_nat j :: u64) \<noteq> of_nat i" using small_ids [of j i] Suc.prems(3) by auto
    then show "(of_nat j :: u64) \<notin> insert (of_nat i) K" using j Suc.prems(2) by simp
  qed
  from Suc.IH [OF one(1) this le] obtain h' m' K' where
    rest: "hnsw_fill L levels vecs (Suc i) n h1 = Inr h'" "represents h' m' K'"
      "\<forall>k v. m' k = Some v \<longrightarrow> (m(of_nat i \<mapsto> vecs i)) k = Some v \<or> (\<exists>j < Suc i + n. v = vecs j)"
      "dom m' = dom (m(of_nat i \<mapsto> vecs i)) \<union> of_nat ` {Suc i..<Suc i + n}"
    by blast
  have "{i..<i + Suc n} = insert i {Suc i..<Suc i + n}" by auto
  then have "dom m' = dom m \<union> of_nat ` {i..<i + Suc n}" using rest(4) by auto
  moreover have "hnsw_fill L levels vecs i (Suc n) h = Inr h'" using add one(2) rest(1) by (simp add: status_ok_def)
  moreover have "\<forall>k v. m' k = Some v \<longrightarrow> m k = Some v \<or> (\<exists>j < i + Suc n. v = vecs j)"
  proof (intro allI impI)
    fix k v assume "m' k = Some v"
    then consider "(m(of_nat i \<mapsto> vecs i)) k = Some v" | "\<exists>j < Suc i + n. v = vecs j" using rest(3) by blast
    then show "m k = Some v \<or> (\<exists>j < i + Suc n. v = vecs j)"
    proof cases
      case 1
      then show ?thesis by (cases "k = of_nat i") (auto intro!: exI [of _ i])
    qed auto
  qed
  ultimately show ?case using rest(2) by blast
qed auto

text \<open>
  C36: the vector benchmarks. In every arithmetic in which the kernels do not round, the benchmark
  with vectors that start at the second element of their storage computes the same distance as
  the ones with aligned vectors and with the plain loop, whichever kernel is selected; and the
  search benchmark is never skipped and always finds something: its result is the distance
  of the query to one of the vectors it added.
\<close>

theorem vector_bench_results:
  assumes "exact_arith A" and "lib_ok L"
  shows "bm_l2_misaligned A B C draws n = bm_l2_naive A draws n \<and> bm_l2_aligned A B C draws n = bm_l2_naive A draws n \<and>
    (\<exists>i < kHnswN. bm_hnsw_search L levels bits =
      Inr (hl_dist L (fill_random bits (kHnswN * kHnswDim) kHnswDim) (fill_random bits (i * kHnswDim) kHnswDim)))"
proof -
  let ?vecs = "\<lambda>i. fill_random bits (i * kHnswDim) kHnswDim" and ?q = "fill_random bits (kHnswN * kHnswDim) kHnswDim"
  have start: "represents (new_hnsw kHnswDim 16 200) Map.empty {}" by (rule reaches_represents [OF assms(2) hnsw_reaches.fresh])
  have "0 + kHnswN \<le> 2 ^ 20" by (simp add: kHnswN_def)
  with hnsw_fill_represents [OF assms(2) start, of 0 kHnswN levels ?vecs] obtain h m K where
    h: "hnsw_fill L levels ?vecs 0 kHnswN (new_hnsw kHnswDim 16 200) = Inr h" "represents h m K"
      "\<forall>k v. m k = Some v \<longrightarrow> (\<exists>j < kHnswN. v = ?vecs j)" "dom m = of_nat ` {0..<kHnswN}"
    by auto
  have "m \<noteq> Map.empty" using h(4) by (auto simp: kHnswN_def)
  then obtain r rs where found: "search_top_k L ?q 10 100 h = r # rs"
    using search_represents [OF assms(2) h(2), of ?q 10] by (cases "search_top_k L ?q 10 100 h") auto
  then have "r \<in> set (search_top_k_filtered L ?q 10 100 None h)" by (simp add: search_top_k_def)
  then obtain v where "m (sr_id r) = Some v" "sr_distance r = hl_dist L ?q v"
    using search_represents [OF assms(2) h(2), of ?q 10 100 None] by blast
  then obtain i where "i < kHnswN" "sr_distance r = hl_dist L ?q (?vecs i)" using h(3) by blast
  then have "\<exists>i < kHnswN. bm_hnsw_search L levels bits = Inr (hl_dist L ?q (?vecs i))"
    using h(1) found by (auto simp: bm_hnsw_search_def)
  then show ?thesis using distances_agree [OF assms(1)] by simp
qed

theorem vector_bench_results_witness:
  "bm_l2_misaligned real_arith sample_build sample_cpu real 5 = 125 \<and> bm_hnsw_search zero_lib (\<lambda>i. 0) (\<lambda>i. 0) = Inr 0"
proof -
  have "[0..<5] = [0, 1, 2, 3, 4::nat]" by (simp add: upt_rec)
  then have "bm_l2_naive real_arith real 5 = 125"
    by (simp add: bm_l2_naive_def fill_random_def l2_distance_naive_def l2_tail_def Let_def)
  moreover have "hl_dist zero_lib v w = 0" for v w by (simp add: zero_lib_def plain_lib_def)
  ultimately show ?thesis
    using vector_bench_results [OF reals.exact_arith_axioms lib_ok_zero, of sample_build sample_cpu real 5 "\<lambda>i. 0" "\<lambda>i. 0"] by auto
qed

end
