(* ===== verification/Spec2Isabelle.thy ===== *)
theory Spec2Isabelle
  imports Common_Types Log_Repair Snapshot_Histories Collection_Threads Api_Threads Aligned_Alloc Hnsw_File Hnsw_Levels Hnsw_Visited Hnsw_Locks
    Ann_Bench_Correct Filter_Bench Quant_Bench Storage_Bench Vector_Bench
begin

text \<open>
  LuminaStore, an embeddable vector database in C++.

  The program. A collection (\<^verbatim>\<open>src/engine/collection.cpp\<close>) joins a durable key-value store, a
  proximity graph for nearest-neighbour search and an index of scalar fields for filters. The
  store (\<^verbatim>\<open>src/storage\<close>) appends every change to a write-ahead log, keeps the offsets of the live
  keys in memory, and rebuilds them when it is opened, from the whole log or from a snapshot and
  the rest of the log; a manifest names the latest snapshot. Graph and filter index live in
  memory and are rebuilt from the store. A C interface (\<^verbatim>\<open>cpp_engine/c_api.cpp\<close>) hands
  out handles. The graph can be saved to a file of its own; the quantizers and the vector
  kernels for several instruction sets stand beside it, and a benchmark measures the graph
  against brute force.

  Theories and sources, in the order in which they build on each other.

  Shared: \<open>Lumina_Prelude\<close> has the machine integers as words, the status codes, the
  little- and big-endian fields and their round trips (\<open>codec_simps\<close>, \<open>codec_inverse\<close>);
  \<open>Common_Types\<close> the statuses with their messages, and slices as a linear order
  (\<^verbatim>\<open>include/lumina/common/types.h\<close>); \<open>Crc32\<close> the table of \<^verbatim>\<open>crc32.h\<close> against the shift register;
  \<open>Posix_Io\<close> the system calls, including partial reads and writes and failures; \<open>Byte_Stream\<close>
  binary streams as readers, with the locale \<open>stream_codec\<close>.

  Log: \<open>Wal_Frame\<close> has the frames and their checksums in both formats; \<open>Log_Manager\<close> is
  \<^verbatim>\<open>log_manager.cpp\<close>, with the repair loop of \<^verbatim>\<open>open\<close>, appending, iterating and reading;
  \<open>Log_Correct\<close> relates a log to its list of records (\<open>wf_log\<close>); \<open>Log_Cut\<close> treats a log cut at any
  byte, \<open>Log_Recovery\<close> crashes, failed calls and damaged bytes, \<open>Log_Repair\<close> arbitrary files.

  Store: \<open>Index_Manager\<close>, \<open>Snapshot\<close>, \<open>Manifest\<close> and \<open>Storage_Engine\<close> are the files of the same
  names. \<open>Store_Spec\<close> states the contract of the log (\<open>record_log\<close>) and builds the abstract
  store on it and on the locale \<open>offset_index\<close> of the index (\<open>kv_store\<close>); \<open>Engine_Correct\<close>,
  \<open>Engine_Theorems\<close> and \<open>Engine_Snapshot\<close> show that the engine implements a map, also across a
  crash or a snapshot.

  Filters: \<open>Entry_Meta\<close> is the encoding of an entry, \<open>Filter_Index\<close> the bit sets and the inverted
  lists, \<open>Filter_Correct\<close> their meaning in terms of the entries added and removed.

  Graph: \<open>Hnsw\<close> is \<^verbatim>\<open>hnsw_index.cpp\<close> without files and locks; \<open>Hnsw_Graph\<close>, \<open>Hnsw_Search\<close>,
  \<open>Hnsw_Correct\<close> and \<open>Hnsw_Theorems\<close> have the shape of the graph, the search loop, the
  refinement of a map from ids to vectors, and the reachable states; \<open>Hnsw_File\<close> saving and
  loading; \<open>Hnsw_Levels\<close> the random levels in rounded arithmetic; \<open>Hnsw_Visited\<close> the stamps of the visited
  marks; \<open>Hnsw_Locks\<close> the locks of concurrent operations as a step relation.

  Vectors: \<open>Vector_Math\<close> and \<open>Vector_Math_Correct\<close> have the distance kernels over an abstract
  arithmetic and the choice among them; \<open>Quant_Kernels\<close> and \<open>Quant_Correct\<close> the kernels on bytes;
  \<open>Quantizer\<close> and \<open>Quantizer_Correct\<close> the three quantizers with their files; \<open>Aligned_Alloc\<close> the
  allocator of aligned buffers.

  Collection and clients: \<open>Collection\<close> is \<^verbatim>\<open>collection.cpp\<close>; \<open>Collection_Correct\<close> the invariant
  that ties store, graph and filter to one table of entries; \<open>Collection_Theorems\<close> and
  \<open>Collection_Recovery\<close> what a client sees, also after a crash or a snapshot; \<open>C_Api\<close> and
  \<open>C_Api_Correct\<close> the C interface; \<open>Sessions\<close> histories of clients that open, work, and close or
  crash; \<open>Snapshot_Histories\<close> the life of a directory with snapshots that may fail anywhere, restarts
  and power failures; \<open>Collection_Threads\<close> writers of several threads as phases that are
  interleaved with readers; \<open>Api_Threads\<close> threads that share handles and close them.

  Benchmarks: \<open>Fvecs\<close>, \<open>Ann_Bench\<close> and \<open>Ann_Bench_Correct\<close> have the program of \<^verbatim>\<open>tools\<close>; \<open>Filter_Bench\<close>,
  \<open>Quant_Bench\<close> (with the virtual interface of the quantizers), \<open>Storage_Bench\<close> and \<open>Vector_Bench\<close> the
  programs of \<^verbatim>\<open>bench\<close>: what they set up, compute and report, apart from durations.
\<close>

text \<open>
  Conventions. A C++ object is a record, and an operation takes it and returns it updated, with
  a status code or \<open>status_code + 'a\<close> for its result. \<^verbatim>\<open>uint64_t\<close> offsets and \<^verbatim>\<open>size_t\<close> counts are
  natural numbers reduced by \<open>u64_wrap\<close> wherever the code adds them; ids, checksums and raw
  floats are words. A float that is only stored or compared is its bit pattern, ordered by
  \<open>flt_less\<close>, under which NaN is unordered. Reading outside a buffer of the caller is the value
  \<open>Out_Of_Bounds\<close>.

  What is not in the sources is an argument: \<open>sysenv\<close> the outcome of each system call, \<open>store_env\<close>
  one of them per file and the iteration order of a hash table, \<open>hnsw_lib\<close> the distance function
  and the order among ties in heaps and in \<^verbatim>\<open>std::sort\<close> (for distances with a NaN among them, for
  which the order of \<^verbatim>\<open>std::sort\<close> is not defined, \<open>lib_ok\<close> only keeps that it permutes the list), \<open>coll_env\<close> these together with the random
  levels, \<open>api_env\<close> the text form of a float and the success of an allocation, \<open>arith\<close> and the
  operations of the quantizers the float unit, \<open>float_math\<close> the rounding of \<^verbatim>\<open>double\<close> and \<^verbatim>\<open>std::log\<close>, \<open>build\<close> and \<open>cpu\<close> the compiler's flags and the answers
  of CPUID, \<open>bench_env\<close> files, random draws and durations. Theorems about success assume that
  calls succeed (\<open>benign\<close>, \<open>good_env\<close>, \<open>lib_ok\<close>); those about errors let them fail. The two kinds
  of seek (\<open>sys_lseek\<close> to the end, \<open>sys_lseek_set\<close> to an offset) and the two ways to open a file
  (\<open>sys_open\<close> for \<^verbatim>\<open>open(2)\<close>, \<open>sys_stream\<close> for an \<^verbatim>\<open>ifstream\<close>) fail independently of each other.

  The histories with snapshots (\<open>Snapshot_Histories\<close>) let every call inside a snapshot fail, the
  \<^verbatim>\<open>fsync\<close> of the log included, but take no snapshot before the log has its first byte
  (\<open>late_snapshots\<close>): a snapshot of the empty log makes later opens fail, which
  \<open>empty_snapshot_blocks_open\<close> shows.

  Bounds. A log stays below \<open>2 ^ 63\<close> bytes (the offsets of the code are signed in \<^verbatim>\<open>pread\<close>); \<open>req_cost\<close>
  bounds what one request adds, and the sum over all requests must fit. Loops recurse on lists or on a measure. The repair loop and
  the iteration move on by a frame each time; the search loop visits no node twice, and its form
  with stamps (\<open>stamped_loop\<close>) takes one more unit of fuel than there are nodes, for which
  \<open>stamped_searches_exact\<close> shows that it ends and agrees with the loop of \<open>Hnsw\<close>. Stamps have 32 bits,
  so this holds for the first \<open>2 ^ 32 - 1\<close> searches of a thread; \<open>stamp_wraparound_hides_node\<close> shows
  what happens after them. The byte kernels are exact up to 66051 bytes, where a 32-bit lane could
  overflow.

  Memory is unbounded: a container grows whenever the code resizes it (\<open>bs_ensure\<close> grows a bit set
  to any id, where the code throws for ids near \<open>2 ^ 64\<close>), and the entry point of the graph
  is an integer, which agrees with the \<^verbatim>\<open>int\<close> of the code below \<open>2 ^ 31\<close> nodes. The search loop of the
  graph tests that its queues are not empty before it looks at their tops; for a beam width of at
  least 1 this is always so (\<open>queue_tests_redundant\<close>), while the code is undefined for a width of 0,
  which \<open>ef_construction = 0\<close> leads to.

  Not modelled. The text of most diagnostic messages, \<^verbatim>\<open>lumina_free_string\<close>, and creating a
  directory; the use of \<^verbatim>\<open>aligned_alloc.h\<close> by the containers (vectors are lists); rounding of
  the float kernels, which the theorems either avoid or bound to an exact arithmetic; what the
  operating system may still hold back after a successful \<^verbatim>\<open>fsync\<close> or rename; the durations that
  the programs under \<^verbatim>\<open>bench\<close> measure. Concurrent operations are modelled by the order of their locks
  (\<open>Hnsw_Locks\<close>) and by the sections that the locks protect (\<open>Collection_Threads\<close>, \<open>Api_Threads\<close>), not by the
  interleaving of single memory accesses. Python bindings and scripts are clients of the C
  interface.
\<close>

end
